(* ===== verification/Sponge_Prelude.thy ===== *)
theory Sponge_Prelude
  imports Main "HOL-Library.Word"
begin

text \<open>
  What every component of the development shares.

  \<^item> The C++ types: a \<open>std::string\<close> is a list of bytes; \<open>size_t\<close> and \<open>uint64_t\<close> are natural
    numbers with the wrap-around at 2^64 written out (\<open>u64_add\<close>, \<open>u64_sub\<close>); the narrower
    integers (\<open>uint8_t\<close>, \<open>uint16_t\<close>, \<open>uint32_t\<close>) are words of their width.
  \<^item> Abnormal ends: an exception or an operation with undefined behaviour is the value
    \<open>Inl e\<close> of the result type \<open>'a res\<close>; \<open>rbind\<close> sequences two statements, and
    \<open>returns m P\<close> says that \<open>m\<close> comes back normally with a value that satisfies \<open>P\<close>.
    The rules collected in \<open>returns_intro\<close> carry the component proofs.
  \<^item> The members of \<open>std::string\<close> the source uses, with their exceptions.
\<close>

section \<open>Types of the program\<close>

type_synonym byte = "8 word"
type_synonym bytes = "byte list"
type_synonym u8 = "8 word"
type_synonym u16 = "16 word"
type_synonym u32 = "32 word"
type_synonym u64 = nat
type_synonym size_t = nat

text \<open>The largest \<open>std::string\<close> that can be allocated: \<open>max_size()\<close>, 2^63 - 1 on the
  64-bit targets.\<close>

abbreviation max_string :: nat where
  "max_string \<equiv> 9223372036854775807"

section \<open>64-bit unsigned arithmetic\<close>

text \<open>\<open>U64\<close> is 2^64, written as the numeral the simplifier would make of it.\<close>

abbreviation U64 :: nat where
  "U64 \<equiv> 18446744073709551616"

definition u64_add :: "u64 \<Rightarrow> u64 \<Rightarrow> u64" where
  "u64_add a b = (a + b) mod U64"

definition u64_sub :: "u64 \<Rightarrow> u64 \<Rightarrow> u64" where
  "u64_sub a b = (if b \<le> a then a - b else a + U64 - b)"

definition u64_mul :: "u64 \<Rightarrow> u64 \<Rightarrow> u64" where
  "u64_mul a b = (a * b) mod U64"

lemma U64_eq: "U64 = 2 ^ 64"
  by simp

lemma u64_add_small [simp]: "a + b < U64 \<Longrightarrow> u64_add a b = a + b"
  by (simp add: u64_add_def)

lemma u64_add_0 [simp]: "a < U64 \<Longrightarrow> u64_add a 0 = a" "a < U64 \<Longrightarrow> u64_add 0 a = a"
  by (simp_all add: u64_add_def)

lemma u64_add_lt [simp]: "u64_add a b < U64"
  by (simp add: u64_add_def)

lemma u64_sub_le [simp]: "b \<le> a \<Longrightarrow> u64_sub a b = a - b"
  by (simp add: u64_sub_def)

lemma u64_sub_lt [simp]: "a < U64 \<Longrightarrow> u64_sub a b < U64"
  by (auto simp: u64_sub_def)

lemma u64_mul_small [simp]: "a * b < U64 \<Longrightarrow> u64_mul a b = a * b"
  by (simp add: u64_mul_def)

lemma u64_add_assoc: "u64_add (u64_add a b) c = u64_add a (u64_add b c)"
  by (simp add: u64_add_def mod_simps add.assoc)

lemma u64_add_commute: "u64_add a b = u64_add b a"
  by (simp add: u64_add_def add.commute)

lemma u64_sub_add_cancel: "a < U64 \<Longrightarrow> b < U64 \<Longrightarrow> u64_add (u64_sub a b) b = a"
  by (auto simp: u64_add_def u64_sub_def)

lemma u64_add_sub_cancel: "a < U64 \<Longrightarrow> b < U64 \<Longrightarrow> u64_sub (u64_add a b) b = a"
  by (cases "a + b < U64") (auto simp: u64_add_def u64_sub_def mod_if)

lemma u64_add_inj: "a < U64 \<Longrightarrow> b < U64 \<Longrightarrow> c < U64 \<Longrightarrow> u64_add a c = u64_add b c \<longleftrightarrow> a = b"
  by (metis u64_add_sub_cancel)

section \<open>Results: values, exceptions and undefined behaviour\<close>

datatype cxx_error =
    DivisionByZero              \<comment> \<open>\<open>%\<close> or \<open>/\<close> by zero: undefined behaviour\<close>
  | EmptyContainer              \<comment> \<open>\<open>front()\<close> or \<open>back()\<close> of an empty container: undefined behaviour\<close>
  | OutOfBounds                 \<comment> \<open>reading an array outside its bounds: undefined behaviour\<close>
  | BadShift                    \<comment> \<open>a shift by a negative amount or by the width or more: undefined behaviour\<close>
  | SignedOverflow              \<comment> \<open>an \<open>int\<close> beyond its range: undefined behaviour\<close>
  | NonTermination              \<comment> \<open>a loop that does not end\<close>
  | BadOptional                 \<comment> \<open>\<open>std::bad_optional_access\<close>\<close>
  | OutOfRange string           \<comment> \<open>\<open>std::out_of_range\<close>\<close>
  | LengthError string          \<comment> \<open>\<open>std::length_error\<close>\<close>
  | InvalidArgument string      \<comment> \<open>\<open>std::invalid_argument\<close>\<close>
  | RuntimeError string         \<comment> \<open>\<open>std::runtime_error\<close>\<close>
  | TaggedError string int      \<comment> \<open>\<open>tagged_error\<close>: what was attempted, and the error code\<close>

type_synonym 'a res = "cxx_error + 'a"

fun rbind :: "'a res \<Rightarrow> ('a \<Rightarrow> 'b res) \<Rightarrow> 'b res" where
  "rbind (Inl e) f = Inl e"
| "rbind (Inr x) f = f x"

fun returns :: "'a res \<Rightarrow> ('a \<Rightarrow> bool) \<Rightarrow> bool" where
  "returns (Inl e) P = False"
| "returns (Inr x) P = P x"

named_theorems returns_intro

lemma returns_InrI [returns_intro]: "P x \<Longrightarrow> returns (Inr x) P"
  by simp

lemma returns_bind: "returns m P \<Longrightarrow> (\<And>x. P x \<Longrightarrow> returns (f x) Q) \<Longrightarrow> returns (rbind m f) Q"
  by (cases m) auto

lemma returns_mono: "returns m P \<Longrightarrow> (\<And>x. P x \<Longrightarrow> Q x) \<Longrightarrow> returns m Q"
  by (cases m) auto

lemma returns_conj: "returns m P \<Longrightarrow> returns m Q \<Longrightarrow> returns m (\<lambda>x. P x \<and> Q x)"
  by (cases m) auto

lemma returns_iff: "returns m P \<longleftrightarrow> (\<exists>x. m = Inr x \<and> P x)"
  by (cases m) auto

lemma returnsE: "returns m P \<Longrightarrow> (\<And>x. m = Inr x \<Longrightarrow> P x \<Longrightarrow> thesis) \<Longrightarrow> thesis"
  by (cases m) auto

lemma returnsD: "returns m P \<Longrightarrow> m = Inr x \<Longrightarrow> P x"
  by simp

lemma rbind_Inr_iff: "rbind m f = Inr y \<longleftrightarrow> (\<exists>x. m = Inr x \<and> f x = Inr y)"
  by (cases m) auto

lemma rbind_pairE:
  "rbind m (\<lambda>(x, y). f x y) = Inr z \<Longrightarrow> (\<And>x y. m = Inr (x, y) \<Longrightarrow> f x y = Inr z \<Longrightarrow> thesis) \<Longrightarrow> thesis"
  by (auto simp: rbind_Inr_iff)

lemma rbind_unit [simp]: "rbind m Inr = m"
  by (cases m) simp_all

lemma rbind_cong [fundef_cong]: "m = m' \<Longrightarrow> (\<And>x. m' = Inr x \<Longrightarrow> f x = g x) \<Longrightarrow> rbind m f = rbind m' g"
  by (cases m') auto

text \<open>Running an operation over a list, stopping at the first abnormal end.\<close>

fun rfold :: "('s \<Rightarrow> 'a \<Rightarrow> 's res) \<Rightarrow> 's \<Rightarrow> 'a list \<Rightarrow> 's res" where
  "rfold f s [] = Inr s"
| "rfold f s (x # xs) = rbind (f s x) (\<lambda>s'. rfold f s' xs)"

lemma rfold_invariant:
  assumes "I s" and "\<And>s x. x \<in> set xs \<Longrightarrow> I s \<Longrightarrow> returns (f s x) I"
  shows "returns (rfold f s xs) I"
  using assms by (induction xs arbitrary: s) (auto intro!: returns_bind [where P = I])

lemma rfold_append: "rfold f s (xs @ ys) = rbind (rfold f s xs) (\<lambda>s'. rfold f s' ys)"
proof (induction xs arbitrary: s)
  case (Cons x xs)
  then show ?case by (cases "f s x") simp_all
qed simp

text \<open>An invariant that may speak of the operations performed so far. A component shows that each
  operation extends it as long as the history is admissible; every admissible run from a state
  where it holds of the empty history then returns, and the invariant holds of the whole history.\<close>

locale history_invariant =
  fixes step :: "'s \<Rightarrow> 'a \<Rightarrow> 's res" and inv :: "'a list \<Rightarrow> 's \<Rightarrow> bool" and ok :: "'a list \<Rightarrow> bool"
  assumes step_law: "inv h s \<Longrightarrow> ok (h @ [a]) \<Longrightarrow> returns (step s a) (inv (h @ [a]))"
    and ok_prefix: "ok (h @ [a]) \<Longrightarrow> ok h"
begin

lemma ok_append: "ok (h @ as) \<Longrightarrow> ok h"
proof (induction as rule: rev_induct)
  case (snoc a as)
  then show ?case using ok_prefix [of "h @ as" a] by simp
qed simp

lemma run_from: "inv h s \<Longrightarrow> ok (h @ as) \<Longrightarrow> returns (rfold step s as) (inv (h @ as))"
proof (induction as arbitrary: h s)
  case (Cons a as)
  have "ok (h @ [a])" using Cons.prems(2) ok_append [of "h @ [a]" as] by simp
  then have "returns (step s a) (inv (h @ [a]))" using Cons.prems(1) by (intro step_law)
  then show ?case
    using Cons.prems Cons.IH [of "h @ [a]"] by (auto intro!: returns_bind [where P = "inv (h @ [a])"])
qed simp

lemma run: "inv [] s \<Longrightarrow> ok as \<Longrightarrow> returns (rfold step s as) (inv as)"
  using run_from [of "[]"] by simp

end

section \<open>Members of std::string\<close>

text \<open>\<open>s.substr(pos, n)\<close>.\<close>

definition string_substr :: "bytes \<Rightarrow> size_t \<Rightarrow> size_t \<Rightarrow> bytes res" where
  "string_substr s pos n =
     (if length s < pos then Inl (OutOfRange ''basic_string::substr'')
      else Inr (take n (drop pos s)))"

text \<open>\<open>s.replace(pos, len, str, pos2, len2)\<close>.\<close>

definition string_replace ::
  "bytes \<Rightarrow> size_t \<Rightarrow> size_t \<Rightarrow> bytes \<Rightarrow> size_t \<Rightarrow> size_t \<Rightarrow> bytes res" where
  "string_replace s pos len str pos2 len2 =
     (if length s < pos \<or> length str < pos2 then Inl (OutOfRange ''basic_string::replace'')
      else Inr (take pos s @ take len2 (drop pos2 str) @ drop (pos + len) s))"

text \<open>\<open>s.resize(n)\<close>: cut, or extended with zero characters.\<close>

definition string_resize :: "bytes \<Rightarrow> size_t \<Rightarrow> bytes" where
  "string_resize s n = take n s @ replicate (n - length s) 0"

lemma length_string_resize [simp]: "length (string_resize s n) = n"
  by (simp add: string_resize_def)

lemma string_substr_in [simp]: "pos \<le> length s \<Longrightarrow> string_substr s pos n = Inr (take n (drop pos s))"
  by (simp add: string_substr_def)

section \<open>Machine words\<close>

lemma unat_lt: "unat (a :: u8) < 256" "unat (b :: u16) < 65536" "unat (c :: u32) < 4294967296"
  using unsigned_less [of a] unsigned_less [of b] unsigned_less [of c] by simp_all

lemma unat_drop_bit: "unat (drop_bit n w) = unat w div 2 ^ n" for w :: "'a::len word"
proof -
  have "unat (drop_bit n w) = drop_bit n (take_bit LENGTH('a) (unat w))" by (rule unsigned_drop_bit_eq)
  also have "take_bit LENGTH('a) (unat w) = unat w" by (rule take_bit_nat_eq_self) (rule unsigned_less)
  finally show ?thesis by (simp only: drop_bit_eq_div)
qed

lemma unat_take_bit: "unat (take_bit n w) = unat w mod 2 ^ n" for w :: "'a::len word"
  by (subst unsigned_take_bit_eq) (rule take_bit_eq_mod)

lemma unat_ucast: "unat (ucast w :: 'b::len word) = unat w mod 2 ^ LENGTH('b)" for w :: "'a::len word"
  by (subst unsigned_ucast_eq) (rule take_bit_eq_mod)

lemma unat_complement: "unat (- w - 1) = 2 ^ LENGTH('a) - 1 - unat w" for w :: "'a::len word"
proof -
  have "unat (- w - 1) = unat (- 1 - w)" by (rule arg_cong [of _ _ unat]) (simp add: algebra_simps)
  also have "\<dots> = unat (- 1 :: 'a word) - unat w" by (rule unat_sub) simp
  finally show ?thesis by (simp add: unsigned_minus_1_eq_mask mask_eq_exp_minus_1)
qed

section \<open>Modular arithmetic\<close>

lemma mod_sub_cancel: "i < m \<Longrightarrow> ((r + i) mod m + m - i) mod m = r mod m" for m :: nat
proof -
  assume "i < m"
  then have "((r + i) mod m + m - i) mod m = ((r + i) mod m + (m - i)) mod m" by simp
  also have "\<dots> = (r + i + (m - i)) mod m" by (rule mod_add_left_eq)
  also have "\<dots> = r mod m" using \<open>i < m\<close> by simp
  finally show ?thesis .
qed

lemma mod_sub_solve: "i < m \<Longrightarrow> k < m \<Longrightarrow> r mod m = (k + m - i) mod m \<Longrightarrow> (r + i) mod m = k" for m :: nat
proof -
  assume i: "i < m" and k: "k < m" and r: "r mod m = (k + m - i) mod m"
  have "(r + i) mod m = (r mod m + i) mod m" by (simp add: mod_simps)
  also have "\<dots> = (k + m - i + i) mod m" unfolding r by (rule mod_add_left_eq)
  also have "\<dots> = k" using i k by simp
  finally show ?thesis .
qed

lemma mod_wrap: "f < c \<Longrightarrow> i \<le> c \<Longrightarrow> (f + i) mod c = (if f + i < c then f + i else f + i - c)" for c :: nat
  by (auto simp: mod_if)

end
