(* ===== verification/Net_Buffer.thy ===== *)
theory Net_Buffer
  imports Sponge_Prelude
begin

text \<open>
  \<^verbatim>\<open>libsponge/util/buffer.hh\<close> and \<^verbatim>\<open>.cc\<close>: \<open>Buffer\<close>, a shared read-only string that can discard
  bytes from its front; \<open>BufferList\<close>, a string in several such pieces; and \<open>BufferViewList\<close>, a
  list of views for the scatter/gather system calls.

  The storage behind the \<open>shared_ptr\<close> is never written after construction, so a copy of a
  \<open>Buffer\<close> is its value. Each class is shown to implement a plain byte string: \<open>buf_str\<close>,
  \<open>concatenate\<close> and \<open>bvl_contents\<close> are the abstractions, and the three \<open>remove_prefix\<close> functions
  are \<open>drop\<close> under them (locale \<open>byte_sequence\<close>).
\<close>

section \<open>Buffer\<close>

record buffer =
  buf_storage :: "bytes option"
  buf_starting_offset :: size_t

definition Buffer_default :: buffer where
  "Buffer_default = \<lparr>buf_storage = None, buf_starting_offset = 0\<rparr>"

definition Buffer :: "bytes \<Rightarrow> buffer" where
  "Buffer str = \<lparr>buf_storage = Some str, buf_starting_offset = 0\<rparr>"

definition buf_str :: "buffer \<Rightarrow> bytes" where
  "buf_str b = (case buf_storage b of None \<Rightarrow> [] | Some s \<Rightarrow> drop (buf_starting_offset b) s)"

definition buf_at :: "buffer \<Rightarrow> size_t \<Rightarrow> u8 res" where
  "buf_at b n = (if n < length (buf_str b) then Inr (buf_str b ! n)
                 else Inl (OutOfRange ''basic_string_view::at''))"

definition buf_size :: "buffer \<Rightarrow> size_t" where
  "buf_size b = length (buf_str b)"

definition buf_copy :: "buffer \<Rightarrow> bytes" where
  "buf_copy b = buf_str b"

text \<open>The guard keeps the new offset within the storage, so the sum does not wrap.\<close>

definition buf_remove_prefix :: "buffer \<Rightarrow> size_t \<Rightarrow> buffer res" where
  "buf_remove_prefix b n =
     (if n > length (buf_str b) then Inl (OutOfRange ''Buffer::remove_prefix'')
      else let b1 = b\<lparr>buf_starting_offset := buf_starting_offset b + n\<rparr>
           in case buf_storage b1 of
                None \<Rightarrow> Inr b1
              | Some s \<Rightarrow> Inr (if buf_starting_offset b1 = length s then b1\<lparr>buf_storage := None\<rparr> else b1))"

definition buf_ok :: "buffer \<Rightarrow> bool" where
  "buf_ok b \<longleftrightarrow> (\<forall>s. buf_storage b = Some s \<longrightarrow> buf_starting_offset b \<le> length s)"

lemma buf_str_Buffer [simp]: "buf_str (Buffer s) = s" "buf_str Buffer_default = []"
  by (simp_all add: buf_str_def Buffer_def Buffer_default_def)

lemma buf_ok_Buffer [simp]: "buf_ok (Buffer s)" "buf_ok Buffer_default"
  by (simp_all add: buf_ok_def Buffer_def Buffer_default_def)

lemma buf_size_str [simp]: "buf_size b = length (buf_str b)"
  by (simp add: buf_size_def)

lemma buf_at_in [simp]: "n < length (buf_str b) \<Longrightarrow> buf_at b n = Inr (buf_str b ! n)"
  by (simp add: buf_at_def)

lemma buf_remove_prefix_returns [returns_intro]:
  assumes "buf_ok b" "n \<le> length (buf_str b)"
  shows "returns (buf_remove_prefix b n) (\<lambda>b'. buf_ok b' \<and> buf_str b' = drop n (buf_str b))"
  using assms by (cases "buf_storage b")
    (auto simp: buf_remove_prefix_def buf_ok_def buf_str_def Let_def add.commute)

lemma buf_remove_prefix_fails: "length (buf_str b) < n \<Longrightarrow>
    buf_remove_prefix b n = Inl (OutOfRange ''Buffer::remove_prefix'')"
  by (simp add: buf_remove_prefix_def)

section \<open>BufferList\<close>

type_synonym buffer_list = "buffer list"

definition BufferList_of_Buffer :: "buffer \<Rightarrow> buffer_list" where
  "BufferList_of_Buffer b = [b]"

definition BufferList_append :: "buffer_list \<Rightarrow> buffer_list \<Rightarrow> buffer_list" where
  "BufferList_append bl other = foldl (\<lambda>acc buf. acc @ [buf]) bl other"

definition BufferList_of_string :: "bytes \<Rightarrow> buffer_list" where
  "BufferList_of_string str = BufferList_append [] (BufferList_of_Buffer (Buffer str))"

definition BufferList_to_Buffer :: "buffer_list \<Rightarrow> buffer res" where
  "BufferList_to_Buffer bl =
     (case bl of
        [] \<Rightarrow> Inr Buffer_default
      | [b] \<Rightarrow> Inr b
      | _ \<Rightarrow> Inl (RuntimeError ''BufferList: please use concatenate() to combine a multi-Buffer BufferList into one Buffer''))"

definition concatenate :: "buffer_list \<Rightarrow> bytes" where
  "concatenate bl = foldl (\<lambda>ret buf. ret @ buf_str buf) [] bl"

definition BufferList_size :: "buffer_list \<Rightarrow> size_t" where
  "BufferList_size bl = foldl (\<lambda>ret buf. u64_add ret (buf_size buf)) 0 bl"

text \<open>Each turn of the loop either ends it or removes a piece, so it ends.\<close>

fun BufferList_remove_prefix :: "buffer_list \<Rightarrow> size_t \<Rightarrow> buffer_list res" where
  "BufferList_remove_prefix [] n =
     (if n > 0 then Inl (OutOfRange ''BufferList::remove_prefix'') else Inr [])"
| "BufferList_remove_prefix (b # bl) n =
     (if n > 0 then
        if n < length (buf_str b) then rbind (buf_remove_prefix b n) (\<lambda>b'. Inr (b' # bl))
        else BufferList_remove_prefix bl (n - length (buf_str b))
      else Inr (b # bl))"

section \<open>BufferViewList\<close>

type_synonym buffer_view_list = "bytes list"

definition BufferViewList_of_view :: "bytes \<Rightarrow> buffer_view_list" where
  "BufferViewList_of_view str = [str]"

definition BufferViewList_of_BufferList :: "buffer_list \<Rightarrow> buffer_view_list" where
  "BufferViewList_of_BufferList buffers = foldl (\<lambda>views x. views @ [buf_str x]) [] buffers"

fun BufferViewList_remove_prefix :: "buffer_view_list \<Rightarrow> size_t \<Rightarrow> buffer_view_list res" where
  "BufferViewList_remove_prefix [] n =
     (if n > 0 then Inl (OutOfRange ''BufferListView::remove_prefix'') else Inr [])"
| "BufferViewList_remove_prefix (v # vs) n =
     (if n > 0 then
        if n < length v then Inr (drop n v # vs)
        else BufferViewList_remove_prefix vs (n - length v)
      else Inr (v # vs))"

definition BufferViewList_size :: "buffer_view_list \<Rightarrow> size_t" where
  "BufferViewList_size views = foldl (\<lambda>ret buf. u64_add ret (length buf)) 0 views"

text \<open>An \<open>iovec\<close> is the start of a view and its length: the bytes the system call will read.\<close>

record iovec =
  iov_base :: bytes
  iov_len :: size_t

definition as_iovecs :: "buffer_view_list \<Rightarrow> iovec list" where
  "as_iovecs views = foldl (\<lambda>ret x. ret @ [\<lparr>iov_base = x, iov_len = length x\<rparr>]) [] views"

section \<open>Byte sequences\<close>

lemma foldl_snoc_map: "foldl (\<lambda>acc x. acc @ [f x]) acc xs = acc @ map f xs"
  by (induction xs arbitrary: acc) simp_all

lemma foldl_append_concat: "foldl (\<lambda>acc x. acc @ f x) acc xs = acc @ concat (map f xs)"
  by (induction xs arbitrary: acc) simp_all

lemma foldl_u64_sum: "acc + sum_list (map f xs) < U64 \<Longrightarrow>
    foldl (\<lambda>ret x. u64_add ret (f x)) acc xs = acc + sum_list (map f xs)"
  by (induction xs arbitrary: acc) simp_all

lemma concatenate_concat: "concatenate bl = concat (map buf_str bl)"
  by (simp add: concatenate_def foldl_append_concat)

lemma concatenate_simps [simp]:
  "concatenate [] = []" "concatenate (b # bl) = buf_str b @ concatenate bl"
  "concatenate (bl @ bl') = concatenate bl @ concatenate bl'"
  by (simp_all add: concatenate_concat)

lemma BufferList_append_eq [simp]: "BufferList_append bl other = bl @ other"
  using foldl_snoc_map [of id bl other] by (simp add: BufferList_append_def)

lemma BufferList_of_string_eq [simp]: "BufferList_of_string s = [Buffer s]"
  by (simp add: BufferList_of_string_def BufferList_of_Buffer_def)

lemma length_concatenate: "length (concatenate bl) = sum_list (map buf_size bl)"
  by (induction bl) simp_all

lemma BufferList_size_eq: "length (concatenate bl) < U64 \<Longrightarrow> BufferList_size bl = length (concatenate bl)"
  unfolding BufferList_size_def length_concatenate by (subst foldl_u64_sum) simp_all

lemma BufferViewList_size_eq: "length (concat vs) < U64 \<Longrightarrow> BufferViewList_size vs = length (concat vs)"
  unfolding BufferViewList_size_def length_concat by (subst foldl_u64_sum) simp_all

definition bl_ok :: "buffer_list \<Rightarrow> bool" where
  "bl_ok bl \<longleftrightarrow> list_all buf_ok bl"

text \<open>A sequence of bytes from whose front bytes can be discarded.\<close>

locale byte_sequence =
  fixes ok :: "'s \<Rightarrow> bool" and contents :: "'s \<Rightarrow> bytes" and discard :: "'s \<Rightarrow> size_t \<Rightarrow> 's res"
  assumes discard_law: "ok s \<Longrightarrow> n \<le> length (contents s) \<Longrightarrow>
      returns (discard s n) (\<lambda>s'. ok s' \<and> contents s' = drop n (contents s))"
    and discard_error: "ok s \<Longrightarrow> length (contents s) < n \<Longrightarrow> \<exists>what. discard s n = Inl (OutOfRange what)"
begin

lemma discard_iff: "ok s \<Longrightarrow> (\<exists>s'. discard s n = Inr s') \<longleftrightarrow> n \<le> length (contents s)"
  using discard_law [of s n] discard_error [of s n] by (cases "n \<le> length (contents s)") (auto simp: returns_iff)

lemma discard_twice:
  assumes "ok s" "m + n \<le> length (contents s)"
  shows "returns (rbind (discard s m) (\<lambda>s1. discard s1 n))
    (\<lambda>s'. ok s' \<and> contents s' = drop (m + n) (contents s))"
proof (rule returns_bind [OF discard_law])
  fix s1 assume s1: "ok s1 \<and> contents s1 = drop m (contents s)"
  then have "n \<le> length (contents s1)" using assms(2) by simp
  with discard_law [of s1 n] s1 show "returns (discard s1 n) (\<lambda>s'. ok s' \<and> contents s' = drop (m + n) (contents s))"
    by (simp add: add.commute)
qed (use assms in auto)

end

interpretation buf: byte_sequence buf_ok buf_str buf_remove_prefix
  by unfold_locales (auto intro: buf_remove_prefix_returns buf_remove_prefix_fails)

interpretation bl: byte_sequence bl_ok concatenate BufferList_remove_prefix
proof (unfold_locales, goal_cases)
  case (1 bl n)
  then show ?case
  proof (induction bl n rule: BufferList_remove_prefix.induct)
    case (2 b bl n)
    show ?case
    proof (cases "0 < n \<and> n < length (buf_str b)")
      case True
      then show ?thesis
        using 2(2) buf_remove_prefix_returns [of b n]
        by (auto simp: bl_ok_def intro!: returns_bind [where P = "\<lambda>b'. buf_ok b' \<and> buf_str b' = drop n (buf_str b)"])
    next
      case False
      then show ?thesis using 2 by (auto simp: bl_ok_def)
    qed
  qed (simp add: bl_ok_def)
next
  case (2 bl n)
  then show ?case
    by (induction bl n rule: BufferList_remove_prefix.induct) (auto simp: bl_ok_def)
qed

interpretation bvl: byte_sequence "\<lambda>_. True" concat BufferViewList_remove_prefix
proof (unfold_locales, goal_cases)
  case (1 vs n)
  then show ?case by (induction vs n rule: BufferViewList_remove_prefix.induct) auto
next
  case (2 vs n)
  then show ?case by (induction vs n rule: BufferViewList_remove_prefix.induct) auto
qed

section \<open>Properties\<close>

text \<open>A \<open>BufferList\<close> is the concatenation of its pieces: discarding \<open>n\<close> bytes drops the first
  \<open>n\<close> bytes of the string, across any number of pieces and also inside one, and throws
  \<open>std::out_of_range\<close> exactly when fewer than \<open>n\<close> bytes are there.\<close>

theorem buffer_list_remove_prefix_correct:
  assumes "bl_ok bl"
  shows "if n \<le> length (concatenate bl)
    then returns (BufferList_remove_prefix bl n) (\<lambda>bl'. bl_ok bl' \<and> concatenate bl' = drop n (concatenate bl))
    else \<exists>what. BufferList_remove_prefix bl n = Inl (OutOfRange what)"
  using bl.discard_law [OF assms] bl.discard_error [OF assms] by simp

theorem buffer_list_remove_prefix_correct_witness:
  "returns (BufferList_remove_prefix [Buffer [1, 2], Buffer [], Buffer [3, 4, 5]] 3)
     (\<lambda>bl'. concatenate bl' = [4, 5])"
proof -
  have "bl_ok [Buffer [1, 2], Buffer [], Buffer [3, 4, 5]]" by (simp add: bl_ok_def)
  from buffer_list_remove_prefix_correct [OF this, of 3] show ?thesis
    by (auto simp: numeral_3_eq_3 elim!: returns_mono)
qed

text \<open>The vectors handed to \<open>writev\<close> and \<open>sendmsg\<close> cover exactly the bytes of the list, in order,
  with the right lengths, also after a partial write has discarded a prefix.\<close>

theorem as_iovecs_after_discard:
  assumes "n \<le> length (concatenate bl)"
  shows "returns (BufferViewList_remove_prefix (BufferViewList_of_BufferList bl) n) (\<lambda>views.
    concat (map iov_base (as_iovecs views)) = drop n (concatenate bl) \<and>
    (\<forall>v \<in> set (as_iovecs views). iov_len v = length (iov_base v)))"
proof -
  have "concat (BufferViewList_of_BufferList bl) = concatenate bl"
    by (simp add: BufferViewList_of_BufferList_def foldl_snoc_map concatenate_concat)
  with bvl.discard_law [of n "BufferViewList_of_BufferList bl"] assms show ?thesis
    by (auto simp: as_iovecs_def foldl_snoc_map comp_def elim!: returns_mono)
qed

theorem as_iovecs_after_discard_witness:
  "returns (BufferViewList_remove_prefix (BufferViewList_of_BufferList [Buffer [1, 2], Buffer [3, 4]]) 3) (\<lambda>views.
    concat (map iov_base (as_iovecs views)) = drop 3 [1, 2, 3, 4] \<and>
    (\<forall>v \<in> set (as_iovecs views). iov_len v = length (iov_base v)))"
  using as_iovecs_after_discard [of 3 "[Buffer [1, 2], Buffer [3, 4]]"] by simp

end
