(* ===== verification/Net_Parser.thy ===== *)
theory Net_Parser
  imports Net_Buffer
begin

unbundle bit_operations_syntax

text \<open>
  \<^verbatim>\<open>libsponge/util/parser.hh\<close> and \<^verbatim>\<open>.cc\<close> (\<open>ParseResult\<close>, \<open>NetParser\<close>, \<open>NetUnparser\<close>) and the class
  \<open>InternetChecksum\<close> of \<^verbatim>\<open>libsponge/util/util.cc\<close>: reading and writing integers in network byte
  order, and the ones' complement checksum of IP and TCP.

  The templates \<open>_parse_int<T>\<close> and \<open>_unparse_int<T>\<close> are polymorphic in the word length; the number of
  bytes \<open>sizeof(T)\<close> is their first argument. \<open>be8\<close>, \<open>be16\<close>, \<open>be32\<close> are the big-endian encodings, and
  the rules \<open>parse_*_step\<close> advance a proof about a parser over one such field.
\<close>

section \<open>ParseResult\<close>

datatype ParseResult = NoError | BadChecksum | PacketTooShort | WrongIPVersion | HeaderTooShort
  | TruncatedPacket | Unsupported

fun parse_result_index :: "ParseResult \<Rightarrow> nat" where
  "parse_result_index NoError = 0"
| "parse_result_index BadChecksum = 1"
| "parse_result_index PacketTooShort = 2"
| "parse_result_index WrongIPVersion = 3"
| "parse_result_index HeaderTooShort = 4"
| "parse_result_index TruncatedPacket = 5"
| "parse_result_index Unsupported = 6"

definition parse_result_names :: "string list" where
  "parse_result_names = [''NoError'', ''BadChecksum'', ''PacketTooShort'', ''WrongIPVersion'',
     ''HeaderTooShort'', ''TruncatedPacket'']"

definition as_string :: "ParseResult \<Rightarrow> string res" where
  "as_string r = (if parse_result_index r < length parse_result_names
                  then Inr (parse_result_names ! parse_result_index r) else Inl OutOfBounds)"

section \<open>NetParser\<close>

record net_parser =
  np_buffer :: buffer
  np_error :: ParseResult

definition NetParser :: "buffer \<Rightarrow> net_parser" where
  "NetParser b = \<lparr>np_buffer = b, np_error = NoError\<rparr>"

definition np_set_error :: "net_parser \<Rightarrow> ParseResult \<Rightarrow> net_parser" where
  "np_set_error p res = p\<lparr>np_error := res\<rparr>"

definition np_failed :: "net_parser \<Rightarrow> bool" where
  "np_failed p \<longleftrightarrow> np_error p \<noteq> NoError"

definition check_size :: "net_parser \<Rightarrow> size_t \<Rightarrow> net_parser" where
  "check_size p n = (if n > buf_size (np_buffer p) then np_set_error p PacketTooShort else p)"

definition parse_int :: "size_t \<Rightarrow> net_parser \<Rightarrow> (net_parser \<times> 'a::len word) res" where
  "parse_int len p =
     (let p1 = check_size p len
      in if np_failed p1 then Inr (p1, 0)
         else rbind (rfold (\<lambda>ret i. rbind (buf_at (np_buffer p1) i) (\<lambda>c. Inr (push_bit 8 ret + ucast c))) 0 [0..<len])
                (\<lambda>ret. rbind (buf_remove_prefix (np_buffer p1) len)
                   (\<lambda>b. Inr (p1\<lparr>np_buffer := b\<rparr>, ret))))"

definition np_remove_prefix :: "net_parser \<Rightarrow> size_t \<Rightarrow> net_parser res" where
  "np_remove_prefix p n =
     (let p1 = check_size p n
      in if np_failed p1 then Inr p1
         else rbind (buf_remove_prefix (np_buffer p1) n) (\<lambda>b. Inr (p1\<lparr>np_buffer := b\<rparr>)))"

definition parse_u32 :: "net_parser \<Rightarrow> (net_parser \<times> u32) res" where
  "parse_u32 = parse_int 4"

definition parse_u16 :: "net_parser \<Rightarrow> (net_parser \<times> u16) res" where
  "parse_u16 = parse_int 2"

definition parse_u8 :: "net_parser \<Rightarrow> (net_parser \<times> u8) res" where
  "parse_u8 = parse_int 1"

section \<open>NetUnparser\<close>

definition unparse_int :: "size_t \<Rightarrow> bytes \<Rightarrow> 'a::len word \<Rightarrow> bytes" where
  "unparse_int len s val =
     foldl (\<lambda>s i. s @ [ucast (drop_bit ((len - i - 1) * 8) val AND 0xff)]) s [0..<len]"

definition unparse_u32 :: "bytes \<Rightarrow> u32 \<Rightarrow> bytes" where
  "unparse_u32 = unparse_int 4"

definition unparse_u16 :: "bytes \<Rightarrow> u16 \<Rightarrow> bytes" where
  "unparse_u16 = unparse_int 2"

definition unparse_u8 :: "bytes \<Rightarrow> u8 \<Rightarrow> bytes" where
  "unparse_u8 = unparse_int 1"

section \<open>Big-endian encodings\<close>

definition be8 :: "u8 \<Rightarrow> bytes" where
  "be8 v = [v]"

definition be16 :: "u16 \<Rightarrow> bytes" where
  "be16 v = [ucast (drop_bit 8 v), ucast v]"

definition be32 :: "u32 \<Rightarrow> bytes" where
  "be32 v = [ucast (drop_bit 24 v), ucast (drop_bit 16 v), ucast (drop_bit 8 v), ucast v]"

lemma length_be [simp]: "length (be8 a) = 1" "length (be16 b) = 2" "length (be32 c) = 4"
  by (simp_all add: be8_def be16_def be32_def)

lemma and_ff: "w AND 0xff = take_bit 8 w" for w :: "'a::len word"
  by (simp add: take_bit_eq_mask mask_eq_exp_minus_1)

lemma ucast_take_bit: "ucast (take_bit 8 w) = (ucast w :: 8 word)" for w :: "'a::len word"
  by (rule bit_word_eqI) (auto simp: bit_simps dest: bit_imp_le_length)

lemma unparse_be [simp]:
  "unparse_u8 s a = s @ be8 a" "unparse_u16 s b = s @ be16 b" "unparse_u32 s c = s @ be32 c"
  by (simp_all add: unparse_u8_def unparse_u16_def unparse_u32_def unparse_int_def and_ff ucast_take_bit
      be8_def be16_def be32_def upt_rec take_bit_word_eq_self)

lemma byte_join: "push_bit 8 (drop_bit 8 w) + ucast (ucast w :: 8 word) = w" for w :: "'a::len word"
  by (simp add: unsigned_ucast_eq bits_ident)

lemma be_join:
  "push_bit 8 0 + ucast (ucast a :: 8 word) = (a :: u8)"
  "push_bit 8 (push_bit 8 0 + ucast (ucast (drop_bit 8 b) :: 8 word)) + ucast (ucast b :: 8 word) = (b :: u16)"
  "push_bit 8 (push_bit 8 (push_bit 8 (push_bit 8 0 + ucast (ucast (drop_bit 24 c) :: 8 word)) +
     ucast (ucast (drop_bit 16 c) :: 8 word)) + ucast (ucast (drop_bit 8 c) :: 8 word)) +
     ucast (ucast c :: 8 word) = (c :: u32)"
proof -
  show "push_bit 8 0 + ucast (ucast a :: 8 word) = a" by simp
  have "drop_bit 8 (drop_bit 8 b) = 0" by (rule bit_word_eqI) (simp add: bit_simps)
  then show "push_bit 8 (push_bit 8 0 + ucast (ucast (drop_bit 8 b) :: 8 word)) + ucast (ucast b :: 8 word) = b"
    using byte_join [of "drop_bit 8 b"] byte_join [of b] by simp
  have "drop_bit 8 (drop_bit 24 c) = 0" by (rule bit_word_eqI) (simp add: bit_simps)
  then show "push_bit 8 (push_bit 8 (push_bit 8 (push_bit 8 0 + ucast (ucast (drop_bit 24 c) :: 8 word)) +
     ucast (ucast (drop_bit 16 c) :: 8 word)) + ucast (ucast (drop_bit 8 c) :: 8 word)) + ucast (ucast c :: 8 word) = c"
    using byte_join [of "drop_bit 24 c"] byte_join [of "drop_bit 16 c"] byte_join [of "drop_bit 8 c"] byte_join [of c]
    by (simp add: drop_bit_drop_bit)
qed

lemma be16_inj [simp]: "be16 x = be16 y \<longleftrightarrow> x = y"
proof
  assume "be16 x = be16 y"
  then have e: "ucast (drop_bit 8 x) = (ucast (drop_bit 8 y) :: 8 word)" "ucast x = (ucast y :: 8 word)"
    by (simp_all add: be16_def)
  show "x = y" using be_join(2) [of x] be_join(2) [of y] unfolding e by (rule trans [OF sym])
qed simp

text \<open>Every string of that many bytes is the encoding of a number.\<close>

lemma byte_high_bits: "\<not> bit (a :: u8) (8 + n)" "\<not> bit a (16 + n)" "\<not> bit a (24 + n)"
  by (auto dest: bit_imp_le_length)

lemma be16_ex: "\<exists>v. [a, b] = be16 v"
proof -
  let ?v = "push_bit 8 (ucast a) OR ucast b :: u16"
  have "[a, b] = be16 ?v" unfolding be16_def
    by (auto intro!: bit_word_eqI simp: bit_simps byte_high_bits dest: bit_imp_le_length)
  then show ?thesis ..
qed

lemma be32_ex: "\<exists>v. [a, b, c, d] = be32 v"
proof -
  let ?v = "push_bit 24 (ucast a) OR push_bit 16 (ucast b) OR push_bit 8 (ucast c) OR ucast d :: u32"
  have "[a, b, c, d] = be32 ?v" unfolding be32_def
    by (auto intro!: bit_word_eqI simp: bit_simps byte_high_bits dest: bit_imp_le_length)
  then show ?thesis ..
qed

lemma be_cases:
  "1 \<le> length s \<Longrightarrow> \<exists>v. s = be8 v @ drop 1 s"
  "2 \<le> length s \<Longrightarrow> \<exists>v. s = be16 v @ drop 2 s"
  "4 \<le> length s \<Longrightarrow> \<exists>v. s = be32 v @ drop 4 s"
proof -
  show "\<exists>v. s = be8 v @ drop 1 s" if "1 \<le> length s"
    using that by (cases s) (auto simp: be8_def)
  show "\<exists>v. s = be16 v @ drop 2 s" if "2 \<le> length s"
  proof -
    from that obtain a b t where "s = a # b # t"
      by (auto simp: numeral_eq_Suc Suc_le_length_iff)
    with be16_ex [of a b] show ?thesis by auto
  qed
  show "\<exists>v. s = be32 v @ drop 4 s" if "4 \<le> length s"
  proof -
    from that obtain a b c d t where "s = a # b # c # d # t"
      by (auto simp: numeral_eq_Suc Suc_le_length_iff)
    with be32_ex [of a b c d] show ?thesis by auto
  qed
qed

lemma be_at:
  "k + 1 \<le> length s \<Longrightarrow> \<exists>v. drop k s = be8 v @ drop (k + 1) s"
  "k + 2 \<le> length s \<Longrightarrow> \<exists>v. drop k s = be16 v @ drop (k + 2) s"
  "k + 4 \<le> length s \<Longrightarrow> \<exists>v. drop k s = be32 v @ drop (k + 4) s"
  using be_cases [of "drop k s"] by (simp_all add: le_diff_conv2 add.commute)

section \<open>Parsing one field\<close>

text \<open>\<open>np_at p s\<close>: no error so far, and \<open>s\<close> is what is left to parse.\<close>

definition np_at :: "net_parser \<Rightarrow> bytes \<Rightarrow> bool" where
  "np_at p s \<longleftrightarrow> np_error p = NoError \<and> buf_ok (np_buffer p) \<and> buf_str (np_buffer p) = s"

lemma np_at_NetParser [simp]: "np_at (NetParser (Buffer s)) s"
  by (simp add: np_at_def NetParser_def)

lemma np_at_buffer: "buf_ok b \<Longrightarrow> np_at (NetParser b) (buf_str b)"
  by (simp add: np_at_def NetParser_def)

lemma np_atD: "np_at p s \<Longrightarrow> \<not> np_failed p" "np_at p s \<Longrightarrow> buf_str (np_buffer p) = s"
  "np_at p s \<Longrightarrow> buf_ok (np_buffer p)"
  by (simp_all add: np_at_def np_failed_def)

lemma parse_int_returns:
  assumes "np_at p s" "n \<le> length s"
  shows "returns (parse_int n p) (\<lambda>(p', v). np_at p' (drop n s) \<and>
    v = foldl (\<lambda>ret c. push_bit 8 ret + ucast c) (0 :: 'a::len word) (take n s))"
proof -
  have cs: "check_size p n = p" "\<not> np_failed p"
    using assms by (simp_all add: check_size_def np_at_def np_failed_def)
  let ?f = "\<lambda>ret i. rbind (buf_at (np_buffer p) i) (\<lambda>c. Inr (push_bit 8 ret + ucast c)) :: 'a word res"
  have loop: "rfold ?f ret [k..<n] = Inr (foldl (\<lambda>ret c. push_bit 8 ret + ucast c) ret (take (n - k) (drop k s)))"
    if "k \<le> n" for k ret
    using that
  proof (induction "n - k" arbitrary: k ret)
    case (Suc m)
    then have k: "k < n" by simp
    then have "[k..<n] = k # [Suc k..<n]" "take (n - k) (drop k s) = s ! k # take (n - Suc k) (drop (Suc k) s)"
      using assms(2) by (simp_all add: upt_conv_Cons take_Cons' Cons_nth_drop_Suc [symmetric])
    then show ?case using Suc.hyps(1) [of "Suc k"] Suc.hyps(2) k assms by (simp add: np_atD(2) [OF assms(1)])
  qed simp
  have "returns (buf_remove_prefix (np_buffer p) n) (\<lambda>b. buf_ok b \<and> buf_str b = drop n s)"
    using buf_remove_prefix_returns [of "np_buffer p" n] assms by (simp add: np_at_def)
  then show ?thesis
    using loop [of 0 0] assms(1) cs by (auto simp: parse_int_def returns_iff np_at_def)
qed

lemma parse_int_short:
  assumes "np_at p s" "length s < n"
  shows "parse_int n p = Inr (np_set_error p PacketTooShort, 0)"
  using assms by (simp add: parse_int_def check_size_def np_at_def np_set_error_def np_failed_def)

lemma parse_int_failed:
  assumes "np_failed p" "np_error p = PacketTooShort"
  shows "parse_int n p = Inr (p, 0)"
  using assms by (cases p) (simp add: parse_int_def check_size_def np_set_error_def np_failed_def)

lemma parse_step_aux:
  assumes "np_at p (e @ rest)" "length e = n" "foldl (\<lambda>ret c. push_bit 8 ret + ucast c) 0 e = v"
    "\<And>p'. np_at p' rest \<Longrightarrow> returns (f (p', v)) Q"
  shows "returns (rbind (parse_int n p) f) Q"
  by (rule returns_bind [OF parse_int_returns [OF assms(1)]]) (use assms in auto)

lemma parse_u8_step: "np_at p (be8 v @ rest) \<Longrightarrow> (\<And>p'. np_at p' rest \<Longrightarrow> returns (f (p', v)) Q) \<Longrightarrow>
    returns (rbind (parse_u8 p) f) Q"
  unfolding parse_u8_def by (erule parse_step_aux) (simp_all add: be8_def)

lemma parse_u16_step: "np_at p (be16 v @ rest) \<Longrightarrow> (\<And>p'. np_at p' rest \<Longrightarrow> returns (f (p', v)) Q) \<Longrightarrow>
    returns (rbind (parse_u16 p) f) Q"
  unfolding parse_u16_def by (erule parse_step_aux) (use be_join(2) [of v] in \<open>simp_all add: be16_def\<close>)

lemma parse_u32_step: "np_at p (be32 v @ rest) \<Longrightarrow> (\<And>p'. np_at p' rest \<Longrightarrow> returns (f (p', v)) Q) \<Longrightarrow>
    returns (rbind (parse_u32 p) f) Q"
  unfolding parse_u32_def by (erule parse_step_aux) (use be_join(3) [of v] in \<open>simp_all add: be32_def\<close>)

lemmas parse_steps = parse_u8_step parse_u16_step parse_u32_step

lemma np_remove_prefix_returns:
  assumes "np_at p s" "n \<le> length s"
  shows "returns (np_remove_prefix p n) (\<lambda>p'. np_at p' (drop n s))"
proof -
  have "check_size p n = p" "\<not> np_failed p"
    using assms by (simp_all add: check_size_def np_at_def np_failed_def)
  moreover have "returns (buf_remove_prefix (np_buffer p) n) (\<lambda>b. buf_ok b \<and> buf_str b = drop n s)"
    using buf_remove_prefix_returns [of "np_buffer p" n] assms by (simp add: np_at_def)
  ultimately show ?thesis using assms(1) by (auto simp: np_remove_prefix_def returns_iff np_at_def)
qed

lemma np_remove_prefix_short:
  assumes "np_at p s" "length s < n"
  shows "np_remove_prefix p n = Inr (np_set_error p PacketTooShort)"
  using assms by (simp add: np_remove_prefix_def check_size_def np_at_def np_set_error_def np_failed_def)

text \<open>\<open>np_short n p\<close>: the parser has run out of bytes, or will before another \<open>n\<close> are read.\<close>

definition np_short :: "nat \<Rightarrow> net_parser \<Rightarrow> bool" where
  "np_short n p \<longleftrightarrow> np_error p = PacketTooShort \<or> (\<exists>s. np_at p s \<and> length s < n)"

lemma np_short_0 [simp]: "np_short 0 p \<longleftrightarrow> np_error p = PacketTooShort"
  by (simp add: np_short_def)

lemma np_shortI: "np_at p s \<Longrightarrow> length s < n \<Longrightarrow> np_short n p"
  by (auto simp: np_short_def)

lemma parse_int_short_step:
  assumes p: "np_short n p" and k: "k \<le> n" and f: "\<And>p' v. np_short (n - k) p' \<Longrightarrow> returns (f (p', v)) Q"
  shows "returns (rbind (parse_int k p) f) Q"
proof (cases "np_error p = PacketTooShort")
  case True
  then show ?thesis using f [of p 0] by (simp add: parse_int_failed np_failed_def np_short_def)
next
  case False
  then obtain s where s: "np_at p s" "length s < n" using p by (auto simp: np_short_def)
  show ?thesis
  proof (cases "k \<le> length s")
    case True
    show ?thesis
      by (rule returns_bind [OF parse_int_returns [OF s(1) True]])
        (use s True in \<open>auto intro!: f np_shortI\<close>)
  next
    case False
    then show ?thesis
      using f [of "np_set_error p PacketTooShort" 0]
      by (simp add: parse_int_short [OF s(1)] np_short_def np_set_error_def)
  qed
qed

lemma parse_u8_short_step: "np_short n p \<Longrightarrow> 1 \<le> n \<Longrightarrow>
    (\<And>p' v. np_short (n - 1) p' \<Longrightarrow> returns (f (p', v)) Q) \<Longrightarrow> returns (rbind (parse_u8 p) f) Q"
  unfolding parse_u8_def by (rule parse_int_short_step)

lemma parse_u16_short_step: "np_short n p \<Longrightarrow> 2 \<le> n \<Longrightarrow>
    (\<And>p' v. np_short (n - 2) p' \<Longrightarrow> returns (f (p', v)) Q) \<Longrightarrow> returns (rbind (parse_u16 p) f) Q"
  unfolding parse_u16_def by (rule parse_int_short_step)

lemma parse_u32_short_step: "np_short n p \<Longrightarrow> 4 \<le> n \<Longrightarrow>
    (\<And>p' v. np_short (n - 4) p' \<Longrightarrow> returns (f (p', v)) Q) \<Longrightarrow> returns (rbind (parse_u32 p) f) Q"
  unfolding parse_u32_def by (rule parse_int_short_step)

lemmas parse_short_steps = parse_u8_short_step parse_u16_short_step parse_u32_short_step

lemma np_remove_prefix_failed: "np_error p = PacketTooShort \<Longrightarrow> np_remove_prefix p n = Inr p"
  by (cases p) (simp add: np_remove_prefix_def check_size_def np_set_error_def np_failed_def)

section \<open>Header codecs\<close>

text \<open>The contract between a header's \<open>serialize\<close> and \<open>parse\<close>: what was written for a header that \<open>fits\<close> the
  bytes after it is parsed back, whatever the header object held before, and the parser stops
  right after it.\<close>

locale header_codec =
  fixes fits :: "'h \<Rightarrow> bytes \<Rightarrow> bool" and ser :: "'h \<Rightarrow> bytes res"
    and prs :: "'h \<Rightarrow> net_parser \<Rightarrow> ('h \<times> net_parser \<times> ParseResult) res"
  assumes ser_law: "fits h rest \<Longrightarrow> \<exists>s. ser h = Inr s"
    and prs_law: "fits h rest \<Longrightarrow> ser h = Inr s \<Longrightarrow> np_at p (s @ rest) \<Longrightarrow>
      returns (prs h0 p) (\<lambda>(h', p', r). h' = h \<and> r = NoError \<and> np_at p' rest)"
begin

lemma roundtrip: "fits h rest \<Longrightarrow>
    returns (rbind (ser h) (\<lambda>s. prs h0 (NetParser (Buffer (s @ rest)))))
      (\<lambda>(h', p', r). h' = h \<and> r = NoError \<and> np_at p' rest)"
  using ser_law [of h rest] prs_law [of h rest _ "NetParser (Buffer (_ @ rest))" h0] by auto

text \<open>No encoding is a prefix of another: a header is determined by the bytes that start with it.\<close>

lemma prefix_free:
  assumes "fits h rest" "fits k rest'" "ser h = Inr s" "ser k = Inr t" "s @ rest = t @ rest'"
  shows "h = k \<and> rest = rest'"
proof -
  let ?p = "NetParser (Buffer (s @ rest))"
  have "returns (prs h ?p) (\<lambda>(h', p', r). h' = h \<and> r = NoError \<and> np_at p' rest)"
    by (rule prs_law [OF assms(1,3)]) simp
  moreover have "returns (prs h ?p) (\<lambda>(h', p', r). h' = k \<and> r = NoError \<and> np_at p' rest')"
    by (rule prs_law [OF assms(2,4)]) (simp add: assms(5))
  ultimately show ?thesis by (auto simp: returns_iff np_at_def)
qed

end

section \<open>InternetChecksum\<close>

record internet_checksum =
  ck_sum :: u32
  ck_parity :: bool

definition InternetChecksum :: "u32 \<Rightarrow> internet_checksum" where
  "InternetChecksum initial_sum = \<lparr>ck_sum = initial_sum, ck_parity = False\<rparr>"

definition ck_add :: "internet_checksum \<Rightarrow> bytes \<Rightarrow> internet_checksum" where
  "ck_add c data =
     foldl (\<lambda>c x. let val = ucast x :: u16;
                     val = (if \<not> ck_parity c then push_bit 8 val else val)
                 in c\<lparr>ck_sum := ck_sum c + ucast val, ck_parity := \<not> ck_parity c\<rparr>) c data"

lemma ck_fold_unat: "unat (drop_bit 16 ret + (ret AND 0xffff)) = unat ret div 65536 + unat ret mod 65536"
  for ret :: u32
proof -
  have t: "unat (ret AND 0xffff) = unat ret mod 65536"
    using unat_take_bit [of 16 ret] by (simp add: take_bit_eq_mask mask_eq_exp_minus_1)
  have d: "unat (drop_bit 16 ret) = unat ret div 65536"
    using unat_drop_bit [of 16 ret] by simp
  have "unat ret div 65536 < 65536" using unat_lt(3) [of ret] by (simp add: less_mult_imp_div_less)
  then show ?thesis
    using mod_less_divisor [of 65536 "unat ret"] by (simp add: unat_word_ariths d t)
qed

function ck_fold :: "u32 \<Rightarrow> u32" where
  "ck_fold ret = (if ret > 0xffff then ck_fold (drop_bit 16 ret + (ret AND 0xffff)) else ret)"
  by pat_completeness auto

termination
proof (relation "measure unat")
  fix ret :: u32 assume "ret > 0xffff"
  then have "65535 < unat ret" by (simp add: word_less_nat_alt)
  then have "unat ret div 65536 + unat ret mod 65536 < unat ret"
    using div_mult_mod_eq [of "unat ret" 65536] by (cases "unat ret div 65536") auto
  then show "(drop_bit 16 ret + (ret AND 0xffff), ret) \<in> measure unat" by (simp only: ck_fold_unat in_measure)
qed simp

declare ck_fold.simps [simp del]

definition ck_value :: "internet_checksum \<Rightarrow> u16" where
  "ck_value c = ucast (NOT (ck_fold (ck_sum c)))"

text \<open>The sum of the 16-bit words of a string, and its ones' complement reduction to 16 bits.\<close>

fun ck_nat :: "bool \<Rightarrow> bytes \<Rightarrow> nat" where
  "ck_nat parity [] = 0"
| "ck_nat parity (x # xs) = (if parity then unat x else 256 * unat x) + ck_nat (\<not> parity) xs"

definition ones_sum :: "nat \<Rightarrow> nat" where
  "ones_sum n = (if n = 0 then 0 else (n - 1) mod 65535 + 1)"

lemma ck_nat_append: "ck_nat p (xs @ ys) = ck_nat p xs + ck_nat (p \<noteq> odd (length xs)) ys"
proof (induction xs arbitrary: p)
  case (Cons x xs)
  then show ?case by (cases p) (simp_all add: Cons.IH)
qed simp

lemma ck_nat_be16 [simp]: "ck_nat False (be16 v) = unat v"
proof -
  have "unat (ucast (drop_bit 8 v) :: 8 word) = unat v div 256"
    using unat_lt(2) [of v] unat_drop_bit [of 8 v] by (simp add: unat_ucast less_mult_imp_div_less)
  moreover have "unat (ucast v :: 8 word) = unat v mod 256" by (simp add: unat_ucast)
  ultimately show ?thesis by (simp add: be16_def)
qed

lemma ck_nat_le: "ck_nat p s \<le> 32768 * length s + (if p then 0 else 32512)"
proof (induction p s rule: ck_nat.induct)
  case (2 p x xs)
  then show ?case using unat_lt(1) [of x] by (cases p) simp_all
qed simp

lemma ck_add_sum: "unat (ck_sum (ck_add c data)) = (unat (ck_sum c) + ck_nat (ck_parity c) data) mod 4294967296"
proof (induction data arbitrary: c)
  case Nil
  then show ?case using unat_lt(3) [of "ck_sum c"] by (simp add: ck_add_def)
next
  case (Cons x xs)
  define val where "val = (if \<not> ck_parity c then push_bit 8 (ucast x) else ucast x :: u16)"
  have "unat x < 256" by (rule unat_lt)
  then have val: "unat val = (if ck_parity c then unat x else 256 * unat x)"
    by (simp add: val_def push_bit_eq_mult unat_word_ariths unat_ucast)
  let ?c = "c\<lparr>ck_sum := ck_sum c + ucast val, ck_parity := \<not> ck_parity c\<rparr>"
  have "ck_add c (x # xs) = ck_add ?c xs" by (simp add: ck_add_def val_def Let_def)
  moreover have "unat (ck_sum ?c) = (unat (ck_sum c) + unat val) mod 4294967296"
    using unat_lt(2) [of val] by (simp add: unat_word_ariths unsigned_ucast_eq take_bit_eq_mod)
  ultimately show ?case using Cons.IH [of ?c] val by (simp add: mod_simps add.assoc)
qed

lemma ones_sum_step: "65535 < n \<Longrightarrow> ones_sum (n div 65536 + n mod 65536) = ones_sum n"
proof -
  assume n: "65535 < n"
  define q r where "q = n div 65536" and "r = n mod 65536"
  have nqr: "n = 65536 * q + r" by (simp add: q_def r_def)
  have "q > 0" using n by (simp add: q_def div_greater_zero_iff)
  then have "n - 1 = (q + r - 1) + 65535 * q" using nqr by simp
  then have "(n - 1) mod 65535 = (q + r - 1) mod 65535" by simp
  then show ?thesis using \<open>q > 0\<close> n by (simp add: ones_sum_def flip: q_def r_def)
qed

lemma unat_ck_fold: "unat (ck_fold w) = ones_sum (unat w)"
proof (induction w rule: ck_fold.induct)
  case (1 ret)
  show ?case
  proof (cases "ret > 0xffff")
    case True
    then have "65535 < unat ret" by (simp add: word_less_nat_alt)
    note big = this
    have "ck_fold ret = ck_fold (drop_bit 16 ret + (ret AND 0xffff))"
      by (subst ck_fold.simps) (simp only: True if_True)
    then have "unat (ck_fold ret) = ones_sum (unat (drop_bit 16 ret + (ret AND 0xffff)))"
      using 1 [OF True] by (simp only:)
    also have "\<dots> = ones_sum (unat ret)" unfolding ck_fold_unat by (rule ones_sum_step [OF big])
    finally show ?thesis .
  next
    case False
    then have "unat ret \<le> 65535" by (simp add: word_less_nat_alt not_less)
    then show ?thesis using False by (subst ck_fold.simps) (auto simp: ones_sum_def)
  qed
qed

lemma ones_sum_le: "ones_sum n \<le> 65535"
  using mod_less_divisor [of 65535 "n - 1"] by (auto simp: ones_sum_def)

lemma unat_ck_value: "unat (ck_value c) = 65535 - ones_sum (unat (ck_sum c))"
proof -
  have le: "unat (ck_fold (ck_sum c)) \<le> 65535" by (simp add: unat_ck_fold ones_sum_le)
  have "unat (ck_value c) = unat (NOT (ck_fold (ck_sum c))) mod 65536"
    by (simp add: ck_value_def unsigned_ucast_eq take_bit_eq_mod)
  also have "unat (NOT (ck_fold (ck_sum c))) = 4294967295 - unat (ck_fold (ck_sum c))"
    using unat_complement [of "ck_fold (ck_sum c)"] by (simp add: not_eq_complement)
  also have "\<dots> mod 65536 = 65535 - unat (ck_fold (ck_sum c))"
  proof -
    obtain y where y: "65535 = unat (ck_fold (ck_sum c)) + y" using le le_Suc_ex by blast
    then have "4294967295 - unat (ck_fold (ck_sum c)) = y + 65535 * 65536" by linarith
    moreover have "y < 65536" "65535 - unat (ck_fold (ck_sum c)) = y" using y by linarith+
    ultimately show ?thesis by (simp only: mod_mult_self1 mod_less)
  qed
  finally show ?thesis by (simp only: unat_ck_fold)
qed

lemma ck_value_zero_iff: "ck_value c = 0 \<longleftrightarrow> 0 < unat (ck_sum c) \<and> 65535 dvd unat (ck_sum c)"
proof -
  define n where "n = unat (ck_sum c)"
  have "ck_value c = 0 \<longleftrightarrow> ones_sum n = 65535"
    using unat_ck_value [of c] ones_sum_le [of n] by (simp add: n_def unat_eq_0 [symmetric])
  also have "\<dots> \<longleftrightarrow> 0 < n \<and> (n - 1) mod 65535 = 65534" by (auto simp: ones_sum_def)
  also have "\<dots> \<longleftrightarrow> 0 < n \<and> 65535 dvd n"
  proof (cases n)
    case (Suc m)
    have "m mod 65535 = 65534 \<longleftrightarrow> Suc m mod 65535 = 0" by (simp add: mod_Suc)
    then show ?thesis by (simp add: Suc dvd_eq_mod_eq_0)
  qed simp
  finally show ?thesis by (simp add: n_def)
qed

lemma ck_insert_verifies:
  assumes "even (length a)" and "length a + length b \<le> 65533" and "unat init \<le> 0xfffff"
    and "c = ck_value (ck_add (InternetChecksum init) (a @ be16 0 @ b))"
  shows "ck_value (ck_add (InternetChecksum init) (a @ be16 c @ b)) = 0"
proof -
  define n where "n = unat init + ck_nat False (a @ be16 0 @ b)"
  have split: "ck_nat False (a @ be16 v @ b) = ck_nat False a + unat v + ck_nat False b" for v
    using assms(1) by (simp add: ck_nat_append)
  have n: "n < 4294901760"
    using assms ck_nat_le [of False "a @ be16 0 @ b"] by (simp add: n_def)
  then have s0: "unat (ck_sum (ck_add (InternetChecksum init) (a @ be16 0 @ b))) = n"
    by (simp add: ck_add_sum InternetChecksum_def n_def)
  have c: "unat c = 65535 - ones_sum n" unfolding assms(4) unat_ck_value s0 ..
  have "unat (ck_sum (ck_add (InternetChecksum init) (a @ be16 c @ b))) = n + unat c"
    using n c by (simp add: ck_add_sum InternetChecksum_def n_def split)
  moreover have "0 < n + unat c \<and> 65535 dvd n + unat c"
  proof (cases "n = 0")
    case False
    define r where "r = (n - 1) mod 65535"
    have "n = 65535 * ((n - 1) div 65535) + (r + 1)" using False by (simp add: r_def)
    moreover have "r < 65535" by (simp add: r_def)
    then have "unat c + (r + 1) = 65535" using c False unfolding ones_sum_def r_def [symmetric] by simp
    ultimately have "n + unat c = 65535 * ((n - 1) div 65535) + 65535" by linarith
    then show ?thesis using False by (simp add: dvd_add_right_iff)
  qed (use c in \<open>simp add: ones_sum_def\<close>)
  ultimately show ?thesis by (simp add: ck_value_zero_iff)
qed

lemma ck_add_append: "ck_add (ck_add c x) y = ck_add c (x @ y)"
  by (simp add: ck_add_def)

section \<open>Properties\<close>

text \<open>C40: The checksum of a string is the ones' complement of the ones' complement sum of its 16-bit
  big-endian words, an odd last byte counted as the high byte of a word. The loop in \<open>value\<close>
  ends, and the 32-bit accumulator does not overflow on anything that fits an IP datagram.\<close>

theorem checksum_correct:
  assumes "length data \<le> 65535" and "unat init \<le> 0xfffff"
  shows "unat (ck_value (ck_add (InternetChecksum init) data)) = 65535 - ones_sum (unat init + ck_nat False data)"
proof -
  have "unat init + ck_nat False data < 4294967296" using assms ck_nat_le [of False data] by simp
  then show ?thesis by (simp add: unat_ck_value ck_add_sum InternetChecksum_def)
qed

theorem checksum_correct_witness:
  "unat (ck_value (ck_add (InternetChecksum 5) [1, 2, 3])) = 65535 - ones_sum (5 + ck_nat False [1, 2, 3])"
  using checksum_correct [of "[1, 2, 3]" 5] by simp

text \<open>A message carries its own proof of integrity. With the checksum computed over the message
  with zeros in the 16-bit field and then written into the field, the checksum of the whole
  message is zero, which is what the parsers test.\<close>

theorem checksum_verifies:
  assumes "even (length a)" and "length a + length b \<le> 65533" and "unat init \<le> 0xfffff"
    and "c = ck_value (ck_add (InternetChecksum init) (a @ be16 0 @ b))"
  shows "ck_value (ck_add (InternetChecksum init) (a @ be16 c @ b)) = 0"
  using assms by (rule ck_insert_verifies)

theorem checksum_verifies_witness:
  "ck_value (ck_add (InternetChecksum 6) ([69, 0] @ be16 (ck_value (ck_add (InternetChecksum 6) ([69, 0] @ be16 0 @ [1, 2, 3]))) @ [1, 2, 3])) = 0"
  by (rule checksum_verifies) simp_all

text \<open>A corrupted word is noticed. When the checksum of a message is zero, replacing one of its
  16-bit words by a different one makes it non-zero, unless the two words are the two
  representations 0 and 0xffff of zero.\<close>

theorem checksum_detects:
  assumes "even (length a)" and "length a + length b \<le> 65533" and "unat init \<le> 0xfffff"
    and "ck_value (ck_add (InternetChecksum init) (a @ be16 v @ b)) = 0"
    and "w \<noteq> v" and "{v, w} \<noteq> {0, 0xffff}"
  shows "ck_value (ck_add (InternetChecksum init) (a @ be16 w @ b)) \<noteq> 0"
proof
  assume z: "ck_value (ck_add (InternetChecksum init) (a @ be16 w @ b)) = 0"
  define n where "n = unat init + ck_nat False a + ck_nat False b"
  have s: "unat (ck_sum (ck_add (InternetChecksum init) (a @ be16 u @ b))) = n + unat u" for u
  proof -
    have "unat init + ck_nat False (a @ be16 u @ b) < 4294967296"
      using assms(2,3) ck_nat_le [of False "a @ be16 u @ b"] by simp
    then show ?thesis using assms(1) by (simp add: ck_add_sum InternetChecksum_def n_def ck_nat_append)
  qed
  have "65535 dvd n + unat v" "65535 dvd n + unat w"
    using assms(4) z by (simp_all add: ck_value_zero_iff s)
  then have "65535 dvd int (n + unat v) - int (n + unat w)" by (metis dvd_diff int_dvd_int_iff of_nat_numeral)
  then have "65535 dvd int (unat v) - int (unat w)" by simp
  then obtain k where k: "int (unat v) - int (unat w) = 65535 * k" by (auto elim: dvdE)
  have "unat v < 65536" "unat w < 65536" "unat v \<noteq> unat w"
    using assms(5) by (auto simp: unat_lt word_unat_eq_iff)
  then have "k = 1 \<or> k = - 1" using k by linarith
  then have "unat v = 65535 \<and> unat w = 0 \<or> unat v = 0 \<and> unat w = 65535"
    using k \<open>unat v < 65536\<close> \<open>unat w < 65536\<close> by (elim disjE) (hypsubst, linarith)+
  moreover have "unat u = 65535 \<Longrightarrow> u = 0xffff" for u :: u16 by (rule word_unat_eq_iff [THEN iffD2]) simp
  ultimately show False using assms(6) by (auto simp: unat_eq_0)
qed

theorem checksum_detects_witness:
  "ck_value (ck_add (InternetChecksum 0) ([255, 255] @ be16 7 @ [])) \<noteq> 0"
  using checksum_detects [of "[255, 255]" "[]" 0 0 7]
  by (simp add: ck_value_zero_iff ck_add_sum InternetChecksum_def ck_nat_append be16_def)

text \<open>Integers survive the trip over the wire: what \<open>NetUnparser\<close> appends, \<open>NetParser\<close> reads back,
  and stops just after it, for all three widths.\<close>

theorem parse_unparse_roundtrip:
  shows "returns (rbind (parse_u32 (NetParser (Buffer (unparse_u8 (unparse_u16 (unparse_u32 [] x) y) z @ rest))))
      (\<lambda>(p, x'). rbind (parse_u16 p) (\<lambda>(p, y'). rbind (parse_u8 p) (\<lambda>(p, z'). Inr (p, x', y', z')))))
    (\<lambda>(p, x', y', z'). np_at p rest \<and> x' = x \<and> y' = y \<and> z' = z)"
proof -
  have "np_at (NetParser (Buffer (unparse_u8 (unparse_u16 (unparse_u32 [] x) y) z @ rest))) (be32 x @ be16 y @ be8 z @ rest)"
    by simp
  then show ?thesis
    by (rule parse_u32_step) (simp, erule parse_u16_step, simp, erule parse_u8_step, simp)
qed

text \<open>Reading past the end sets \<open>PacketTooShort\<close>, yields zero and consumes nothing; later reads do
  the same, and no exception escapes from the buffer.\<close>

theorem parse_past_end:
  assumes "length s < 4"
  shows "\<exists>p. parse_u32 (NetParser (Buffer s)) = Inr (p, 0) \<and> np_error p = PacketTooShort \<and>
    buf_str (np_buffer p) = s \<and> parse_u8 p = Inr (p, 0)"
proof -
  let ?p = "np_set_error (NetParser (Buffer s)) PacketTooShort"
  have "parse_u32 (NetParser (Buffer s)) = Inr (?p, 0)"
    unfolding parse_u32_def by (rule parse_int_short [OF np_at_NetParser assms])
  moreover have "parse_u8 ?p = Inr (?p, 0)"
    unfolding parse_u8_def by (rule parse_int_failed) (simp_all add: np_set_error_def np_failed_def)
  ultimately show ?thesis by (simp add: np_set_error_def NetParser_def)
qed

theorem parse_past_end_witness:
  "\<exists>p. parse_u32 (NetParser (Buffer [1, 2, 3])) = Inr (p, 0) \<and> np_error p = PacketTooShort \<and>
    buf_str (np_buffer p) = [1, 2, 3] \<and> parse_u8 p = Inr (p, 0)"
  by (rule parse_past_end) simp

text \<open>\<open>as_string\<close> has no entry for \<open>Unsupported\<close>: for this value, and only for it, the table is read
  past its end.\<close>

theorem as_string_out_of_bounds: "as_string r = Inl OutOfBounds \<longleftrightarrow> r = Unsupported"
  by (cases r) (simp_all add: as_string_def parse_result_names_def)

end
