(* ===== verification/Wrapping_Integers.thy ===== *)
theory Wrapping_Integers
  imports Sponge_Prelude
begin

text \<open>
  \<^verbatim>\<open>libsponge/wrapping_integers.hh\<close> and \<^verbatim>\<open>.cc\<close>: 32-bit sequence numbers relative to an
  initial sequence number, the translation \<open>wrap\<close> of a 64-bit absolute sequence number
  into them, and its inverse \<open>unwrap\<close> near a checkpoint. The main facts are that
  \<open>unwrap\<close> picks the closest preimage and that it inverts \<open>wrap\<close> within half the space;
  the receiver and the sender use them through the locale \<open>sequence_space\<close>.
\<close>

section \<open>WrappingInt32\<close>

datatype WrappingInt32 = WrappingInt32 (raw_value: u32)

text \<open>The number \<open>m\<close> of 32-bit values, \<open>UINT32_MAX + 1\<close> in 64 bits.\<close>

abbreviation m32 :: u64 where
  "m32 \<equiv> 4294967296"

definition wrap :: "u64 \<Rightarrow> WrappingInt32 \<Rightarrow> WrappingInt32" where
  "wrap n isn = WrappingInt32 (word_of_nat (u64_add (n mod m32) (unat (raw_value isn)) mod m32))"

definition unwrap :: "WrappingInt32 \<Rightarrow> WrappingInt32 \<Rightarrow> u64 \<Rightarrow> u64" where
  "unwrap n isn checkpoint =
     (let steps = u64_sub (u64_add (unat (raw_value n)) m32) (unat (raw_value isn)) mod m32;
          prev = u64_sub checkpoint steps div m32;
          nxt = u64_add prev 1;
          from_prev = u64_add steps (u64_mul prev m32);
          from_next = u64_add steps (u64_mul nxt m32);
          diff_prev = (if checkpoint > from_prev then u64_sub checkpoint from_prev
                       else u64_sub from_prev checkpoint);
          diff_next = (if checkpoint > from_next then u64_sub checkpoint from_next
                       else u64_sub from_next checkpoint)
      in if diff_prev < diff_next then from_prev else from_next)"

text \<open>The operators of \<open>WrappingInt32\<close>: the signed offset of \<open>a\<close> relative to \<open>b\<close>, the point
  \<open>b\<close> steps past \<open>a\<close> and the point \<open>b\<close> steps before it.\<close>

definition WrappingInt32_diff :: "WrappingInt32 \<Rightarrow> WrappingInt32 \<Rightarrow> int" where
  "WrappingInt32_diff a b = sint (raw_value a - raw_value b)"

definition WrappingInt32_plus :: "WrappingInt32 \<Rightarrow> u32 \<Rightarrow> WrappingInt32" where
  "WrappingInt32_plus a b = WrappingInt32 (raw_value a + b)"

definition WrappingInt32_minus :: "WrappingInt32 \<Rightarrow> u32 \<Rightarrow> WrappingInt32" where
  "WrappingInt32_minus a b = WrappingInt32_plus a (- b)"

section \<open>wrap and unwrap in closed form\<close>

lemma unat_u32_lt [simp]: "unat (w :: u32) < 4294967296"
  using unsigned_less [of w] by simp

lemma unat_raw_wrap: "unat (raw_value (wrap n isn)) = (n + unat (raw_value isn)) mod m32"
proof -
  have "n mod m32 + unat (raw_value isn) < m32 + m32"
    by (rule add_strict_mono) simp_all
  also have "\<dots> \<le> 2 ^ 64" by simp
  finally show ?thesis
    by (simp add: wrap_def unat_word_ariths unat_of_nat mod_simps)
qed

lemma WrappingInt32_eqI: "unat (raw_value a) = unat (raw_value b) \<Longrightarrow> a = b"
  by (cases a; cases b) (simp add: word_unat_eq_iff)

text \<open>The offset of \<open>n\<close> from \<open>isn\<close> in sequence space.\<close>

definition seq_steps :: "WrappingInt32 \<Rightarrow> WrappingInt32 \<Rightarrow> nat" where
  "seq_steps n isn = (unat (raw_value n) + m32 - unat (raw_value isn)) mod m32"

lemma seq_steps_lt [simp]: "seq_steps n isn < m32"
  by (simp add: seq_steps_def)

lemma seq_steps_wrap [simp]: "seq_steps (wrap r isn) isn = r mod m32"
  unfolding seq_steps_def unat_raw_wrap by (rule mod_sub_cancel) simp

lemma wrap_eq_iff: "wrap r isn = n \<longleftrightarrow> r mod m32 = seq_steps n isn"
proof
  assume "r mod m32 = seq_steps n isn"
  then have "(r + unat (raw_value isn)) mod m32 = unat (raw_value n)"
    by (intro mod_sub_solve) (simp_all add: seq_steps_def)
  then show "wrap r isn = n"
    by (intro WrappingInt32_eqI) (simp add: unat_raw_wrap)
qed auto

lemma unwrap_steps:
  "u64_sub (u64_add (unat (raw_value n)) m32) (unat (raw_value isn)) mod m32 = seq_steps n isn"
proof -
  have "unat (raw_value n) < m32" "unat (raw_value isn) < m32" by simp_all
  then have "unat (raw_value n) + m32 < U64" "unat (raw_value isn) \<le> unat (raw_value n) + m32"
    by linarith+
  then show ?thesis by (simp add: seq_steps_def)
qed

lemma unwrap_below:
  assumes "checkpoint < seq_steps n isn"
  shows "unwrap n isn checkpoint = seq_steps n isn"
proof -
  define s where "s = seq_steps n isn"
  have s: "s < m32" "checkpoint < s"
    using assms seq_steps_lt [of n isn] by (simp_all add: s_def)
  have "u64_sub checkpoint s div m32 = 4294967295"
    using s by (auto simp: u64_sub_def)
  moreover have "u64_mul 4294967295 m32 = U64 - m32" "u64_mul m32 m32 = 0"
    by (simp_all add: u64_mul_def)
  ultimately show ?thesis
    using s by (simp add: unwrap_def Let_def unwrap_steps s_def [symmetric])
qed

lemma unwrap_above:
  assumes cp: "checkpoint < U64"
    and qd: "checkpoint = seq_steps n isn + q * m32 + d" "d < m32"
  shows "unwrap n isn checkpoint =
    seq_steps n isn + (if q + 1 < m32 \<and> m32 \<le> 2 * d then q + 1 else q) * m32"
proof -
  define s where "s = seq_steps n isn"
  define p where "p = q * m32"
  have c: "checkpoint = s + p + d" using qd by (simp add: s_def p_def)
  have s: "s < m32" using seq_steps_lt [of n isn] by (simp add: s_def)
  have q: "q < m32" using c cp by (simp add: p_def)
  have prev: "u64_sub checkpoint s div m32 = q" using c qd by (simp add: p_def)
  have fp: "u64_add s (u64_mul q m32) = s + p" using c cp by (simp add: p_def)
  have nx: "u64_add q 1 = q + 1" using q by simp
  show ?thesis
  proof (cases "q + 1 < m32")
    case True
    then have "s + p + m32 < U64" using s unfolding p_def by linarith
    moreover have "(q + 1) * m32 = p + m32" by (simp add: p_def)
    ultimately have fn: "u64_add s (u64_mul (q + 1) m32) = s + p + m32" by simp
    have unw: "unwrap n isn checkpoint =
      (if (if checkpoint > s + p then u64_sub checkpoint (s + p) else u64_sub (s + p) checkpoint)
          < (if checkpoint > s + p + m32 then u64_sub checkpoint (s + p + m32)
             else u64_sub (s + p + m32) checkpoint)
       then s + p else s + p + m32)"
      by (simp only: unwrap_def Let_def unwrap_steps s_def [symmetric] prev nx fp fn)
    have "unwrap n isn checkpoint = (if d < m32 - d then s + p else s + p + m32)"
      unfolding unw unfolding c using qd(2) by auto
    moreover have "d < m32 - d \<longleftrightarrow> \<not> m32 \<le> 2 * d" using qd(2) by linarith
    ultimately show ?thesis
      using True \<open>(q + 1) * m32 = p + m32\<close> by (simp add: s_def p_def)
  next
    case False
    then have qq: "q = 4294967295" using q by simp
    have fn: "u64_add s (u64_mul (q + 1) m32) = s" using s by (simp add: qq u64_mul_def)
    have unw: "unwrap n isn checkpoint =
      (if (if checkpoint > s + p then u64_sub checkpoint (s + p) else u64_sub (s + p) checkpoint)
          < (if checkpoint > s then u64_sub checkpoint s else u64_sub s checkpoint)
       then s + p else s)"
      by (simp only: unwrap_def Let_def unwrap_steps s_def [symmetric] prev nx fp fn)
    have "0 < p" using qq by (simp add: p_def)
    then have "unwrap n isn checkpoint = s + p" unfolding unw unfolding c by auto
    then show ?thesis using False by (simp add: s_def p_def)
  qed
qed

lemma unwrap_up:
  assumes "checkpoint < U64" "checkpoint = seq_steps n isn + q * m32 + d" "d < m32"
    and "q + 1 < m32" "m32 \<le> 2 * d"
  shows "unwrap n isn checkpoint = seq_steps n isn + q * m32 + m32"
proof -
  have "(if q + 1 < m32 \<and> m32 \<le> 2 * d then q + 1 else q) = q + 1" using assms by (intro if_P conjI)
  then show ?thesis unfolding unwrap_above [OF assms(1-3)] by (simp only: distrib_right mult_1 add.assoc)
qed

lemma unwrap_down:
  assumes "checkpoint < U64" "checkpoint = seq_steps n isn + q * m32 + d" "d < m32"
    and "\<not> (q + 1 < m32 \<and> m32 \<le> 2 * d)"
  shows "unwrap n isn checkpoint = seq_steps n isn + q * m32"
  unfolding unwrap_above [OF assms(1-3)] if_not_P [OF assms(4)] by (rule refl)

lemma checkpoint_cases:
  obtains (below) "checkpoint < seq_steps n isn"
  | (above) q d where "checkpoint = seq_steps n isn + q * m32 + d" "d < m32"
proof (cases "checkpoint < seq_steps n isn")
  case False
  define x where "x = checkpoint - seq_steps n isn"
  have "checkpoint = seq_steps n isn + x" using False by (simp add: x_def)
  also have "x = x div m32 * m32 + x mod m32" by simp
  finally show thesis by (intro above [of "x div m32" "x mod m32"]) simp_all
qed (rule below)

lemma unwrap_lt:
  assumes "checkpoint < U64"
  shows "unwrap n isn checkpoint < U64"
proof (cases rule: checkpoint_cases [of checkpoint n isn])
  case below
  have "seq_steps n isn < m32" by simp
  then show ?thesis unfolding unwrap_below [OF below] by linarith
next
  case (above q d)
  then have "q < m32" using assms by simp
  then have "(if q + 1 < m32 \<and> m32 \<le> 2 * d then q + 1 else q) \<le> m32 - 1" by simp
  then have "(if q + 1 < m32 \<and> m32 \<le> 2 * d then q + 1 else q) * m32 \<le> (m32 - 1) * m32"
    by (rule mult_le_mono1)
  moreover have "seq_steps n isn < m32" by simp
  moreover have "(m32 - 1) * m32 = U64 - m32" by simp
  ultimately show ?thesis unfolding unwrap_above [OF assms above] by linarith
qed

lemma unwrap_mod:
  assumes "checkpoint < U64"
  shows "unwrap n isn checkpoint mod m32 = seq_steps n isn"
proof (cases rule: checkpoint_cases [of checkpoint n isn])
  case below
  then show ?thesis by (simp add: unwrap_below)
next
  case (above q d)
  show ?thesis unfolding unwrap_above [OF assms above] mod_mult_self1 by simp
qed

text \<open>Distance between two absolute sequence numbers.\<close>

definition seq_dist :: "u64 \<Rightarrow> u64 \<Rightarrow> nat" where
  "seq_dist a b = (if b \<le> a then a - b else b - a)"

lemma int_seq_dist: "int (seq_dist a b) = \<bar>int a - int b\<bar>"
  by (simp add: seq_dist_def)

lemma unwrap_dist_le:
  assumes cp: "checkpoint < U64" and r: "r < U64" "r mod m32 = seq_steps n isn"
  shows "seq_dist (unwrap n isn checkpoint) checkpoint \<le> seq_dist r checkpoint"
proof (cases rule: checkpoint_cases [of checkpoint n isn])
  case below
  have "seq_steps n isn \<le> r" using r(2) mod_less_eq_dividend [of r m32] by simp
  then show ?thesis using below by (simp add: unwrap_below seq_dist_def)
next
  case (above q d)
  define k where "k = r div m32"
  have rk: "r = seq_steps n isn + k * m32"
    using r(2) div_mult_mod_eq [of r m32] unfolding k_def by linarith
  have k: "k < m32" using r(1) by (simp add: k_def)
  define A B where "A = k * m32" and "B = q * m32"
  have r_eq: "r = seq_steps n isn + A" and c_eq: "checkpoint = seq_steps n isn + B + d"
    using rk above(1) by (simp_all add: A_def B_def)
  consider "k \<le> q" | "q + 1 \<le> k" by linarith
  then show ?thesis
  proof cases
    case 1
    then have "A \<le> B" unfolding A_def B_def by (rule mult_le_mono1)
    then have "d \<le> seq_dist r checkpoint"
      unfolding seq_dist_def r_eq c_eq by (simp split: if_split) arith
    moreover have "seq_dist (unwrap n isn checkpoint) checkpoint \<le> d"
    proof (cases "q + 1 < m32 \<and> m32 \<le> 2 * d")
      case True
      then have u: "unwrap n isn checkpoint = seq_steps n isn + B + m32"
        unfolding B_def using unwrap_up [OF cp above] by blast
      show ?thesis unfolding u unfolding c_eq seq_dist_def using True above(2)
        by (simp split: if_split) linarith
    next
      case False
      then have u: "unwrap n isn checkpoint = seq_steps n isn + B"
        unfolding B_def using unwrap_down [OF cp above] by blast
      show ?thesis unfolding u unfolding c_eq seq_dist_def by (simp split: if_split)
    qed
    ultimately show ?thesis by linarith
  next
    case 2
    then have "(q + 1) * m32 \<le> A" unfolding A_def by (rule mult_le_mono1)
    then have "B + m32 \<le> A" by (simp add: B_def)
    then have "m32 - d \<le> seq_dist r checkpoint"
      unfolding seq_dist_def r_eq c_eq using above(2) by (simp split: if_split) arith?
    moreover have "seq_dist (unwrap n isn checkpoint) checkpoint \<le> m32 - d"
    proof (cases "m32 \<le> 2 * d")
      case True
      have "q + 1 < m32" using 2 k by linarith
      then have u: "unwrap n isn checkpoint = seq_steps n isn + B + m32"
        unfolding B_def using unwrap_up [OF cp above] True by blast
      show ?thesis unfolding u unfolding c_eq seq_dist_def using above(2) by (simp split: if_split)
    next
      case False
      then have u: "unwrap n isn checkpoint = seq_steps n isn + B"
        unfolding B_def using unwrap_down [OF cp above] by blast
      show ?thesis unfolding u unfolding c_eq seq_dist_def using False
        by (simp split: if_split) linarith
    qed
    ultimately show ?thesis by linarith
  qed
qed

lemma seq_near_unique:
  assumes "a mod m32 = b mod m32" and "seq_dist a c \<le> seq_dist b c" and "seq_dist b c < 2 ^ 31"
  shows "a = b"
proof -
  have "\<bar>int a - int c\<bar> \<le> \<bar>int b - int c\<bar>" "\<bar>int b - int c\<bar> < 2147483648"
    using assms(2,3) unfolding int_seq_dist [symmetric] by simp_all
  then have "a < b + m32" "b < a + m32" by linarith+
  moreover have "a = a div m32 * m32 + b mod m32" "b = b div m32 * m32 + b mod m32"
    using div_mult_mod_eq [of a m32] div_mult_mod_eq [of b m32] assms(1) by simp_all
  ultimately have "a div m32 = b div m32" by linarith
  with assms(1) show ?thesis by (metis div_mult_mod_eq)
qed

section \<open>What the sequence-number translation promises\<close>

text \<open>The contract the receiver and the sender rely on: within half of the 32-bit space around
  the checkpoint an absolute sequence number survives the trip through the header, and
  stepping an absolute number by \<open>k\<close> steps the relative one by \<open>k\<close>.\<close>

locale sequence_space =
  fixes enc :: "u64 \<Rightarrow> 'i \<Rightarrow> 'w" and dec :: "'w \<Rightarrow> 'i \<Rightarrow> u64 \<Rightarrow> u64"
  assumes dec_bound: "c < U64 \<Longrightarrow> dec w i c < U64"
    and enc_dec: "c < U64 \<Longrightarrow> enc (dec w i c) i = w"
    and dec_enc: "r < U64 \<Longrightarrow> c < U64 \<Longrightarrow> seq_dist r c < 2 ^ 31 \<Longrightarrow> dec (enc r i) i c = r"
begin

lemma enc_inj_near:
  assumes "r < U64" "r' < U64" "seq_dist r r' < 2 ^ 31" "enc r i = enc r' i"
  shows "r = r'"
proof -
  have "dec (enc r i) i r' = r" using assms by (intro dec_enc)
  moreover have "dec (enc r' i) i r' = r'" using assms by (intro dec_enc) (simp_all add: seq_dist_def)
  ultimately show ?thesis using assms(4) by metis
qed

lemma dec_self: "c < U64 \<Longrightarrow> dec (enc c i) i c = c"
  by (rule dec_enc) (simp_all add: seq_dist_def)

end

interpretation seq: sequence_space wrap unwrap
proof (unfold_locales, goal_cases)
  case (1 c w i)
  then show ?case by (rule unwrap_lt)
next
  case (2 c w i)
  then show ?case by (simp add: wrap_eq_iff unwrap_mod)
next
  case (3 r c i)
  have "unwrap (wrap r i) i c mod m32 = r mod m32" using 3 by (simp add: unwrap_mod)
  moreover have "seq_dist (unwrap (wrap r i) i c) c \<le> seq_dist r c"
    using 3 by (intro unwrap_dist_le) simp_all
  ultimately show ?case using 3(3) by (rule seq_near_unique)
qed

section \<open>Properties\<close>

text \<open>C38: \<open>unwrap\<close> returns an absolute sequence number that wraps to the given relative one,
  and of all 64-bit numbers that do it returns one closest to the checkpoint. This holds
  for every checkpoint, also next to 0 and next to 2^64, where the unsigned subtraction in
  the code wraps around.\<close>

theorem unwrap_closest:
  assumes "checkpoint < U64"
  shows "wrap (unwrap n isn checkpoint) isn = n \<and>
    (\<forall>r<U64. wrap r isn = n \<longrightarrow> seq_dist (unwrap n isn checkpoint) checkpoint \<le> seq_dist r checkpoint)"
  using assms by (auto simp: seq.enc_dec wrap_eq_iff intro: unwrap_dist_le)

theorem unwrap_closest_witness:
  "wrap (unwrap (WrappingInt32 3) (WrappingInt32 5) 7) (WrappingInt32 5) = WrappingInt32 3 \<and>
   wrap 4294967294 (WrappingInt32 5) = WrappingInt32 3 \<and>
   seq_dist (unwrap (WrappingInt32 3) (WrappingInt32 5) 7) 7 \<le> seq_dist 4294967294 7"
proof -
  have "wrap 4294967294 (WrappingInt32 5) = WrappingInt32 3"
    by (simp add: wrap_def)
  then show ?thesis
    using unwrap_closest [of 7 "WrappingInt32 3" "WrappingInt32 5"] by simp
qed

text \<open>An absolute sequence number less than 2^31 away from the checkpoint survives the trip
  through a 32-bit header field: \<open>unwrap\<close> gives back exactly what was wrapped.\<close>

theorem unwrap_wrap_roundtrip:
  assumes "r < U64" and "checkpoint < U64" and "seq_dist r checkpoint < 2 ^ 31"
  shows "unwrap (wrap r isn) isn checkpoint = r"
  using assms by (rule seq.dec_enc)

theorem unwrap_wrap_roundtrip_witness:
  "unwrap (wrap 4294967300 (WrappingInt32 4294967295)) (WrappingInt32 4294967295) 4294967290 = 4294967300"
  using unwrap_wrap_roundtrip [of 4294967300 4294967290 "WrappingInt32 4294967295"]
  by (simp add: seq_dist_def)

lemma sint_u32: "sint (d :: u32) = (if uint d < 2147483648 then uint d else uint d - 4294967296)"
proof -
  have u: "0 \<le> uint d" "uint d < 4294967296" using uint_lt2p [of d] by simp_all
  then have "bit (uint d) 31 \<longleftrightarrow> 2147483648 \<le> uint d"
  proof (cases "2147483648 \<le> uint d")
    case True
    then have "uint d div 2147483648 = 1"
      using u by (intro int_div_pos_eq [where r = "uint d - 2147483648"]) simp_all
    with True show ?thesis by (simp add: bit_iff_odd)
  qed (use u in \<open>simp add: bit_iff_odd div_pos_pos_trivial\<close>)
  with u show ?thesis
    by (simp add: sint_uint signed_take_bit_eq_take_bit_minus take_bit_int_eq_self)
qed

text \<open>The signed offset of \<open>a\<close> from \<open>b\<close> lies in [-2^31, 2^31), stepping \<open>b\<close> by it gives \<open>a\<close>
  back, and it is negative exactly when the number of decrements is at most the number of
  increments (and \<open>a\<close> is not \<open>b\<close>).\<close>

theorem WrappingInt32_offset:
  "WrappingInt32_plus b (word_of_int (WrappingInt32_diff a b)) = a \<and>
   - (2 ^ 31) \<le> WrappingInt32_diff a b \<and> WrappingInt32_diff a b < 2 ^ 31 \<and>
   (WrappingInt32_diff a b < 0 \<longleftrightarrow>
      uint (raw_value b - raw_value a) \<le> uint (raw_value a - raw_value b) \<and> a \<noteq> b)"
proof -
  define d where "d = raw_value a - raw_value b"
  have down: "raw_value b - raw_value a = - d" by (simp add: d_def)
  have neq: "a \<noteq> b \<longleftrightarrow> d \<noteq> 0" by (cases a; cases b) (simp add: d_def)
  have u: "0 \<le> uint d" "uint d < 4294967296" using uint_lt2p [of d] by simp_all
  have "uint (- d) = (if d = 0 then 0 else 4294967296 - uint d)"
    using u by (auto simp: uint_word_ariths zmod_zminus1_eq_if uint_0_iff)
  moreover have "d = 0 \<longleftrightarrow> uint d = 0" by (simp add: uint_0_iff)
  ultimately have "sint d < 0 \<longleftrightarrow> uint (- d) \<le> uint d \<and> d \<noteq> 0"
    using u by (auto simp: sint_u32)
  moreover have "- (2 ^ 31) \<le> sint d" "sint d < 2 ^ 31"
    using sint_ge [of d] sint_lt [of d] by simp_all
  moreover have "WrappingInt32_plus b (word_of_int (sint d)) = a"
    by (cases a; cases b) (simp add: WrappingInt32_plus_def d_def)
  ultimately show ?thesis by (simp add: WrappingInt32_diff_def down neq d_def [symmetric])
qed

end
