(* ===== verification/TCP_Segment.thy ===== *)
theory TCP_Segment
  imports Net_Parser Wrapping_Integers
begin

unbundle bit_operations_syntax

text \<open>
  \<^verbatim>\<open>libsponge/tcp_helpers/tcp_header.{hh,cc}\<close> and \<^verbatim>\<open>tcp_segment.{hh,cc}\<close>: the TCP header with its two
  wire formats, and the segment, whose checksum covers the header, the payload and the
  pseudo-header of the layer below.

  A \<open>parse\<close> method overwrites the object it is called on; in the model it takes the old object
  and returns the new one, with the parser and the \<open>ParseResult\<close>. \<open>TCPHeader\<close> is an instance of
  the locale \<open>header_codec\<close>.
\<close>

section \<open>TCPHeader\<close>

record TCPHeader =
  th_sport :: u16
  th_dport :: u16
  th_seqno :: WrappingInt32
  th_ackno :: WrappingInt32
  th_doff :: u8
  th_urg :: bool
  th_ack :: bool
  th_psh :: bool
  th_rst :: bool
  th_syn :: bool
  th_fin :: bool
  th_win :: u16
  th_cksum :: u16
  th_uptr :: u16

definition TCPHeader_LENGTH :: size_t where
  "TCPHeader_LENGTH = 20"

definition TCPHeader_default :: TCPHeader where
  "TCPHeader_default =
     \<lparr>th_sport = 0, th_dport = 0, th_seqno = WrappingInt32 0, th_ackno = WrappingInt32 0,
      th_doff = of_nat (TCPHeader_LENGTH div 4), th_urg = False, th_ack = False, th_psh = False,
      th_rst = False, th_syn = False, th_fin = False, th_win = 0, th_cksum = 0, th_uptr = 0\<rparr>"

definition TCPHeader_parse :: "TCPHeader \<Rightarrow> net_parser \<Rightarrow> (TCPHeader \<times> net_parser \<times> ParseResult) res" where
  "TCPHeader_parse h p =
     rbind (parse_u16 p) (\<lambda>(p, sport).
     rbind (parse_u16 p) (\<lambda>(p, dport).
     rbind (parse_u32 p) (\<lambda>(p, seqno).
     rbind (parse_u32 p) (\<lambda>(p, ackno).
     rbind (parse_u8 p) (\<lambda>(p, doff_b).
     rbind (parse_u8 p) (\<lambda>(p, fl_b).
     rbind (parse_u16 p) (\<lambda>(p, win).
     rbind (parse_u16 p) (\<lambda>(p, cksum).
     rbind (parse_u16 p) (\<lambda>(p, uptr).
       let doff = drop_bit 4 doff_b;
           h = h\<lparr>th_sport := sport, th_dport := dport, th_seqno := WrappingInt32 seqno,
                 th_ackno := WrappingInt32 ackno, th_doff := doff,
                 th_urg := fl_b AND 0x20 \<noteq> 0, th_ack := fl_b AND 0x10 \<noteq> 0,
                 th_psh := fl_b AND 0x08 \<noteq> 0, th_rst := fl_b AND 0x04 \<noteq> 0,
                 th_syn := fl_b AND 0x02 \<noteq> 0, th_fin := fl_b AND 0x01 \<noteq> 0,
                 th_win := win, th_cksum := cksum, th_uptr := uptr\<rparr>
       in if doff < 5 then Inr (h, p, HeaderTooShort)
          else rbind (np_remove_prefix p (u64_sub (unat doff * 4) TCPHeader_LENGTH)) (\<lambda>p.
            if np_failed p then Inr (h, p, np_error p) else Inr (h, p, NoError)))))))))))"

definition tcp_flags :: "TCPHeader \<Rightarrow> u8" where
  "tcp_flags h = (if th_urg h then 0x20 else 0) OR (if th_ack h then 0x10 else 0) OR
     (if th_psh h then 0x08 else 0) OR (if th_rst h then 0x04 else 0) OR
     (if th_syn h then 0x02 else 0) OR (if th_fin h then 0x01 else 0)"

definition TCPHeader_serialize :: "TCPHeader \<Rightarrow> bytes res" where
  "TCPHeader_serialize h =
     (if th_doff h < 5 then Inl (RuntimeError ''TCP header too short'')
      else let ret = [];
               ret = unparse_u16 ret (th_sport h);
               ret = unparse_u16 ret (th_dport h);
               ret = unparse_u32 ret (raw_value (th_seqno h));
               ret = unparse_u32 ret (raw_value (th_ackno h));
               ret = unparse_u8 ret (push_bit 4 (th_doff h));
               fl_b = tcp_flags h;
               ret = unparse_u8 ret fl_b;
               ret = unparse_u16 ret (th_win h);
               ret = unparse_u16 ret (th_cksum h);
               ret = unparse_u16 ret (th_uptr h)
           in Inr (string_resize ret (4 * unat (th_doff h))))"

definition TCPHeader_eq :: "TCPHeader \<Rightarrow> TCPHeader \<Rightarrow> bool" where
  "TCPHeader_eq a b \<longleftrightarrow> th_seqno a = th_seqno b \<and> th_ackno a = th_ackno b \<and> th_doff a = th_doff b \<and>
     th_urg a = th_urg b \<and> th_ack a = th_ack b \<and> th_psh a = th_psh b \<and> th_rst a = th_rst b \<and>
     th_syn a = th_syn b \<and> th_fin a = th_fin b \<and> th_win a = th_win b \<and> th_uptr a = th_uptr b"

section \<open>TCPSegment\<close>

record TCPSegment =
  seg_header :: TCPHeader
  seg_payload :: buffer

definition TCPSegment_default :: TCPSegment where
  "TCPSegment_default = \<lparr>seg_header = TCPHeader_default, seg_payload = Buffer_default\<rparr>"

definition TCPSegment_parse :: "TCPSegment \<Rightarrow> buffer \<Rightarrow> u32 \<Rightarrow> (TCPSegment \<times> ParseResult) res" where
  "TCPSegment_parse seg buf datagram_layer_checksum =
     (let check = ck_add (InternetChecksum datagram_layer_checksum) (buf_str buf)
      in if ck_value check \<noteq> 0 then Inr (seg, BadChecksum)
         else rbind (TCPHeader_parse (seg_header seg) (NetParser buf)) (\<lambda>(h, p, _).
           Inr (seg\<lparr>seg_header := h, seg_payload := np_buffer p\<rparr>, np_error p)))"

definition length_in_sequence_space :: "TCPSegment \<Rightarrow> size_t" where
  "length_in_sequence_space seg =
     u64_add (u64_add (length (buf_str (seg_payload seg))) (if th_syn (seg_header seg) then 1 else 0))
       (if th_fin (seg_header seg) then 1 else 0)"

definition TCPSegment_serialize :: "TCPSegment \<Rightarrow> u32 \<Rightarrow> buffer_list res" where
  "TCPSegment_serialize seg datagram_layer_checksum =
     (let header_out = (seg_header seg)\<lparr>th_cksum := 0\<rparr>
      in rbind (TCPHeader_serialize header_out) (\<lambda>s0.
         let check = ck_add (ck_add (InternetChecksum datagram_layer_checksum) s0) (buf_str (seg_payload seg));
             header_out = header_out\<lparr>th_cksum := ck_value check\<rparr>
         in rbind (TCPHeader_serialize header_out) (\<lambda>s1.
            Inr (BufferList_append (BufferList_append [] (BufferList_of_string s1))
                   (BufferList_of_Buffer (seg_payload seg))))))"

section \<open>Segments of a stream\<close>

text \<open>The segment carries the bytes of \<open>s\<close> from index \<open>idx\<close> on, sent with initial sequence number \<open>isn\<close>: the
  SYN has absolute sequence number 0, the byte at index \<open>i\<close> has \<open>i + 1\<close>, and a FIN comes after the
  last byte. This is what a sender promises of its segments, and what a receiver relies on.\<close>

definition seg_carries :: "bytes \<Rightarrow> WrappingInt32 \<Rightarrow> nat \<Rightarrow> TCPSegment \<Rightarrow> bool" where
  "seg_carries s isn idx seg \<longleftrightarrow>
     th_seqno (seg_header seg) = wrap (if th_syn (seg_header seg) then 0 else idx + 1) isn \<and>
     (th_syn (seg_header seg) \<longrightarrow> idx = 0) \<and>
     take (length (buf_str (seg_payload seg))) (drop idx s) = buf_str (seg_payload seg) \<and>
     idx + length (buf_str (seg_payload seg)) \<le> length s \<and>
     (th_fin (seg_header seg) \<longrightarrow> idx + length (buf_str (seg_payload seg)) = length s)"

text \<open>A segment without payload, SYN or FIN, at any sequence number.\<close>

definition seg_pure_ack :: "TCPSegment \<Rightarrow> bool" where
  "seg_pure_ack seg \<longleftrightarrow> buf_str (seg_payload seg) = [] \<and> \<not> th_syn (seg_header seg) \<and> \<not> th_fin (seg_header seg)"

lemma length_in_sequence_space_eq:
  assumes "length (buf_str (seg_payload seg)) \<le> max_string"
  shows "length_in_sequence_space seg = length (buf_str (seg_payload seg)) +
    (if th_syn (seg_header seg) then 1 else 0) + (if th_fin (seg_header seg) then 1 else 0)"
  using assms by (simp add: length_in_sequence_space_def)

section \<open>Header lemmas\<close>

lemma tcp_flags_bits [simp]:
  "tcp_flags h AND 0x20 \<noteq> 0 \<longleftrightarrow> th_urg h" "tcp_flags h AND 0x10 \<noteq> 0 \<longleftrightarrow> th_ack h"
  "tcp_flags h AND 0x08 \<noteq> 0 \<longleftrightarrow> th_psh h" "tcp_flags h AND 0x04 \<noteq> 0 \<longleftrightarrow> th_rst h"
  "tcp_flags h AND 0x02 \<noteq> 0 \<longleftrightarrow> th_syn h" "tcp_flags h AND 0x01 \<noteq> 0 \<longleftrightarrow> th_fin h"
  by (cases "th_urg h"; cases "th_ack h"; cases "th_psh h"; cases "th_rst h"; cases "th_syn h"; cases "th_fin h";
      simp add: tcp_flags_def)+

lemma nibble_roundtrip: "d < 16 \<Longrightarrow> drop_bit 4 (push_bit 4 d) = d" for d :: u8
proof -
  assume "d < 16"
  then have "unat d < 16" by (simp add: word_less_nat_alt)
  then have "unat (drop_bit 4 (push_bit 4 d)) = unat d"
    by (simp add: unat_drop_bit push_bit_eq_mult unat_word_ariths)
  then show ?thesis by (simp add: word_unat_eq_iff)
qed

text \<open>The 20 fixed bytes of a header.\<close>

definition tcp_fixed :: "TCPHeader \<Rightarrow> bytes" where
  "tcp_fixed h = be16 (th_sport h) @ be16 (th_dport h) @ be32 (raw_value (th_seqno h)) @
     be32 (raw_value (th_ackno h)) @ be8 (push_bit 4 (th_doff h)) @ be8 (tcp_flags h) @
     be16 (th_win h) @ be16 (th_cksum h) @ be16 (th_uptr h)"

lemma length_tcp_fixed [simp]: "length (tcp_fixed h) = 20"
  by (simp add: tcp_fixed_def)

lemma doff_ge: "\<not> d < 5 \<longleftrightarrow> 5 \<le> unat d" for d :: u8
  by (simp add: word_less_nat_alt not_less)

lemma TCPHeader_serialize_eq:
  "5 \<le> unat (th_doff h) \<Longrightarrow>
   TCPHeader_serialize h = Inr (tcp_fixed h @ replicate (4 * unat (th_doff h) - 20) 0)"
  unfolding TCPHeader_serialize_def string_resize_def Let_def
  by (subst if_not_P) (simp_all add: doff_ge tcp_fixed_def)

lemma TCPHeader_serialize_fails:
  "unat (th_doff h) < 5 \<Longrightarrow> TCPHeader_serialize h = Inl (RuntimeError ''TCP header too short'')"
  by (simp add: TCPHeader_serialize_def word_less_nat_alt)

text \<open>What the fixed fields of a header are parsed to.\<close>

definition tcp_fields :: "TCPHeader \<Rightarrow> u16 \<Rightarrow> u16 \<Rightarrow> u32 \<Rightarrow> u32 \<Rightarrow> u8 \<Rightarrow> u8 \<Rightarrow> u16 \<Rightarrow> u16 \<Rightarrow> u16 \<Rightarrow> TCPHeader" where
  "tcp_fields h a b c d e f g i j =
     h\<lparr>th_sport := a, th_dport := b, th_seqno := WrappingInt32 c, th_ackno := WrappingInt32 d,
       th_doff := drop_bit 4 e, th_urg := f AND 0x20 \<noteq> 0, th_ack := f AND 0x10 \<noteq> 0,
       th_psh := f AND 0x08 \<noteq> 0, th_rst := f AND 0x04 \<noteq> 0, th_syn := f AND 0x02 \<noteq> 0,
       th_fin := f AND 0x01 \<noteq> 0, th_win := g, th_cksum := i, th_uptr := j\<rparr>"

text \<open>A header that agrees with the first 20 bytes of a string: every field is the number that the bytes at its
  place encode, and every flag one bit of byte 13.\<close>

definition tcp_wire :: "bytes \<Rightarrow> TCPHeader \<Rightarrow> bool" where
  "tcp_wire s h \<longleftrightarrow> be16 (th_sport h) = take 2 s \<and> be16 (th_dport h) = take 2 (drop 2 s) \<and>
     be32 (raw_value (th_seqno h)) = take 4 (drop 4 s) \<and> be32 (raw_value (th_ackno h)) = take 4 (drop 8 s) \<and>
     unat (th_doff h) = unat (s ! 12) div 16 \<and> th_urg h = bit (s ! 13) 5 \<and> th_ack h = bit (s ! 13) 4 \<and>
     th_psh h = bit (s ! 13) 3 \<and> th_rst h = bit (s ! 13) 2 \<and> th_syn h = bit (s ! 13) 1 \<and> th_fin h = bit (s ! 13) 0 \<and>
     be16 (th_win h) = take 2 (drop 14 s) \<and> be16 (th_cksum h) = take 2 (drop 16 s) \<and> be16 (th_uptr h) = take 2 (drop 18 s)"

lemma flag_bits:
  fixes f :: u8
  shows "f AND 0x20 \<noteq> 0 \<longleftrightarrow> bit f 5" "f AND 0x10 \<noteq> 0 \<longleftrightarrow> bit f 4" "f AND 0x08 \<noteq> 0 \<longleftrightarrow> bit f 3"
    "f AND 0x04 \<noteq> 0 \<longleftrightarrow> bit f 2" "f AND 0x02 \<noteq> 0 \<longleftrightarrow> bit f 1" "f AND 0x01 \<noteq> 0 \<longleftrightarrow> bit f 0"
  using bit_iff_and_push_bit_not_eq_0 [of f] by (simp_all add: push_bit_eq_mult)

lemma tcp_fields_wire:
  "tcp_wire (be16 a @ be16 b @ be32 c @ be32 d @ be8 e @ be8 f @ be16 g @ be16 i @ be16 j @ rest) (tcp_fields h0 a b c d e f g i j)"
  unfolding tcp_wire_def tcp_fields_def
  by (simp add: flag_bits nth_append be8_def unat_drop_bit)

lemma TCPHeader_parse_fields:
  assumes "np_at p (be16 a @ be16 b @ be32 c @ be32 d @ be8 e @ be8 f @ be16 g @ be16 i @ be16 j @ rest)"
    and "n = 4 * unat (drop_bit 4 e) - 20"
  shows "returns (TCPHeader_parse h0 p) (\<lambda>(h, p', r). h = tcp_fields h0 a b c d e f g i j \<and>
    (if unat (drop_bit 4 e) < 5 then r = HeaderTooShort \<and> np_at p' rest
     else if n \<le> length rest then r = NoError \<and> np_at p' (drop n rest)
     else r = PacketTooShort \<and> np_error p' = PacketTooShort))"
proof -
  let ?Q = "\<lambda>(h, p', r). h = tcp_fields h0 a b c d e f g i j \<and>
    (if unat (drop_bit 4 e) < 5 then r = HeaderTooShort \<and> np_at p' rest
     else if n \<le> length rest then r = NoError \<and> np_at p' (drop n rest)
     else r = PacketTooShort \<and> np_error p' = PacketTooShort)"
  have fin: "returns (if drop_bit 4 e < 5 then Inr (tcp_fields h0 a b c d e f g i j, q, HeaderTooShort)
      else rbind (np_remove_prefix q (u64_sub (unat (drop_bit 4 e) * 4) TCPHeader_LENGTH)) (\<lambda>p.
        if np_failed p then Inr (tcp_fields h0 a b c d e f g i j, p, np_error p)
        else Inr (tcp_fields h0 a b c d e f g i j, p, NoError))) ?Q"
    if q: "np_at q rest" for q
  proof (cases "drop_bit 4 e < 5")
    case True
    then have "unat (drop_bit 4 e) < 5" by (simp add: word_less_nat_alt)
    with True q show ?thesis by simp
  next
    case False
    then have ge: "5 \<le> unat (drop_bit 4 e)" unfolding doff_ge .
    then have n: "u64_sub (unat (drop_bit 4 e) * 4) TCPHeader_LENGTH = n"
      unfolding TCPHeader_LENGTH_def assms(2) by (subst u64_sub_le) simp_all
    show ?thesis unfolding if_not_P [OF False] n
    proof (cases "n \<le> length rest")
      case True
      show "returns (rbind (np_remove_prefix q n) (\<lambda>p.
          if np_failed p then Inr (tcp_fields h0 a b c d e f g i j, p, np_error p)
          else Inr (tcp_fields h0 a b c d e f g i j, p, NoError))) ?Q"
        by (rule returns_bind [OF np_remove_prefix_returns [OF q True]])
          (use True ge in \<open>auto dest: np_atD(1)\<close>)
    next
      case False
      then show "returns (rbind (np_remove_prefix q n) (\<lambda>p.
          if np_failed p then Inr (tcp_fields h0 a b c d e f g i j, p, np_error p)
          else Inr (tcp_fields h0 a b c d e f g i j, p, NoError))) ?Q"
        using np_remove_prefix_short [OF q, of n] ge by (simp add: np_set_error_def np_failed_def)
    qed
  qed
  show ?thesis
    unfolding TCPHeader_parse_def
    apply (rule parse_u16_step [OF assms(1)], simp only: prod.case)
    apply (erule parse_steps, simp only: prod.case)+
    apply (drule fin, simp only: Let_def tcp_fields_def)
    done
qed

lemma TCPHeader_parse_short:
  assumes "np_at p s" "length s < 20"
  shows "returns (TCPHeader_parse h0 p) (\<lambda>(h, p', r). np_error p' = PacketTooShort \<and> r \<noteq> NoError)"
proof -
  have "np_short 20 p" using assms by (rule np_shortI)
  then show ?thesis
    unfolding TCPHeader_parse_def
    apply (rule parse_short_steps, simp, simp)
    apply (erule parse_short_steps, simp, simp)+
    apply (simp add: Let_def np_remove_prefix_failed np_failed_def)
    done
qed

lemma tcp_bytes_cases:
  assumes "20 \<le> length s"
  obtains a b c d e f g i j rest where
    "s = be16 a @ be16 b @ be32 c @ be32 d @ be8 e @ be8 f @ be16 g @ be16 i @ be16 j @ rest"
proof -
  obtain a where a: "s = be16 a @ drop 2 s" using be_cases(2) [of s] assms by auto
  obtain b where b: "drop 2 s = be16 b @ drop 4 s" using be_at(2) [of 2 s] assms by auto
  obtain c where c: "drop 4 s = be32 c @ drop 8 s" using be_at(3) [of 4 s] assms by auto
  obtain d where d: "drop 8 s = be32 d @ drop 12 s" using be_at(3) [of 8 s] assms by auto
  obtain e where e: "drop 12 s = be8 e @ drop 13 s" using be_at(1) [of 12 s] assms by auto
  obtain f where f: "drop 13 s = be8 f @ drop 14 s" using be_at(1) [of 13 s] assms by auto
  obtain g where g: "drop 14 s = be16 g @ drop 16 s" using be_at(2) [of 14 s] assms by auto
  obtain i where i: "drop 16 s = be16 i @ drop 18 s" using be_at(2) [of 16 s] assms by auto
  obtain j where j: "drop 18 s = be16 j @ drop 20 s" using be_at(2) [of 18 s] assms by auto
  have "s = be16 a @ be16 b @ be32 c @ be32 d @ be8 e @ be8 f @ be16 g @ be16 i @ be16 j @ drop 20 s"
    using a b c d e f g i j by metis
  then show thesis by (rule that)
qed

definition tcp_fits :: "TCPHeader \<Rightarrow> bytes \<Rightarrow> bool" where
  "tcp_fits h rest \<longleftrightarrow> 5 \<le> unat (th_doff h) \<and> unat (th_doff h) < 16"

lemma tcp_fields_self: "unat (th_doff h) < 16 \<Longrightarrow>
    tcp_fields h0 (th_sport h) (th_dport h) (raw_value (th_seqno h)) (raw_value (th_ackno h))
      (push_bit 4 (th_doff h)) (tcp_flags h) (th_win h) (th_cksum h) (th_uptr h) = h"
  unfolding tcp_fields_def tcp_flags_bits by (cases h; cases h0) (simp add: nibble_roundtrip word_less_nat_alt)

interpretation tcp: header_codec tcp_fits TCPHeader_serialize TCPHeader_parse
proof (unfold_locales, goal_cases)
  case (1 h rest)
  then show ?case by (auto simp: tcp_fits_def TCPHeader_serialize_eq)
next
  case (2 h rest s p h0)
  then have doff: "5 \<le> unat (th_doff h)" "unat (th_doff h) < 16" by (simp_all add: tcp_fits_def)
  define n where "n = 4 * unat (th_doff h) - 20"
  have nib: "drop_bit 4 (push_bit 4 (th_doff h)) = th_doff h"
    using doff by (simp add: nibble_roundtrip word_less_nat_alt)
  have "s = tcp_fixed h @ replicate n 0" using 2(2) doff(1) by (simp add: TCPHeader_serialize_eq n_def)
  with 2(3) have "np_at p (be16 (th_sport h) @ be16 (th_dport h) @ be32 (raw_value (th_seqno h)) @
     be32 (raw_value (th_ackno h)) @ be8 (push_bit 4 (th_doff h)) @ be8 (tcp_flags h) @
     be16 (th_win h) @ be16 (th_cksum h) @ be16 (th_uptr h) @ replicate n 0 @ rest)"
    by (simp add: tcp_fixed_def)
  from TCPHeader_parse_fields [OF this refl, of h0] show ?case
    unfolding nib tcp_fields_self [OF doff(2)] n_def [symmetric]
    by (rule returns_mono) (use doff(1) in auto)
qed

section \<open>Segments\<close>

lemma tcp_fixed_cksum: "\<exists>a b. length a = 16 \<and> length b = 2 \<and> (\<forall>v. tcp_fixed (h\<lparr>th_cksum := v\<rparr>) = a @ be16 v @ b)"
  by (rule exI [of _ "be16 (th_sport h) @ be16 (th_dport h) @ be32 (raw_value (th_seqno h)) @
        be32 (raw_value (th_ackno h)) @ be8 (push_bit 4 (th_doff h)) @ be8 (tcp_flags h) @ be16 (th_win h)"],
      rule exI [of _ "be16 (th_uptr h)"])
    (simp add: tcp_fixed_def tcp_flags_def)

definition seg_out :: "TCPSegment \<Rightarrow> u32 \<Rightarrow> TCPHeader" where
  "seg_out seg c = (seg_header seg)\<lparr>th_cksum := ck_value (ck_add (InternetChecksum c)
     (tcp_fixed ((seg_header seg)\<lparr>th_cksum := 0\<rparr>) @ replicate (4 * unat (th_doff (seg_header seg)) - 20) 0 @
      buf_str (seg_payload seg)))\<rparr>"

lemma TCPSegment_serialize_eq:
  assumes "5 \<le> unat (th_doff (seg_header seg))"
  shows "TCPSegment_serialize seg c = Inr [Buffer (tcp_fixed (seg_out seg c) @
    replicate (4 * unat (th_doff (seg_header seg)) - 20) 0), seg_payload seg]"
  using assms unfolding TCPSegment_serialize_def Let_def
  by (simp add: TCPHeader_serialize_eq ck_add_append seg_out_def BufferList_of_Buffer_def)

text \<open>The bytes of a serialized segment pass the checksum.\<close>

lemma TCPSegment_serialize_verifies:
  assumes "4 * unat (th_doff (seg_header seg)) + length (buf_str (seg_payload seg)) \<le> 65535"
    and "5 \<le> unat (th_doff (seg_header seg))" "unat c \<le> 0xfffff" "TCPSegment_serialize seg c = Inr bl"
  shows "ck_value (ck_add (InternetChecksum c) (concatenate bl)) = 0"
proof -
  define pad where "pad = replicate (4 * unat (th_doff (seg_header seg)) - 20) (0 :: u8)"
  define rest where "rest = pad @ buf_str (seg_payload seg)"
  obtain a b where ab: "length a = 16" "length b = 2"
    "\<And>v. tcp_fixed ((seg_header seg)\<lparr>th_cksum := v\<rparr>) = a @ be16 v @ b"
    using tcp_fixed_cksum [of "seg_header seg"] by auto
  define v where "v = ck_value (ck_add (InternetChecksum c) (a @ be16 0 @ b @ rest))"
  have "concatenate bl = a @ be16 v @ b @ rest"
    using assms(4) TCPSegment_serialize_eq [OF assms(2), of c]
    by (auto simp: seg_out_def ab(3) v_def rest_def pad_def)
  moreover have "ck_value (ck_add (InternetChecksum c) (a @ be16 v @ b @ rest)) = 0"
  proof (rule ck_insert_verifies)
    show "length a + length (b @ rest) \<le> 65533" using ab assms(1,2) by (simp add: rest_def pad_def)
  qed (use ab assms(3) in \<open>simp_all add: v_def\<close>)
  ultimately show ?thesis by simp
qed

lemma TCPSegment_parse_eq:
  assumes "ck_value (ck_add (InternetChecksum c) (buf_str buf)) = 0"
  shows "TCPSegment_parse seg buf c = rbind (TCPHeader_parse (seg_header seg) (NetParser buf)) (\<lambda>(h, p, _).
    Inr (seg\<lparr>seg_header := h, seg_payload := np_buffer p\<rparr>, np_error p))"
  using assms by (simp add: TCPSegment_parse_def)

text \<open>What \<open>parse\<close> makes of a buffer: the doff nibble decides where the payload starts.\<close>

definition wire_doff :: "bytes \<Rightarrow> nat" where
  "wire_doff s = unat (drop_bit 4 (s ! 12))"

lemma wire_doff_fields: "wire_doff (be16 a @ be16 b @ be32 c @ be32 d @ be8 e @ r) = unat (drop_bit 4 e)"
  by (simp add: wire_doff_def nth_append be8_def)

lemma TCPSegment_parse_returns:
  assumes ok: "buf_ok buf" and ck: "ck_value (ck_add (InternetChecksum c) (buf_str buf)) = 0"
  defines "s \<equiv> buf_str buf"
  defines "n \<equiv> max 20 (4 * wire_doff s)"
  shows "returns (TCPSegment_parse seg buf c) (\<lambda>(seg', r).
    (20 \<le> length s \<longrightarrow> tcp_wire s (seg_header seg')) \<and>
    (if n \<le> length s then r = NoError \<and> buf_str (seg_payload seg') = drop n s \<and> buf_ok (seg_payload seg')
     else r = PacketTooShort))"
proof (cases "20 \<le> length s")
  case False
  then have "length s < 20" by simp
  from TCPHeader_parse_short [OF np_at_buffer [OF ok] this [unfolded s_def], of "seg_header seg"] False
  show ?thesis unfolding TCPSegment_parse_eq [OF ck] n_def
    by (elim returns_bind) auto
next
  case True
  then obtain a b d e f g i j k rest where
    s: "s = be16 a @ be16 b @ be32 d @ be32 e @ be8 f @ be8 g @ be16 i @ be16 j @ be16 k @ rest"
    by (rule tcp_bytes_cases)
  let ?m = "4 * unat (drop_bit 4 f) - 20"
  have n: "n = 20 + ?m" unfolding n_def s wire_doff_fields by (simp add: max_def)
  define fixed where "fixed = be16 a @ be16 b @ be32 d @ be32 e @ be8 f @ be8 g @ be16 i @ be16 j @ be16 k"
  have "s = fixed @ rest" "length fixed = 20" by (simp_all add: s fixed_def)
  then have drop: "drop n s = drop ?m rest" "n \<le> length s \<longleftrightarrow> ?m \<le> length rest" by (simp_all add: n)
  have np: "np_at (NetParser buf) (be16 a @ be16 b @ be32 d @ be32 e @ be8 f @ be8 g @ be16 i @ be16 j @ be16 k @ rest)"
    using np_at_buffer [OF ok] unfolding s_def [symmetric] s .
  have wire: "tcp_wire s (tcp_fields (seg_header seg) a b d e f g i j k)" unfolding s by (rule tcp_fields_wire)
  show ?thesis unfolding TCPSegment_parse_eq [OF ck] drop
  proof (rule returns_bind [OF TCPHeader_parse_fields [OF np refl]], elim case_prodE, goal_cases)
    case (1 x h y p r)
    then have "h = tcp_fields (seg_header seg) a b d e f g i j k" by auto
    note h = wire [folded this]
    from 1 have "if ?m \<le> length rest then np_at p (drop ?m rest) else np_error p = PacketTooShort"
      by (auto split: if_splits)
    then show ?case using 1(1,2) h by (auto simp: np_at_def split: if_splits)
  qed
qed

lemma TCPSegment_parse_serialize:
  assumes "5 \<le> unat (th_doff (seg_header seg))" and "unat (th_doff (seg_header seg)) < 16"
    and "4 * unat (th_doff (seg_header seg)) + length (buf_str (seg_payload seg)) \<le> 65535"
    and "unat c \<le> 0xfffff" and "TCPSegment_serialize seg c = Inr bl" and "buf_ok buf" and "buf_str buf = concatenate bl"
  shows "returns (TCPSegment_parse seg0 buf c) (\<lambda>(seg', r). r = NoError \<and>
      seg_header seg' = seg_out seg c \<and> buf_str (seg_payload seg') = buf_str (seg_payload seg))"
proof -
  note ser = TCPSegment_serialize_eq [OF assms(1), of c]
  let ?out = "seg_out seg c" and ?pay = "buf_str (seg_payload seg)"
  define s where "s = tcp_fixed ?out @ replicate (4 * unat (th_doff ?out) - 20) 0"
  have d: "th_doff ?out = th_doff (seg_header seg)" by (simp add: seg_out_def)
  have fits: "tcp_fits ?out ?pay" "TCPHeader_serialize ?out = Inr s"
    using assms(1,2) by (simp_all add: tcp_fits_def d s_def TCPHeader_serialize_eq)
  have str: "buf_str buf = s @ ?pay" using assms(5,7) unfolding ser by (auto simp: s_def d)
  then have at: "np_at (NetParser buf) (s @ ?pay)" using np_at_buffer [OF assms(6)] by simp
  have ck: "ck_value (ck_add (InternetChecksum c) (buf_str buf)) = 0"
    using TCPSegment_serialize_verifies [OF assms(3,1,4,5)] assms(7) by simp
  show ?thesis
    unfolding TCPSegment_parse_eq [OF ck]
    by (rule returns_bind [OF tcp.prs_law [OF fits at]]) (auto simp: np_at_def)
qed

section \<open>Properties\<close>

text \<open>C26: A segment survives the trip over the wire. What \<open>serialize\<close> produces passes the checksum against
  the same pseudo-header, and \<open>parse\<close> gives back every header field, the checksum as computed,
  and the payload, whatever the receiving object held before.\<close>

theorem tcp_segment_roundtrip:
  assumes "5 \<le> unat (th_doff (seg_header seg))" and "unat (th_doff (seg_header seg)) < 16"
    and "4 * unat (th_doff (seg_header seg)) + length (buf_str (seg_payload seg)) \<le> 65535"
    and "unat c \<le> 0xfffff"
  shows "returns (rbind (TCPSegment_serialize seg c) (\<lambda>bl. TCPSegment_parse seg0 (Buffer (concatenate bl)) c))
    (\<lambda>(seg', r). r = NoError \<and> (\<exists>v. seg_header seg' = (seg_header seg)\<lparr>th_cksum := v\<rparr>) \<and>
       buf_str (seg_payload seg') = buf_str (seg_payload seg))"
proof -
  obtain bl where bl: "TCPSegment_serialize seg c = Inr bl" using TCPSegment_serialize_eq [OF assms(1)] by blast
  from TCPSegment_parse_serialize [OF assms bl, of "Buffer (concatenate bl)" seg0] show ?thesis
    by (auto simp: bl seg_out_def elim!: returns_mono)
qed

theorem tcp_segment_roundtrip_witness:
  "returns (rbind (TCPSegment_serialize \<lparr>seg_header = TCPHeader_default\<lparr>th_syn := True, th_win := 512\<rparr>, seg_payload = Buffer [1, 2, 3]\<rparr> 9)
      (\<lambda>bl. TCPSegment_parse TCPSegment_default (Buffer (concatenate bl)) 9))
    (\<lambda>(seg', r). r = NoError \<and>
      (\<exists>v. seg_header seg' = TCPHeader_default\<lparr>th_syn := True, th_win := 512, th_cksum := v\<rparr>) \<and>
      buf_str (seg_payload seg') = [1, 2, 3])"
  using tcp_segment_roundtrip [of "\<lparr>seg_header = TCPHeader_default\<lparr>th_syn := True, th_win := 512\<rparr>, seg_payload = Buffer [1, 2, 3]\<rparr>" 9 TCPSegment_default]
  by (simp add: TCPHeader_default_def TCPHeader_LENGTH_def)

text \<open>\<open>TCPHeader::serialize\<close> and \<open>parse\<close> are inverse and self-delimiting: two headers whose encodings
  start the same string are equal, and so is what follows them, for every data offset that
  fits its four bits.\<close>

theorem tcp_header_unambiguous:
  assumes "tcp_fits h rest" and "tcp_fits k rest'" and "TCPHeader_serialize h = Inr s"
    and "TCPHeader_serialize k = Inr t" and "s @ rest = t @ rest'"
  shows "h = k \<and> rest = rest'"
  using assms by (rule tcp.prefix_free)

theorem tcp_header_unambiguous_witness:
  "TCPHeader_default = TCPHeader_default \<and> [7 :: u8] = [7]"
  by (rule tcp_header_unambiguous [where s = "tcp_fixed TCPHeader_default" and t = "tcp_fixed TCPHeader_default"])
    (simp_all add: tcp_fits_def TCPHeader_serialize_eq TCPHeader_default_def TCPHeader_LENGTH_def)

text \<open>C30: \<open>TCPSegment::parse\<close> of any bytes never throws. A wrong checksum is reported and leaves the
  segment as it was. With a right one and at least 20 bytes, every header field and flag is what the bytes at
  its place say. The payload starts after the header length the segment claims, but not before byte 20; exactly
  when there are fewer bytes than that is \<open>PacketTooShort\<close> reported.\<close>

theorem tcp_segment_parse_correct:
  assumes "buf_ok buf" and "s = buf_str buf"
  shows "returns (TCPSegment_parse seg buf c) (\<lambda>(seg', r).
    if ck_value (ck_add (InternetChecksum c) s) \<noteq> 0 then r = BadChecksum \<and> seg' = seg
    else (20 \<le> length s \<longrightarrow> tcp_wire s (seg_header seg')) \<and>
      (if length s < max 20 (4 * wire_doff s) then r = PacketTooShort
       else r = NoError \<and> buf_str (seg_payload seg') = drop (max 20 (4 * wire_doff s)) s))"
proof (cases "ck_value (ck_add (InternetChecksum c) s) = 0")
  case True
  then show ?thesis
    using TCPSegment_parse_returns [OF assms(1), of c seg] unfolding assms(2)
    by (auto elim!: returns_mono simp: less_max_iff_disj split: if_splits)
qed (use assms(2) in \<open>simp add: TCPSegment_parse_def\<close>)

theorem tcp_segment_parse_correct_witness:
  "returns (TCPSegment_parse TCPSegment_default (Buffer [4, 0, 0, 80, 0, 0, 0, 7, 0, 0, 0, 0, 0x50, 0x02, 16, 0, 146, 166, 0, 0, 9]) 0)
     (\<lambda>(seg', r). r = NoError \<and> th_syn (seg_header seg') \<and> \<not> th_fin (seg_header seg') \<and> be16 (th_dport (seg_header seg')) = [0, 80] \<and>
        buf_str (seg_payload seg') = [9])"
proof -
  let ?s = "[4, 0, 0, 80, 0, 0, 0, 7, 0, 0, 0, 0, 0x50, 0x02, 16, 0, 146, 166, 0, 0, 9] :: bytes"
  have "ck_value (ck_add (InternetChecksum 0) ?s) = 0"
    by (simp add: ck_value_zero_iff ck_add_sum InternetChecksum_def)
  moreover have "wire_doff ?s = 5" by (simp add: wire_doff_def)
  ultimately show ?thesis
    using tcp_segment_parse_correct [of "Buffer ?s" ?s TCPSegment_default 0]
    by (auto elim!: returns_mono simp: tcp_wire_def)
qed

text \<open>C32: The header's own verdict is dropped: \<open>TCPSegment::parse\<close> ignores the \<open>ParseResult\<close> of
  \<open>TCPHeader::parse\<close>. A segment whose data offset is below the minimum of five words, which the
  header parser refuses as \<open>HeaderTooShort\<close>, is accepted with \<open>NoError\<close>.\<close>

theorem tcp_segment_short_doff_accepted:
  assumes "buf_ok buf" and "ck_value (ck_add (InternetChecksum c) (buf_str buf)) = 0"
    and "20 \<le> length (buf_str buf)" and "wire_doff (buf_str buf) < 5"
  shows "returns (TCPHeader_parse h (NetParser buf)) (\<lambda>(_, _, r). r = HeaderTooShort) \<and>
    returns (TCPSegment_parse seg buf c) (\<lambda>(_, r). r = NoError)"
proof
  from assms(3) obtain a b d e f g i j k rest where
    s: "buf_str buf = be16 a @ be16 b @ be32 d @ be32 e @ be8 f @ be8 g @ be16 i @ be16 j @ be16 k @ rest"
    by (rule tcp_bytes_cases)
  have "unat (drop_bit 4 f) < 5" using assms(4) unfolding s wire_doff_fields .
  then show "returns (TCPHeader_parse h (NetParser buf)) (\<lambda>(_, _, r). r = HeaderTooShort)"
    by (intro returns_mono [OF TCPHeader_parse_fields [OF np_at_buffer [OF assms(1), unfolded s] refl]]) auto
  have "max 20 (4 * wire_doff (buf_str buf)) \<le> length (buf_str buf)" using assms(3,4) by simp
  then show "returns (TCPSegment_parse seg buf c) (\<lambda>(_, r). r = NoError)"
    by (intro returns_mono [OF TCPSegment_parse_returns [OF assms(1,2)]]) auto
qed

theorem tcp_segment_short_doff_accepted_witness:
  "returns (TCPHeader_parse TCPHeader_default (NetParser (Buffer [255, 255, 0, 0, 0, 0, 0, 0, 0, 0, 0, 0, 0, 0, 0, 0, 0, 0, 0, 0]))) (\<lambda>(_, _, r). r = HeaderTooShort) \<and>
   returns (TCPSegment_parse TCPSegment_default (Buffer [255, 255, 0, 0, 0, 0, 0, 0, 0, 0, 0, 0, 0, 0, 0, 0, 0, 0, 0, 0]) 0) (\<lambda>(_, r). r = NoError)"
  by (rule tcp_segment_short_doff_accepted)
    (simp_all add: ck_value_zero_iff ck_add_sum InternetChecksum_def wire_doff_def)

end
