(* ===== verification/Byte_Stream.thy ===== *)
theory Byte_Stream
  imports Sponge_Prelude
begin

text \<open>
  \<^verbatim>\<open>libsponge/byte_stream.hh\<close> and \<^verbatim>\<open>.cc\<close>: the flow-controlled byte stream and the ring
  buffer (\<open>ByteStream::RingBuffer\<close>) it is built on. The ring buffer keeps its bytes in a
  string of fixed length, from position \<open>front\<close> on and around its end. Its abstraction
  \<open>rb_contents\<close> is the list of buffered bytes; every operation is shown to return normally
  and to act on that list as a bounded queue would. The locale \<open>bounded_queue\<close> lifts this from the
  operations to all runs.
\<close>

section \<open>RingBuffer\<close>

record ring_buffer =
  rb_front :: size_t
  rb_size :: size_t
  rb_capacity :: size_t
  rb_queue :: bytes

definition RingBuffer :: "size_t \<Rightarrow> ring_buffer" where
  "RingBuffer k = \<lparr>rb_front = 0, rb_size = 0, rb_capacity = k, rb_queue = replicate k 0\<rparr>"

definition push_back_n :: "ring_buffer \<Rightarrow> bytes \<Rightarrow> size_t \<Rightarrow> ring_buffer res" where
  "push_back_n rb s len =
     (if rb_capacity rb = 0 then Inl DivisionByZero
      else
        let start = u64_add (rb_front rb) (rb_size rb) mod rb_capacity rb;
            len_to_end = min len (u64_sub (rb_capacity rb) start)
        in rbind (string_replace (rb_queue rb) start len_to_end s 0 len_to_end)
             (\<lambda>q. rbind (string_replace q 0 (u64_sub len len_to_end) s len_to_end
                           (u64_sub len len_to_end))
               (\<lambda>q'. Inr (rb\<lparr>rb_queue := q', rb_size := u64_add (rb_size rb) len\<rparr>))))"

definition pop_front_n :: "ring_buffer \<Rightarrow> size_t \<Rightarrow> ring_buffer res" where
  "pop_front_n rb n =
     (if rb_capacity rb = 0 then Inl DivisionByZero
      else Inr (rb\<lparr>rb_front := u64_add (rb_front rb) n mod rb_capacity rb,
                   rb_size := u64_sub (rb_size rb) n\<rparr>))"

definition peek_front_n :: "ring_buffer \<Rightarrow> size_t \<Rightarrow> bytes res" where
  "peek_front_n rb len =
     (let len_to_end = min len (u64_sub (rb_capacity rb) (rb_front rb))
      in rbind (string_substr (rb_queue rb) (rb_front rb) len_to_end)
           (\<lambda>s. if max_string < len then Inl (LengthError ''basic_string::_M_create'')
             else rbind (string_substr (rb_queue rb) 0 (u64_sub len len_to_end))
               (\<lambda>s'. Inr (s @ s'))))"

definition rb_empty :: "ring_buffer \<Rightarrow> bool" where
  "rb_empty rb \<longleftrightarrow> rb_size rb = 0"

definition rb_full :: "ring_buffer \<Rightarrow> bool" where
  "rb_full rb \<longleftrightarrow> rb_size rb = rb_capacity rb"

definition rb_remaining_capacity :: "ring_buffer \<Rightarrow> size_t" where
  "rb_remaining_capacity rb = u64_sub (rb_capacity rb) (rb_size rb)"

section \<open>ByteStream\<close>

record byte_stream =
  bs_rb :: ring_buffer
  bs_total_read :: size_t
  bs_total_write :: size_t
  bs_error :: bool
  bs_eof_input :: bool

definition ByteStream :: "size_t \<Rightarrow> byte_stream" where
  "ByteStream capacity =
     \<lparr>bs_rb = RingBuffer capacity, bs_total_read = 0, bs_total_write = 0,
      bs_error = False, bs_eof_input = False\<rparr>"

definition ByteStream_write :: "byte_stream \<Rightarrow> bytes \<Rightarrow> (byte_stream \<times> size_t) res" where
  "ByteStream_write bs data =
     (let size = min (length data) (rb_remaining_capacity (bs_rb bs))
      in rbind (push_back_n (bs_rb bs) data size)
           (\<lambda>rb. Inr (bs\<lparr>bs_rb := rb, bs_total_write := u64_add (bs_total_write bs) size\<rparr>, size)))"

definition peek_output :: "byte_stream \<Rightarrow> size_t \<Rightarrow> bytes res" where
  "peek_output bs len = peek_front_n (bs_rb bs) len"

definition pop_output :: "byte_stream \<Rightarrow> size_t \<Rightarrow> byte_stream res" where
  "pop_output bs len =
     rbind (pop_front_n (bs_rb bs) len)
       (\<lambda>rb. Inr (bs\<lparr>bs_rb := rb, bs_total_read := u64_add (bs_total_read bs) len\<rparr>))"

definition ByteStream_read :: "byte_stream \<Rightarrow> size_t \<Rightarrow> (byte_stream \<times> bytes) res" where
  "ByteStream_read bs len =
     rbind (peek_output bs len) (\<lambda>ans. rbind (pop_output bs len) (\<lambda>bs'. Inr (bs', ans)))"

definition end_input :: "byte_stream \<Rightarrow> byte_stream" where
  "end_input bs = bs\<lparr>bs_eof_input := True\<rparr>"

definition set_error :: "byte_stream \<Rightarrow> byte_stream" where
  "set_error bs = bs\<lparr>bs_error := True\<rparr>"

definition input_ended :: "byte_stream \<Rightarrow> bool" where
  "input_ended bs = bs_eof_input bs"

definition buffer_size :: "byte_stream \<Rightarrow> size_t" where
  "buffer_size bs = rb_size (bs_rb bs)"

definition buffer_empty :: "byte_stream \<Rightarrow> bool" where
  "buffer_empty bs = rb_empty (bs_rb bs)"

definition ByteStream_eof :: "byte_stream \<Rightarrow> bool" where
  "ByteStream_eof bs \<longleftrightarrow> input_ended bs \<and> bs_total_read bs = bs_total_write bs"

definition bytes_written :: "byte_stream \<Rightarrow> size_t" where
  "bytes_written bs = bs_total_write bs"

definition bytes_read :: "byte_stream \<Rightarrow> size_t" where
  "bytes_read bs = bs_total_read bs"

definition remaining_capacity :: "byte_stream \<Rightarrow> size_t" where
  "remaining_capacity bs = rb_remaining_capacity (bs_rb bs)"

section \<open>The ring buffer is a bounded queue\<close>

definition rb_inv :: "ring_buffer \<Rightarrow> bool" where
  "rb_inv rb \<longleftrightarrow> 0 < rb_capacity rb \<and> rb_capacity rb \<le> max_string \<and>
     length (rb_queue rb) = rb_capacity rb \<and> rb_front rb < rb_capacity rb \<and>
     rb_size rb \<le> rb_capacity rb"

definition rb_contents :: "ring_buffer \<Rightarrow> bytes" where
  "rb_contents rb =
     map (\<lambda>i. rb_queue rb ! ((rb_front rb + i) mod rb_capacity rb)) [0..<rb_size rb]"

lemma length_rb_contents [simp]: "length (rb_contents rb) = rb_size rb"
  by (simp add: rb_contents_def)

lemma rb_contents_nth:
  "i < rb_size rb \<Longrightarrow> rb_contents rb ! i = rb_queue rb ! ((rb_front rb + i) mod rb_capacity rb)"
  by (simp add: rb_contents_def)

lemma RingBuffer_inv: "0 < k \<Longrightarrow> k \<le> max_string \<Longrightarrow> rb_inv (RingBuffer k)"
  by (simp add: RingBuffer_def rb_inv_def)

lemma RingBuffer_contents [simp]: "rb_contents (RingBuffer k) = []"
  by (simp add: RingBuffer_def rb_contents_def)

text \<open>The queue string after the two \<open>replace\<close> calls of \<open>push_back_n\<close>.\<close>

definition ring_written :: "bytes \<Rightarrow> size_t \<Rightarrow> bytes \<Rightarrow> size_t \<Rightarrow> bytes" where
  "ring_written q st s len =
     (let l1 = min len (length q - st); q1 = take st q @ take l1 s @ drop (st + l1) q
      in take (len - l1) (drop l1 s) @ drop (len - l1) q1)"

lemma length_ring_written:
  assumes "st < length q" "len \<le> length s" "len \<le> length q"
  shows "length (ring_written q st s len) = length q"
proof (cases "len \<le> length q - st")
  case True
  then show ?thesis using assms by (simp add: ring_written_def)
next
  case False
  then have "min len (length q - st) = length q - st" by simp
  with False show ?thesis using assms by (simp add: ring_written_def Let_def)
qed

lemma ring_written_nth:
  assumes "st < length q" "len \<le> length s" "len \<le> length q" "k < length q"
  shows "ring_written q st s len ! k =
    (if st \<le> k \<and> k < st + len then s ! (k - st)
     else if k + length q < st + len then s ! (k + length q - st) else q ! k)"
proof (cases "st + len \<le> length q")
  case True
  then have "min len (length q - st) = len" using assms by simp
  then show ?thesis using assms True
    by (auto simp: ring_written_def Let_def nth_append)
next
  case False
  then have "min len (length q - st) = length q - st" using assms by simp
  then show ?thesis using assms False
    by (auto simp: ring_written_def Let_def nth_append algebra_simps)
qed

lemma push_back_n_eq:
  assumes "rb_inv rb" "len \<le> length s" "rb_size rb + len \<le> rb_capacity rb"
  shows "push_back_n rb s len =
    Inr (rb\<lparr>rb_queue := ring_written (rb_queue rb) ((rb_front rb + rb_size rb) mod rb_capacity rb) s len,
            rb_size := rb_size rb + len\<rparr>)"
proof -
  have inv: "0 < rb_capacity rb" "length (rb_queue rb) = rb_capacity rb" "rb_capacity rb \<le> max_string"
    "rb_front rb < rb_capacity rb" using assms(1) by (simp_all add: rb_inv_def)
  define st where "st = (rb_front rb + rb_size rb) mod rb_capacity rb"
  define l1 where "l1 = min len (rb_capacity rb - st)"
  define q1 where "q1 = take st (rb_queue rb) @ take l1 s @ drop (st + l1) (rb_queue rb)"
  have st: "st < rb_capacity rb" using inv by (simp add: st_def)
  have "u64_add (rb_front rb) (rb_size rb) = rb_front rb + rb_size rb"
    "u64_add (rb_size rb) len = rb_size rb + len" "u64_sub (rb_capacity rb) st = rb_capacity rb - st"
    "u64_sub len l1 = len - l1" using inv assms(3) st by (simp_all add: l1_def)
  moreover have "string_replace (rb_queue rb) st l1 s 0 l1 = Inr q1"
    using inv st by (simp add: string_replace_def q1_def)
  moreover have "string_replace q1 0 (len - l1) s l1 (len - l1) =
      Inr (ring_written (rb_queue rb) st s len)"
    using inv assms(2) by (simp add: string_replace_def ring_written_def Let_def q1_def l1_def)
  ultimately show ?thesis using inv(1)
    by (simp add: push_back_n_def Let_def st_def [symmetric] l1_def [symmetric])
qed

lemma ring_index_kept:
  fixes c :: nat
  assumes "f < c" "n + len \<le> c" "i < n"
  shows "\<not> ((f + n) mod c \<le> (f + i) mod c \<and> (f + i) mod c < (f + n) mod c + len)"
    and "\<not> (f + i) mod c + c < (f + n) mod c + len"
proof -
  have "(f + i) mod c = (if f + i < c then f + i else f + i - c)"
    "(f + n) mod c = (if f + n < c then f + n else f + n - c)" using assms by (simp_all add: mod_wrap)
  with assms show "\<not> ((f + n) mod c \<le> (f + i) mod c \<and> (f + i) mod c < (f + n) mod c + len)"
    "\<not> (f + i) mod c + c < (f + n) mod c + len"
    by (auto split: if_splits)
qed

lemma ring_index_new:
  fixes c :: nat
  assumes "f < c" "n + j < c"
  shows "(f + (n + j)) mod c = (if (f + n) mod c + j < c then (f + n) mod c + j else (f + n) mod c + j - c)"
  using assms mod_wrap [of "(f + n) mod c" c j] by (simp add: mod_simps add.assoc)

lemma rb_contents_push:
  assumes inv: "rb_inv rb" and len: "len \<le> length s" "rb_size rb + len \<le> rb_capacity rb"
  shows "rb_contents (rb\<lparr>rb_queue := ring_written (rb_queue rb) ((rb_front rb + rb_size rb) mod rb_capacity rb) s len,
            rb_size := rb_size rb + len\<rparr>) = rb_contents rb @ take len s" (is "rb_contents ?rb = _")
proof (rule nth_equalityI)
  show "length (rb_contents ?rb) = length (rb_contents rb @ take len s)" using len by simp
next
  fix i assume "i < length (rb_contents ?rb)"
  then have i: "i < rb_size rb + len" by simp
  define c f n where "c = rb_capacity rb" and "f = rb_front rb" and "n = rb_size rb"
  note cfn = c_def [symmetric] f_def [symmetric] n_def [symmetric]
  have I: "f < c" "n \<le> c" "n + len \<le> c" "i < n + len" "length (rb_queue rb) = c" "0 < c"
    using inv len i by (simp_all add: rb_inv_def c_def f_def n_def)
  have st: "(f + n) mod c < c" "(f + i) mod c < c" using I by simp_all
  have "rb_contents ?rb ! i = ring_written (rb_queue rb) ((f + n) mod c) s len ! ((f + i) mod c)"
    using i by (simp add: rb_contents_nth cfn)
  also have "\<dots> = (if i < n then rb_queue rb ! ((f + i) mod c) else s ! (i - n))"
  proof (cases "i < n")
    case True
    with ring_index_kept [OF I(1,3) True] show ?thesis
      using I len(1) st by (auto simp: ring_written_nth)
  next
    case False
    then obtain j where j: "i = n + j" "j < len" using I(4) by (metis add_less_cancel_left le_iff_add not_less)
    define S where "S = (f + n) mod c"
    have k: "(f + i) mod c = (if S + j < c then S + j else S + j - c)"
      using I j ring_index_new [of f c n j] by (simp add: S_def)
    have "S < c" using I by (simp add: S_def)
    with False j I len(1) show ?thesis
      unfolding k S_def [symmetric] by (subst ring_written_nth) (auto simp: algebra_simps)
  qed
  also have "\<dots> = (rb_contents rb @ take len s) ! i"
    using i by (simp add: nth_append rb_contents_nth cfn)
  finally show "rb_contents ?rb ! i = (rb_contents rb @ take len s) ! i" .
qed

lemma push_back_n_returns [returns_intro]:
  assumes "rb_inv rb" "len \<le> length s" "rb_size rb + len \<le> rb_capacity rb"
  shows "returns (push_back_n rb s len) (\<lambda>rb'. rb_inv rb' \<and> rb_capacity rb' = rb_capacity rb \<and>
    rb_contents rb' = rb_contents rb @ take len s)"
  using assms rb_contents_push [OF assms]
  by (simp add: push_back_n_eq) (simp add: rb_inv_def length_ring_written)

lemma pop_front_n_returns [returns_intro]:
  assumes inv: "rb_inv rb" and n: "n \<le> rb_size rb"
  shows "returns (pop_front_n rb n) (\<lambda>rb'. rb_inv rb' \<and> rb_capacity rb' = rb_capacity rb \<and>
    rb_contents rb' = drop n (rb_contents rb))"
proof -
  have I: "0 < rb_capacity rb" "rb_front rb + n < U64" "rb_size rb - n \<le> rb_capacity rb"
    using assms unfolding rb_inv_def by linarith+
  let ?rb = "rb\<lparr>rb_front := (rb_front rb + n) mod rb_capacity rb, rb_size := rb_size rb - n\<rparr>"
  have "pop_front_n rb n = Inr ?rb" using I n by (simp add: pop_front_n_def)
  moreover have "rb_contents ?rb = drop n (rb_contents rb)"
    by (rule nth_equalityI) (simp_all add: rb_contents_nth mod_simps add.assoc)
  moreover have "rb_inv ?rb" using inv I by (simp add: rb_inv_def)
  ultimately show ?thesis by simp
qed

lemma peek_front_n_returns [returns_intro]:
  assumes inv: "rb_inv rb" and n: "n \<le> rb_size rb"
  shows "returns (peek_front_n rb n) (\<lambda>s. s = take n (rb_contents rb))"
proof -
  have I: "rb_front rb < rb_capacity rb" "length (rb_queue rb) = rb_capacity rb" "n \<le> rb_capacity rb" "n \<le> max_string"
    using assms by (simp_all add: rb_inv_def)
  define l1 where "l1 = min n (rb_capacity rb - rb_front rb)"
  have "take l1 (drop (rb_front rb) (rb_queue rb)) @ take (n - l1) (rb_queue rb) = take n (rb_contents rb)"
  proof (rule nth_equalityI)
    show "length (take l1 (drop (rb_front rb) (rb_queue rb)) @ take (n - l1) (rb_queue rb)) =
      length (take n (rb_contents rb))" using I n by (simp add: l1_def)
  next
    fix i assume "i < length (take l1 (drop (rb_front rb) (rb_queue rb)) @ take (n - l1) (rb_queue rb))"
    then have i: "i < n" using I by (simp add: l1_def)
    then have "(rb_front rb + i) mod rb_capacity rb =
        (if i < l1 then rb_front rb + i else i - l1)"
      using I mod_wrap [of "rb_front rb" "rb_capacity rb" i] by (auto simp: l1_def)
    with i n I show "(take l1 (drop (rb_front rb) (rb_queue rb)) @ take (n - l1) (rb_queue rb)) ! i =
        take n (rb_contents rb) ! i"
      by (simp add: nth_append rb_contents_nth l1_def)
  qed
  moreover have "u64_sub (rb_capacity rb) (rb_front rb) = rb_capacity rb - rb_front rb"
    "u64_sub n l1 = n - l1" using I by (simp_all add: l1_def)
  ultimately show ?thesis using I
    by (simp add: peek_front_n_def Let_def l1_def [symmetric])
qed

section \<open>The byte stream\<close>

definition bs_capacity :: "byte_stream \<Rightarrow> size_t" where
  "bs_capacity bs = rb_capacity (bs_rb bs)"

definition bs_contents :: "byte_stream \<Rightarrow> bytes" where
  "bs_contents bs = rb_contents (bs_rb bs)"

text \<open>The counters count modulo 2^64; their difference is always the number of buffered bytes.\<close>

definition bs_inv :: "byte_stream \<Rightarrow> bool" where
  "bs_inv bs \<longleftrightarrow> rb_inv (bs_rb bs) \<and> bs_total_read bs < U64 \<and>
     bs_total_write bs = u64_add (bs_total_read bs) (buffer_size bs)"

named_theorems stream_defs
lemmas [stream_defs] = bs_inv_def bs_capacity_def bs_contents_def buffer_size_def
  remaining_capacity_def bytes_written_def bytes_read_def

lemma length_bs_contents [simp]: "length (bs_contents bs) = buffer_size bs"
  by (simp add: stream_defs)

lemma ByteStream_inv: "0 < k \<Longrightarrow> k \<le> max_string \<Longrightarrow> bs_inv (ByteStream k)"
  by (simp add: ByteStream_def stream_defs RingBuffer_inv) (simp add: RingBuffer_def)

lemma ByteStream_fresh [simp]:
  "bs_contents (ByteStream k) = []" "bs_capacity (ByteStream k) = k"
  by (simp_all add: ByteStream_def stream_defs) (simp add: RingBuffer_def)

lemma bs_inv_bounds:
  assumes "bs_inv bs"
  shows "buffer_size bs \<le> bs_capacity bs" "bs_capacity bs \<le> max_string" "0 < bs_capacity bs"
    "bs_total_write bs < U64" "remaining_capacity bs = bs_capacity bs - buffer_size bs"
  using assms by (auto simp: stream_defs rb_inv_def rb_remaining_capacity_def)

lemma ByteStream_write_returns [returns_intro]:
  assumes inv: "bs_inv bs"
  shows "returns (ByteStream_write bs data) (\<lambda>(bs', n).
    n = min (length data) (remaining_capacity bs) \<and> bs_inv bs' \<and>
    bs_contents bs' = bs_contents bs @ take n data \<and> bs_capacity bs' = bs_capacity bs \<and>
    bs_total_write bs' = u64_add (bs_total_write bs) n \<and> bs_total_read bs' = bs_total_read bs \<and>
    bs_eof_input bs' = bs_eof_input bs \<and> bs_error bs' = bs_error bs)"
proof -
  define n where "n = min (length data) (rb_remaining_capacity (bs_rb bs))"
  have rb: "rb_inv (bs_rb bs)" using inv by (simp add: bs_inv_def)
  then have n: "n \<le> length data" "rb_size (bs_rb bs) + n \<le> rb_capacity (bs_rb bs)"
    by (auto simp: n_def rb_remaining_capacity_def rb_inv_def)
  from push_back_n_returns [OF rb n] obtain rb' where
    p: "push_back_n (bs_rb bs) data n = Inr rb'" and
    rb': "rb_inv rb'" "rb_capacity rb' = rb_capacity (bs_rb bs)"
      "rb_contents rb' = rb_contents (bs_rb bs) @ take n data"
    by (auto simp: returns_iff)
  from rb'(3) have "rb_size rb' = rb_size (bs_rb bs) + n" "rb_size (bs_rb bs) + n < U64"
    using n rb by (auto dest: arg_cong [where f = length] simp: rb_inv_def)
  then have "u64_add (bs_total_write bs) n = u64_add (bs_total_read bs) (rb_size rb')"
    using inv by (simp add: bs_inv_def buffer_size_def u64_add_assoc)
  with p rb' inv show ?thesis
    by (simp add: ByteStream_write_def Let_def n_def [symmetric] stream_defs)
qed

lemma peek_output_returns:
  assumes "bs_inv bs" and "n \<le> buffer_size bs"
  shows "peek_output bs n = Inr (take n (bs_contents bs))"
  using peek_front_n_returns [of "bs_rb bs" n] assms by (simp add: peek_output_def stream_defs returns_iff)

lemma pop_output_returns [returns_intro]:
  assumes inv: "bs_inv bs" and n: "n \<le> buffer_size bs"
  shows "returns (pop_output bs n) (\<lambda>bs'. bs_inv bs' \<and>
    bs_contents bs' = drop n (bs_contents bs) \<and> bs_capacity bs' = bs_capacity bs \<and>
    bs_total_read bs' = u64_add (bs_total_read bs) n \<and> bs_total_write bs' = bs_total_write bs \<and>
    bs_eof_input bs' = bs_eof_input bs \<and> bs_error bs' = bs_error bs)"
proof -
  have rb: "rb_inv (bs_rb bs)" "n \<le> rb_size (bs_rb bs)"
    using inv n by (simp_all add: stream_defs)
  from pop_front_n_returns [OF rb] obtain rb' where
    p: "pop_front_n (bs_rb bs) n = Inr rb'" and
    rb': "rb_inv rb'" "rb_capacity rb' = rb_capacity (bs_rb bs)"
      "rb_contents rb' = drop n (rb_contents (bs_rb bs))"
    by (auto simp: returns_iff)
  from rb'(3) have "rb_size rb' = rb_size (bs_rb bs) - n" "n + rb_size rb' < U64"
    using rb by (auto dest: arg_cong [where f = length] simp: rb_inv_def)
  then have "u64_add (bs_total_read bs) (rb_size (bs_rb bs)) =
      u64_add (u64_add (bs_total_read bs) n) (rb_size rb')"
    using rb(2) by (simp add: u64_add_assoc)
  with p rb' inv show ?thesis
    by (simp add: pop_output_def stream_defs)
qed

lemma ByteStream_read_returns [returns_intro]:
  assumes "bs_inv bs" and "n \<le> buffer_size bs"
  shows "returns (ByteStream_read bs n) (\<lambda>(bs', ans).
    ans = take n (bs_contents bs) \<and> bs_inv bs' \<and>
    bs_contents bs' = drop n (bs_contents bs) \<and> bs_capacity bs' = bs_capacity bs \<and>
    bs_total_read bs' = u64_add (bs_total_read bs) n \<and> bs_total_write bs' = bs_total_write bs \<and>
    bs_eof_input bs' = bs_eof_input bs \<and> bs_error bs' = bs_error bs)"
  using pop_output_returns [OF assms] peek_output_returns [OF assms] by (auto simp: ByteStream_read_def returns_iff)

lemma ByteStream_eof_iff:
  assumes "bs_inv bs"
  shows "ByteStream_eof bs \<longleftrightarrow> input_ended bs \<and> bs_contents bs = []"
proof -
  have r: "bs_total_read bs < U64" "buffer_size bs < U64"
    using assms bs_inv_bounds [OF assms] by (simp_all add: bs_inv_def)
  have "bs_total_read bs = bs_total_write bs \<longleftrightarrow> u64_add 0 (bs_total_read bs) = u64_add (buffer_size bs) (bs_total_read bs)"
    using assms r by (simp add: bs_inv_def u64_add_commute)
  also have "\<dots> \<longleftrightarrow> buffer_size bs = 0" using r by (subst u64_add_inj) auto
  also have "\<dots> \<longleftrightarrow> bs_contents bs = []" by (metis length_0_conv length_bs_contents)
  finally show ?thesis by (simp add: ByteStream_eof_def)
qed

lemma buffer_empty_iff: "buffer_empty bs \<longleftrightarrow> buffer_size bs = 0"
  by (simp add: buffer_empty_def rb_empty_def buffer_size_def)

text \<open>Ending the input and marking an error touch nothing but their flag.\<close>

lemma stream_flags [simp]:
  "bs_inv (end_input bs) = bs_inv bs" "bs_inv (set_error bs) = bs_inv bs"
  "bs_contents (end_input bs) = bs_contents bs" "bs_contents (set_error bs) = bs_contents bs"
  "bs_capacity (end_input bs) = bs_capacity bs" "bs_capacity (set_error bs) = bs_capacity bs"
  "buffer_size (end_input bs) = buffer_size bs" "buffer_size (set_error bs) = buffer_size bs"
  "input_ended (end_input bs)" "input_ended (set_error bs) = input_ended bs"
  "remaining_capacity (end_input bs) = remaining_capacity bs" "remaining_capacity (set_error bs) = remaining_capacity bs"
  "bs_eof_input (end_input bs)" "bs_eof_input (set_error bs) = bs_eof_input bs"
  "bs_error (end_input bs) = bs_error bs" "bs_error (set_error bs)"
  by (simp_all add: end_input_def set_error_def stream_defs input_ended_def)

section \<open>The contract of a byte stream\<close>

text \<open>A bounded queue of bytes that the writer can end, as an abstract machine: the state is the queued bytes and
  whether the input has ended, and every operation has an answer. A queue of capacity \<open>k\<close> accepts exactly
  what fits. It allows to peek at, pop or read no more than is queued, which is what every caller in the library
  asks for; the code does not check it.\<close>

datatype stream_op = Write bytes | PeekOut size_t | PopOut size_t | Read size_t | EndInput

datatype stream_answer = Accepted size_t | Bytes bytes | Finished

type_synonym byte_queue = "bytes \<times> bool"

fun queue_step :: "nat \<Rightarrow> byte_queue \<Rightarrow> stream_op \<Rightarrow> byte_queue \<times> stream_answer" where
  "queue_step k (q, e) (Write d) = ((q @ take (k - length q) d, e), Accepted (min (length d) (k - length q)))"
| "queue_step k (q, e) (PeekOut n) = ((q, e), Bytes (take n q))"
| "queue_step k (q, e) (PopOut n) = ((drop n q, e), Finished)"
| "queue_step k (q, e) (Read n) = ((drop n q, e), Bytes (take n q))"
| "queue_step k (q, e) EndInput = ((q, True), Finished)"

fun queue_allows :: "byte_queue \<Rightarrow> stream_op \<Rightarrow> bool" where
  "queue_allows (q, e) (PeekOut n) = (n \<le> length q)"
| "queue_allows (q, e) (PopOut n) = (n \<le> length q)"
| "queue_allows (q, e) (Read n) = (n \<le> length q)"
| "queue_allows (q, e) _ = True"

fun queue_run :: "nat \<Rightarrow> byte_queue \<Rightarrow> stream_op list \<Rightarrow> byte_queue \<times> stream_answer list" where
  "queue_run k q [] = (q, [])"
| "queue_run k q (op # ops) =
     (let (q, answer) = queue_step k q op; (q, answers) = queue_run k q ops in (q, answer # answers))"

fun queue_allows_all :: "nat \<Rightarrow> byte_queue \<Rightarrow> stream_op list \<Rightarrow> bool" where
  "queue_allows_all k q [] = True"
| "queue_allows_all k q (op # ops) \<longleftrightarrow> queue_allows q op \<and> queue_allows_all k (fst (queue_step k q op)) ops"

text \<open>The stream under the same operations.\<close>

fun stream_step :: "byte_stream \<Rightarrow> stream_op \<Rightarrow> (byte_stream \<times> stream_answer) res" where
  "stream_step bs (Write d) = rbind (ByteStream_write bs d) (\<lambda>(bs, n). Inr (bs, Accepted n))"
| "stream_step bs (PeekOut n) = rbind (peek_output bs n) (\<lambda>s. Inr (bs, Bytes s))"
| "stream_step bs (PopOut n) = rbind (pop_output bs n) (\<lambda>bs. Inr (bs, Finished))"
| "stream_step bs (Read n) = rbind (ByteStream_read bs n) (\<lambda>(bs, s). Inr (bs, Bytes s))"
| "stream_step bs EndInput = Inr (end_input bs, Finished)"

fun stream_run :: "('s \<Rightarrow> stream_op \<Rightarrow> ('s \<times> stream_answer) res) \<Rightarrow> 's \<Rightarrow> stream_op list \<Rightarrow> ('s \<times> stream_answer list) res" where
  "stream_run step s [] = Inr (s, [])"
| "stream_run step s (op # ops) =
     rbind (step s op) (\<lambda>(s, answer). rbind (stream_run step s ops) (\<lambda>(s, answers). Inr (s, answer # answers)))"

text \<open>What implements a queue step by step implements it on every run, answers included.\<close>

locale bounded_queue =
  fixes inv :: "'s \<Rightarrow> bool" and queue :: "'s \<Rightarrow> byte_queue" and cap :: "'s \<Rightarrow> size_t"
    and step :: "'s \<Rightarrow> stream_op \<Rightarrow> ('s \<times> stream_answer) res"
  assumes step_law: "inv s \<Longrightarrow> queue_allows (queue s) op \<Longrightarrow>
      returns (step s op) (\<lambda>(s', answer). inv s' \<and> cap s' = cap s \<and> (queue s', answer) = queue_step (cap s) (queue s) op)"
begin

lemma run_law:
  assumes "inv s" and "queue_allows_all (cap s) (queue s) ops"
  shows "returns (stream_run step s ops) (\<lambda>(s', answers). inv s' \<and> cap s' = cap s \<and>
    (queue s', answers) = queue_run (cap s) (queue s) ops)"
  using assms
proof (induction ops arbitrary: s)
  case (Cons op ops)
  have "queue_allows (queue s) op" using Cons.prems(2) by simp
  from step_law [OF Cons.prems(1) this] obtain s1 answer where
    s1: "step s op = Inr (s1, answer)" "inv s1" "cap s1 = cap s" "queue_step (cap s) (queue s) op = (queue s1, answer)"
    by (auto simp: returns_iff)
  have "queue_allows_all (cap s1) (queue s1) ops" using Cons.prems(2) s1(3,4) by simp
  from Cons.IH [OF s1(2) this] obtain s2 answers where
    "stream_run step s1 ops = Inr (s2, answers)" "inv s2" "cap s2 = cap s" "queue_run (cap s) (queue s1) ops = (queue s2, answers)"
    using s1(3) by (auto simp: returns_iff)
  then show ?case using s1 by simp
qed simp

end

abbreviation bs_queue :: "byte_stream \<Rightarrow> byte_queue" where
  "bs_queue bs \<equiv> (bs_contents bs, input_ended bs)"

interpretation bs: bounded_queue bs_inv bs_queue bs_capacity stream_step
proof (unfold_locales, goal_cases)
  case (1 s op)
  note inv = 1(1) and allowed = 1(2) and bounds = bs_inv_bounds(5) [OF 1(1)]
  show ?case
  proof (cases op)
    case (Write d)
    have "take (min (length d) n) d = take n d" for n by (simp add: min_def)
    then show ?thesis unfolding Write stream_step.simps
      by (intro returns_bind [OF ByteStream_write_returns [OF inv]]) (auto simp: bounds input_ended_def)
  next
    case (PeekOut n)
    then show ?thesis using peek_output_returns [OF inv] inv allowed by simp
  next
    case (PopOut n)
    have "n \<le> buffer_size s" using allowed PopOut by simp
    then show ?thesis unfolding PopOut stream_step.simps
      by (intro returns_bind [OF pop_output_returns [OF inv]]) (auto simp: input_ended_def)
  next
    case (Read n)
    have "n \<le> buffer_size s" using allowed Read by simp
    then show ?thesis unfolding Read stream_step.simps
      by (intro returns_bind [OF ByteStream_read_returns [OF inv]]) (auto simp: input_ended_def)
  next
    case EndInput
    then show ?thesis using inv by simp
  qed
qed

section \<open>Properties\<close>

text \<open>C37: A byte stream implements a bounded queue. Under any sequence of writes, peeks, pops, reads and the end of the
  input in which none asks for more than is buffered, a new stream gives the same answers as the
  abstract queue of its capacity, the number of bytes it accepts included, and ends with the same bytes and flag;
  \<open>eof\<close>, \<open>buffer_size\<close> and \<open>remaining_capacity\<close> agree with them. Nothing throws or divides by zero. The proof
  rests on the ring buffer's index arithmetic.\<close>

theorem byte_stream_fifo:
  assumes "0 < k" and "k \<le> max_string" and "queue_allows_all k ([], False) ops"
  shows "returns (stream_run stream_step (ByteStream k) ops) (\<lambda>(bs, answers).
    ((bs_contents bs, input_ended bs), answers) = queue_run k ([], False) ops \<and>
    (ByteStream_eof bs \<longleftrightarrow> input_ended bs \<and> bs_contents bs = []) \<and>
    buffer_size bs = length (bs_contents bs) \<and> buffer_size bs \<le> k \<and> remaining_capacity bs = k - buffer_size bs)"
proof -
  have "bs_queue (ByteStream k) = ([], False)" by (simp add: input_ended_def) (simp add: ByteStream_def)
  then have "queue_allows_all (bs_capacity (ByteStream k)) (bs_queue (ByteStream k)) ops" using assms(3) by simp
  from bs.run_law [OF ByteStream_inv [OF assms(1,2)] this] show ?thesis
    by (rule returns_mono) (use \<open>bs_queue (ByteStream k) = ([], False)\<close> in \<open>auto simp: ByteStream_eof_iff dest: bs_inv_bounds\<close>)
qed

theorem byte_stream_fifo_witness:
  "\<exists>bs. stream_run stream_step (ByteStream 4) [Write [1, 2, 3], Read 2, Write [4, 5, 6, 7], EndInput, PeekOut 1, PopOut 1, Read 3] =
      Inr (bs, [Accepted 3, Bytes [1, 2], Accepted 3, Finished, Bytes [3], Finished, Bytes [4, 5, 6]]) \<and> ByteStream_eof bs"
  using byte_stream_fifo [of 4 "[Write [1, 2, 3], Read 2, Write [4, 5, 6, 7], EndInput, PeekOut 1, PopOut 1, Read 3]"]
  by (auto simp: returns_iff)

text \<open>\<open>write\<close> accepts as many bytes as fit and returns their number, appends exactly these to
  the buffered bytes across the end of the ring, adds the number to the byte count and
  changes nothing else; it never throws and never divides by zero.\<close>

theorem byte_stream_write_correct:
  assumes "bs_inv bs"
  shows "\<exists>bs'. ByteStream_write bs data = Inr (bs', min (length data) (remaining_capacity bs)) \<and>
    bs_inv bs' \<and> bs_contents bs' = bs_contents bs @ take (remaining_capacity bs) data \<and>
    bytes_written bs' = u64_add (bytes_written bs) (min (length data) (remaining_capacity bs)) \<and>
    bytes_read bs' = bytes_read bs \<and> input_ended bs' = input_ended bs \<and> bs_error bs' = bs_error bs"
proof -
  have "take (min (length data) (remaining_capacity bs)) data = take (remaining_capacity bs) data"
    by (simp add: min_def)
  with ByteStream_write_returns [OF assms, of data] show ?thesis
    by (auto simp: returns_iff bytes_written_def bytes_read_def input_ended_def)
qed

theorem byte_stream_write_correct_witness:
  "bs_inv (ByteStream 3) \<and> (\<exists>bs'. ByteStream_write (ByteStream 3) [1, 2, 3, 4] = Inr (bs', 3) \<and>
     bs_contents bs' = [1, 2, 3] \<and> bytes_written bs' = 3)"
proof -
  have inv: "bs_inv (ByteStream 3)" by (simp add: ByteStream_inv)
  have "remaining_capacity (ByteStream 3) = 3" "bytes_written (ByteStream 3) = 0"
    by (simp_all add: ByteStream_def RingBuffer_def remaining_capacity_def rb_remaining_capacity_def bytes_written_def)
  with byte_stream_write_correct [OF inv, of "[1, 2, 3, 4]"] inv show ?thesis by auto
qed

text \<open>The stream is at its end exactly when the writer has ended the input and every accepted
  byte has been popped, also after the byte counters have wrapped around.\<close>

theorem byte_stream_eof_correct:
  assumes "bs_inv bs"
  shows "ByteStream_eof bs \<longleftrightarrow> input_ended bs \<and> bs_contents bs = []"
  using assms by (rule ByteStream_eof_iff)

theorem byte_stream_eof_correct_witness:
  "bs_inv (end_input (ByteStream 3)) \<and> ByteStream_eof (end_input (ByteStream 3))"
proof -
  have inv: "bs_inv (end_input (ByteStream 3))" by (simp add: ByteStream_inv)
  with byte_stream_eof_correct [OF inv] show ?thesis by simp
qed

text \<open>\<open>write\<close> does not look at \<open>eof_input_\<close>: bytes written after \<open>end_input\<close> are accepted as
  before, and a stream that was at its end no longer is. The class comment says that once
  the writer has ended the input no more bytes can be written.\<close>

theorem write_after_end_input:
  assumes "bs_inv bs" and "0 < remaining_capacity bs" and "data \<noteq> []"
  shows "\<exists>bs' n. ByteStream_write (end_input bs) data = Inr (bs', n) \<and> 0 < n \<and>
    input_ended bs' \<and> bs_contents bs' = bs_contents bs @ take n data \<and> \<not> ByteStream_eof bs'"
proof -
  from assms(1) ByteStream_write_returns [of "end_input bs" data] obtain bs' where
    "ByteStream_write (end_input bs) data = Inr (bs', min (length data) (remaining_capacity bs))"
    "bs_inv bs'" "bs_contents bs' = bs_contents bs @ take (min (length data) (remaining_capacity bs)) data"
    "bs_eof_input bs'"
    by (auto simp: returns_iff)
  with assms(2,3) show ?thesis by (auto simp: ByteStream_eof_iff input_ended_def)
qed

theorem write_after_end_input_witness:
  "\<exists>bs' n. ByteStream_write (end_input (ByteStream 3)) [7] = Inr (bs', n) \<and> 0 < n \<and>
    input_ended bs' \<and> bs_contents bs' = take n [7] \<and> \<not> ByteStream_eof bs'"
proof -
  have "0 < remaining_capacity (ByteStream 3)"
    by (simp add: ByteStream_def RingBuffer_def remaining_capacity_def rb_remaining_capacity_def)
  with write_after_end_input [of "ByteStream 3" "[7]"] show ?thesis
    by (simp add: ByteStream_inv)
qed

end
