(* ===== verification/TCP_Sender.thy ===== *)
theory TCP_Sender
  imports TCP_Segment Byte_Stream
begin

text \<open>
  \<^verbatim>\<open>libsponge/tcp_sender.hh\<close> and \<^verbatim>\<open>.cc\<close>, with the constants of \<^verbatim>\<open>tcp_helpers/tcp_config.hh\<close>: the sending half
  of a TCP endpoint, with its retransmission timer. It cuts the outgoing byte stream into
  segments within the peer's window, keeps them until they are acknowledged, and sends the oldest
  one again when the timer expires.

  The random initial sequence number is an argument of the constructor. The loop of \<open>fill_window\<close> is
  a partial function; \<open>fill_loop_returns\<close> shows that it ends from every state that satisfies the
  invariant \<open>snd_inv w\<close>, where \<open>w\<close> is what the application has written so far. The invariant says that
  the outstanding segments are contiguous in sequence space and end at \<open>next_seqno_\<close>, that each carries
  the bytes of \<open>w\<close> at its sequence number, and that the timer runs exactly while one is outstanding.
\<close>

section \<open>TCPConfig\<close>

record TCPConfig =
  cfg_rt_timeout :: u16
  cfg_recv_capacity :: size_t
  cfg_send_capacity :: size_t
  cfg_fixed_isn :: "WrappingInt32 option"

definition DEFAULT_CAPACITY :: size_t where
  "DEFAULT_CAPACITY = 64000"

definition MAX_PAYLOAD_SIZE :: size_t where
  "MAX_PAYLOAD_SIZE = 1000"

definition TIMEOUT_DFLT :: u16 where
  "TIMEOUT_DFLT = 1000"

definition MAX_RETX_ATTEMPTS :: u32 where
  "MAX_RETX_ATTEMPTS = 8"

definition TCPConfig_default :: TCPConfig where
  "TCPConfig_default = \<lparr>cfg_rt_timeout = TIMEOUT_DFLT, cfg_recv_capacity = DEFAULT_CAPACITY,
     cfg_send_capacity = DEFAULT_CAPACITY, cfg_fixed_isn = None\<rparr>"

section \<open>RetransmissionTimer\<close>

record retransmission_timer =
  rt_initial_rto :: u32
  rt_rto :: size_t
  rt_time_waited :: size_t
  rt_running :: bool

definition RetransmissionTimer :: "u32 \<Rightarrow> retransmission_timer" where
  "RetransmissionTimer initial_rto =
     \<lparr>rt_initial_rto = initial_rto, rt_rto = 0, rt_time_waited = 0, rt_running = False\<rparr>"

definition rt_expire :: "retransmission_timer \<Rightarrow> bool" where
  "rt_expire t \<longleftrightarrow> rt_running t \<and> rt_rto t \<le> rt_time_waited t"

definition rt_reset :: "retransmission_timer \<Rightarrow> retransmission_timer" where
  "rt_reset t = t\<lparr>rt_rto := unat (rt_initial_rto t)\<rparr>"

definition rt_twice :: "retransmission_timer \<Rightarrow> retransmission_timer" where
  "rt_twice t = t\<lparr>rt_rto := u64_mul (rt_rto t) 2\<rparr>"

definition rt_start :: "retransmission_timer \<Rightarrow> retransmission_timer" where
  "rt_start t = t\<lparr>rt_running := True, rt_time_waited := 0\<rparr>"

definition rt_stop :: "retransmission_timer \<Rightarrow> retransmission_timer" where
  "rt_stop t = t\<lparr>rt_running := False\<rparr>"

definition rt_tick :: "retransmission_timer \<Rightarrow> size_t \<Rightarrow> retransmission_timer" where
  "rt_tick t ms_since_last_tick = t\<lparr>rt_time_waited := u64_add (rt_time_waited t) ms_since_last_tick\<rparr>"

section \<open>TCPSender\<close>

record tcp_sender =
  snd_isn :: WrappingInt32
  snd_segments_out :: "TCPSegment list"
  snd_buffer :: "(u64 \<times> TCPSegment) list"
  snd_timer :: retransmission_timer
  snd_consecutive_retransmissions :: u32
  snd_stream :: byte_stream
  snd_next_seqno :: u64
  snd_seqno_acked :: u64
  snd_window_size :: u16
  snd_sent_fin :: bool

definition TCPSender :: "u32 \<Rightarrow> size_t \<Rightarrow> u16 \<Rightarrow> WrappingInt32 option \<Rightarrow> tcp_sender" where
  "TCPSender random_value capacity retx_timeout fixed_isn =
     \<lparr>snd_isn = (case fixed_isn of Some i \<Rightarrow> i | None \<Rightarrow> WrappingInt32 random_value),
      snd_segments_out = [], snd_buffer = [], snd_timer = RetransmissionTimer (ucast retx_timeout),
      snd_consecutive_retransmissions = 0, snd_stream = ByteStream capacity, snd_next_seqno = 0,
      snd_seqno_acked = 0, snd_window_size = 1, snd_sent_fin = False\<rparr>"

definition bytes_in_flight :: "tcp_sender \<Rightarrow> size_t" where
  "bytes_in_flight s = u64_sub (snd_next_seqno s) (snd_seqno_acked s)"

definition next_seqno :: "tcp_sender \<Rightarrow> WrappingInt32" where
  "next_seqno s = wrap (snd_next_seqno s) (snd_isn s)"

definition push_segment :: "tcp_sender \<Rightarrow> TCPSegment \<Rightarrow> u64 \<Rightarrow> tcp_sender" where
  "push_segment s seg start =
     s\<lparr>snd_segments_out := snd_segments_out s @ [seg], snd_buffer := snd_buffer s @ [(start, seg)]\<rparr>"

definition assemble_segment :: "tcp_sender \<Rightarrow> u64 \<Rightarrow> (tcp_sender \<times> u64) res" where
  "assemble_segment s start =
     (let header = TCPHeader_default\<lparr>th_seqno := wrap start (snd_isn s)\<rparr>;
          max_segment_size = u64_sub (max 1 (unat (snd_window_size s))) (u64_sub start (snd_seqno_acked s));
          (header, max_segment_size) =
            (if start = 0 then (header\<lparr>th_syn := True\<rparr>, u64_sub max_segment_size 1)
             else (header, max_segment_size));
          payload_size_with_fin = min (u64_sub max_segment_size 1) MAX_PAYLOAD_SIZE;
          buf_size = buffer_size (snd_stream s);
          (header, s, max_segment_size) =
            (if \<not> snd_sent_fin s \<and> input_ended (snd_stream s) \<and> buf_size \<le> payload_size_with_fin
             then (header\<lparr>th_fin := True\<rparr>, s\<lparr>snd_sent_fin := True\<rparr>, u64_sub max_segment_size 1)
             else (header, s, max_segment_size));
          max_segment_size = min max_segment_size (min buf_size MAX_PAYLOAD_SIZE)
      in rbind (ByteStream_read (snd_stream s) max_segment_size) (\<lambda>(stream, data).
           let s = s\<lparr>snd_stream := stream\<rparr>;
               seg = \<lparr>seg_header = header, seg_payload = Buffer data\<rparr>;
               max_segment_size = length_in_sequence_space seg;
               s = (if max_segment_size \<noteq> 0 then push_segment s seg start else s)
           in Inr (s, u64_add start max_segment_size)))"

partial_function (option) fill_loop :: "u64 \<Rightarrow> tcp_sender \<Rightarrow> tcp_sender res option" where
  "fill_loop right s =
     (if snd_next_seqno s < right then
        (case assemble_segment s (snd_next_seqno s) of
           Inl e \<Rightarrow> Some (Inl e)
         | Inr (s1, n) \<Rightarrow>
             if buffer_empty (snd_stream s1) then Some (Inr (s1\<lparr>snd_next_seqno := n\<rparr>))
             else fill_loop right (s1\<lparr>snd_next_seqno := n\<rparr>))
      else Some (Inr s))"

definition fill_window :: "tcp_sender \<Rightarrow> tcp_sender res" where
  "fill_window s =
     (let right = u64_add (snd_seqno_acked s) (max 1 (unat (snd_window_size s)))
      in case fill_loop right s of
           None \<Rightarrow> Inl NonTermination
         | Some r \<Rightarrow> rbind r (\<lambda>s.
             Inr (if \<not> rt_running (snd_timer s) \<and> snd_buffer s \<noteq> []
                  then s\<lparr>snd_timer := rt_start (rt_reset (snd_timer s))\<rparr> else s)))"

fun drop_acked :: "u64 \<Rightarrow> (u64 \<times> TCPSegment) list \<Rightarrow> (u64 \<times> TCPSegment) list" where
  "drop_acked acked [] = []"
| "drop_acked acked ((start, seg) # rest) =
     (if u64_add start (length_in_sequence_space seg) \<le> acked then drop_acked acked rest
      else (start, seg) # rest)"

definition clear_buffer :: "tcp_sender \<Rightarrow> tcp_sender" where
  "clear_buffer s =
     (let s = s\<lparr>snd_buffer := drop_acked (snd_seqno_acked s) (snd_buffer s)\<rparr>
      in if snd_buffer s = [] then s\<lparr>snd_timer := rt_stop (snd_timer s)\<rparr> else s)"

definition ack_received :: "tcp_sender \<Rightarrow> WrappingInt32 \<Rightarrow> u16 \<Rightarrow> tcp_sender" where
  "ack_received s ackno window =
     (let abs_ackno = unwrap ackno (snd_isn s) (snd_seqno_acked s)
      in if abs_ackno > snd_next_seqno s then s
         else
           let s = (if abs_ackno > snd_seqno_acked s
                    then s\<lparr>snd_seqno_acked := abs_ackno, snd_consecutive_retransmissions := 0,
                           snd_timer := rt_start (rt_reset (snd_timer s))\<rparr>
                    else s)
           in clear_buffer (s\<lparr>snd_window_size := window\<rparr>))"

definition retransmit :: "tcp_sender \<Rightarrow> tcp_sender res" where
  "retransmit s =
     (let s = (if snd_window_size s \<noteq> 0
               then s\<lparr>snd_timer := rt_twice (snd_timer s),
                      snd_consecutive_retransmissions := snd_consecutive_retransmissions s + 1\<rparr>
               else s);
          s = s\<lparr>snd_timer := rt_start (snd_timer s)\<rparr>
      in case snd_buffer s of
           [] \<Rightarrow> Inl EmptyContainer
         | (_, seg) # _ \<Rightarrow> Inr (s\<lparr>snd_segments_out := snd_segments_out s @ [seg]\<rparr>))"

definition TCPSender_tick :: "tcp_sender \<Rightarrow> size_t \<Rightarrow> tcp_sender res" where
  "TCPSender_tick s ms_since_last_tick =
     (let s = s\<lparr>snd_timer := rt_tick (snd_timer s) ms_since_last_tick\<rparr>
      in if rt_expire (snd_timer s) then retransmit s else Inr s)"

definition send_empty_segment :: "tcp_sender \<Rightarrow> tcp_sender" where
  "send_empty_segment s =
     (let seg = TCPSegment_default\<lparr>seg_header := TCPHeader_default\<lparr>th_seqno := wrap (snd_next_seqno s) (snd_isn s)\<rparr>\<rparr>
      in s\<lparr>snd_segments_out := snd_segments_out s @ [seg]\<rparr>)"

section \<open>Segments of the outgoing stream\<close>

text \<open>\<open>seg_at w isn fin start seg\<close>: \<open>seg\<close> carries the part of the stream \<open>w\<close> that belongs at the absolute sequence
  number \<open>start\<close>; only the segment at 0 carries the SYN, a FIN only if the sender has recorded
  it as sent, and none a RST.\<close>

definition seg_at :: "bytes \<Rightarrow> WrappingInt32 \<Rightarrow> bool \<Rightarrow> u64 \<Rightarrow> TCPSegment \<Rightarrow> bool" where
  "seg_at w isn fin start seg \<longleftrightarrow>
     seg_carries w isn (start - 1) seg \<and> (th_syn (seg_header seg) \<longleftrightarrow> start = 0) \<and>
     (th_fin (seg_header seg) \<longrightarrow> fin) \<and> \<not> th_rst (seg_header seg) \<and> length (buf_str (seg_payload seg)) \<le> MAX_PAYLOAD_SIZE"

definition sent_ok :: "bytes \<Rightarrow> WrappingInt32 \<Rightarrow> bool \<Rightarrow> TCPSegment \<Rightarrow> bool" where
  "sent_ok w isn fin seg \<longleftrightarrow> seg_pure_ack seg \<or> (\<exists>start. seg_at w isn fin start seg)"

lemma seg_carries_append:
  "seg_carries w isn idx seg \<Longrightarrow> \<not> th_fin (seg_header seg) \<Longrightarrow> seg_carries (w @ v) isn idx seg"
  by (auto simp: seg_carries_def)

lemma seg_at_append: "seg_at w isn False start seg \<Longrightarrow> seg_at (w @ v) isn False start seg"
  by (auto simp: seg_at_def intro: seg_carries_append)

lemma seg_at_fin: "seg_at w isn False start seg \<Longrightarrow> seg_at w isn fin start seg"
  by (auto simp: seg_at_def)

lemma sent_ok_append: "sent_ok w isn False seg \<Longrightarrow> sent_ok (w @ v) isn False seg"
  by (auto simp: sent_ok_def intro: seg_at_append)

lemma sent_ok_fin: "sent_ok w isn False seg \<Longrightarrow> sent_ok w isn fin seg"
  by (auto simp: sent_ok_def intro: seg_at_fin)

text \<open>\<open>chain a q b\<close>: the queue covers the absolute sequence numbers from \<open>a\<close> up to \<open>b\<close>, without gap or overlap
  and without empty segments.\<close>

fun chain :: "u64 \<Rightarrow> (u64 \<times> TCPSegment) list \<Rightarrow> u64 \<Rightarrow> bool" where
  "chain a [] b \<longleftrightarrow> a = b"
| "chain a ((start, seg) # q) b \<longleftrightarrow>
     start = a \<and> 0 < length_in_sequence_space seg \<and> chain (a + length_in_sequence_space seg) q b"

lemma chain_le: "chain a q b \<Longrightarrow> a \<le> b"
  by (induction a q b rule: chain.induct) auto

lemma chain_snoc:
  "chain a q b \<Longrightarrow> 0 < length_in_sequence_space seg \<Longrightarrow>
    chain a (q @ [(b, seg)]) (b + length_in_sequence_space seg)"
  by (induction a q b rule: chain.induct) auto

text \<open>Dropping what is acknowledged leaves a chain whose first segment is not fully acknowledged,
  and it drops nothing else.\<close>

lemma drop_acked_chain:
  assumes "chain a q b" and "b < U64" and "a \<le> acked" and "acked \<le> b"
  shows "\<exists>a'. chain a' (drop_acked acked q) b \<and> a' \<le> acked \<and>
    (\<forall>start seg r. drop_acked acked q = (start, seg) # r \<longrightarrow> acked < start + length_in_sequence_space seg)"
  using assms
proof (induction a q b rule: chain.induct)
  case (2 a start seg q b)
  then have "a + length_in_sequence_space seg < U64" using chain_le by fastforce
  with 2 show ?case by auto
qed auto

lemma chain_ends: "chain a q b \<Longrightarrow> (start, seg) \<in> set q \<Longrightarrow> a < start + length_in_sequence_space seg"
proof (induction a q b rule: chain.induct)
  case (2 a st sg q b)
  then show ?case by fastforce
qed simp

lemma drop_acked_filter:
  assumes "chain a q b" and "b < U64"
  shows "drop_acked acked q = filter (\<lambda>(start, seg). acked < start + length_in_sequence_space seg) q"
  using assms
proof (induction a q b rule: chain.induct)
  case (2 a start seg q b)
  have le: "a + length_in_sequence_space seg < U64" using 2 chain_le by fastforce
  show ?case
  proof (cases "a + length_in_sequence_space seg \<le> acked")
    case True
    then show ?thesis using 2 le by auto
  next
    case False
    then have "filter (\<lambda>(start, seg). acked < start + length_in_sequence_space seg) q = q"
      using "2.prems"(1) by (intro filter_True) (auto dest: chain_ends)
    then show ?thesis using False "2.prems"(1) le by auto
  qed
qed auto

section \<open>The invariant of the sender\<close>

abbreviation max_stream :: nat where
  "max_stream \<equiv> 4611686018427387904"

definition snd_taken :: "bytes \<Rightarrow> tcp_sender \<Rightarrow> nat" where
  "snd_taken w s = length w - buffer_size (snd_stream s)"

lemma snd_taken_frame [simp]:
  "snd_taken w (s\<lparr>snd_segments_out := out\<rparr>) = snd_taken w s" "snd_taken w (s\<lparr>snd_timer := t\<rparr>) = snd_taken w s"
  "snd_taken w (s\<lparr>snd_consecutive_retransmissions := n\<rparr>) = snd_taken w s"
  "snd_taken w (s\<lparr>snd_stream := end_input (snd_stream s)\<rparr>) = snd_taken w s"
  by (simp_all add: snd_taken_def)

definition snd_core :: "bytes \<Rightarrow> tcp_sender \<Rightarrow> bool" where
  "snd_core w s \<longleftrightarrow>
     bs_inv (snd_stream s) \<and> buffer_size (snd_stream s) \<le> length w \<and> length w \<le> max_stream \<and>
     bs_contents (snd_stream s) = drop (snd_taken w s) w \<and>
     (0 < snd_next_seqno s \<longrightarrow> snd_next_seqno s = 1 + snd_taken w s + of_bool (snd_sent_fin s)) \<and>
     (snd_next_seqno s = 0 \<longrightarrow> snd_taken w s = 0 \<and> \<not> snd_sent_fin s) \<and>
     (snd_sent_fin s \<longrightarrow> input_ended (snd_stream s) \<and> snd_taken w s = length w) \<and>
     snd_seqno_acked s \<le> snd_next_seqno s \<and>
     (\<exists>a \<le> snd_seqno_acked s. chain a (snd_buffer s) (snd_next_seqno s)) \<and>
     (\<forall>start seg q. snd_buffer s = (start, seg) # q \<longrightarrow> snd_seqno_acked s < start + length_in_sequence_space seg) \<and>
     (\<forall>(start, seg) \<in> set (snd_buffer s). seg_at w (snd_isn s) (snd_sent_fin s) start seg) \<and>
     (\<forall>seg \<in> set (snd_segments_out s). sent_ok w (snd_isn s) (snd_sent_fin s) seg)"

definition snd_inv :: "bytes \<Rightarrow> tcp_sender \<Rightarrow> bool" where
  "snd_inv w s \<longleftrightarrow> snd_core w s \<and> (rt_running (snd_timer s) \<longleftrightarrow> snd_buffer s \<noteq> [])"

lemma snd_core_bounds:
  assumes "snd_core w s"
  shows "snd_next_seqno s \<le> max_stream + 2" "snd_seqno_acked s \<le> snd_next_seqno s"
    "buffer_size (snd_stream s) \<le> max_string" "snd_taken w s \<le> length w"
proof -
  have "snd_taken w s \<le> length w" "length w \<le> max_stream"
    using assms by (auto simp: snd_core_def snd_taken_def)
  moreover have "snd_next_seqno s \<le> 1 + snd_taken w s + of_bool (snd_sent_fin s)"
    using assms unfolding snd_core_def by (cases "snd_next_seqno s = 0") auto
  moreover have "of_bool (snd_sent_fin s) \<le> (1::nat)" by simp
  ultimately show "snd_next_seqno s \<le> max_stream + 2" "snd_taken w s \<le> length w" by linarith+
  show "snd_seqno_acked s \<le> snd_next_seqno s" using assms by (simp add: snd_core_def)
  show "buffer_size (snd_stream s) \<le> max_string"
    using assms bs_inv_bounds [of "snd_stream s"] unfolding snd_core_def by linarith
qed

lemma TCPSender_inv: "0 < k \<Longrightarrow> k \<le> max_string \<Longrightarrow> snd_inv [] (TCPSender r k t i)"
  by (simp add: snd_inv_def snd_core_def TCPSender_def ByteStream_inv snd_taken_def RetransmissionTimer_def)
    (simp add: ByteStream_def buffer_size_def RingBuffer_def)

section \<open>Assembling one segment\<close>

text \<open>The arithmetic of \<open>assemble_segment\<close>, without its wrap-around: the room for payload and FIN, whether the
  FIN goes out, and how many bytes do. The room is 0 only for a SYN into a window of at most one;
  the subtraction of one for the FIN then wraps around.\<close>

definition seg_room :: "tcp_sender \<Rightarrow> nat" where
  "seg_room s = max 1 (unat (snd_window_size s)) - (snd_next_seqno s - snd_seqno_acked s) - of_bool (snd_next_seqno s = 0)"

definition seg_fin :: "tcp_sender \<Rightarrow> bool" where
  "seg_fin s \<longleftrightarrow> \<not> snd_sent_fin s \<and> input_ended (snd_stream s) \<and>
     buffer_size (snd_stream s) \<le> (if seg_room s = 0 then MAX_PAYLOAD_SIZE else min (seg_room s - 1) MAX_PAYLOAD_SIZE)"

definition seg_bytes :: "tcp_sender \<Rightarrow> nat" where
  "seg_bytes s = (if seg_fin s then buffer_size (snd_stream s)
     else min (seg_room s) (min (buffer_size (snd_stream s)) MAX_PAYLOAD_SIZE))"

definition seg_assembled :: "tcp_sender \<Rightarrow> TCPSegment" where
  "seg_assembled s = \<lparr>seg_header = TCPHeader_default\<lparr>th_seqno := wrap (snd_next_seqno s) (snd_isn s),
       th_syn := (snd_next_seqno s = 0), th_fin := seg_fin s\<rparr>,
     seg_payload = Buffer (take (seg_bytes s) (bs_contents (snd_stream s)))\<rparr>"

abbreviation window_right :: "tcp_sender \<Rightarrow> u64" where
  "window_right s \<equiv> snd_seqno_acked s + max 1 (unat (snd_window_size s))"

lemma TCPHeader_default_flags [simp]:
  "\<not> th_syn TCPHeader_default" "\<not> th_fin TCPHeader_default"
  by (simp_all add: TCPHeader_default_def)

lemma seg_bytes_le: "seg_bytes s \<le> buffer_size (snd_stream s)" "seg_bytes s \<le> MAX_PAYLOAD_SIZE"
  by (auto simp: seg_bytes_def seg_fin_def split: if_splits)

lemma seg_room_pos: "0 < snd_next_seqno s \<Longrightarrow> snd_seqno_acked s \<le> snd_next_seqno s \<Longrightarrow>
    snd_next_seqno s < window_right s \<Longrightarrow> 0 < seg_room s"
  by (simp add: seg_room_def)

lemma assemble_segment_eq:
  assumes core: "snd_core w s" and right: "snd_next_seqno s < window_right s"
  shows "assemble_segment s (snd_next_seqno s) =
    rbind (ByteStream_read (snd_stream s) (seg_bytes s)) (\<lambda>(stream, data).
      let s' = s\<lparr>snd_sent_fin := snd_sent_fin s \<or> seg_fin s, snd_stream := stream\<rparr>;
          seg = (seg_assembled s)\<lparr>seg_payload := Buffer data\<rparr>;
          n = length_in_sequence_space seg
      in Inr (if n \<noteq> 0 then push_segment s' seg (snd_next_seqno s) else s', u64_add (snd_next_seqno s) n))"
proof -
  note b = snd_core_bounds [OF core]
  define m0 where "m0 = u64_sub (max 1 (unat (snd_window_size s))) (u64_sub (snd_next_seqno s) (snd_seqno_acked s))"
  have m0: "m0 = max 1 (unat (snd_window_size s)) - (snd_next_seqno s - snd_seqno_acked s)" "1 \<le> m0"
    using b right by (auto simp: m0_def)
  define m where "m = (if snd_next_seqno s = 0 then u64_sub m0 1 else m0)"
  have m: "m = seg_room s" using m0 by (auto simp: m_def seg_room_def)
  have w: "unat (snd_window_size s) < 65536" by (rule unat_lt)
  have le: "m < 65537" using w m0(1) unfolding m seg_room_def by linarith
  define f where "f \<longleftrightarrow> \<not> snd_sent_fin s \<and> input_ended (snd_stream s) \<and>
    buffer_size (snd_stream s) \<le> min (u64_sub m 1) MAX_PAYLOAD_SIZE"
  have f: "f \<longleftrightarrow> seg_fin s"
    unfolding f_def seg_fin_def m [symmetric] by (cases "m = 0") (simp_all add: u64_sub_def MAX_PAYLOAD_SIZE_def)
  have n: "min (if f then u64_sub m 1 else m) (min (buffer_size (snd_stream s)) MAX_PAYLOAD_SIZE) = seg_bytes s"
    using f le unfolding seg_bytes_def m [symmetric] f_def
    by (cases "m = 0") (auto simp: u64_sub_def MAX_PAYLOAD_SIZE_def)
  define h where "h = TCPHeader_default\<lparr>th_seqno := wrap (snd_next_seqno s) (snd_isn s)\<rparr>"
  have syn: "(if snd_next_seqno s = 0 then (h\<lparr>th_syn := True\<rparr>, u64_sub m0 1) else (h, m0)) =
      (h\<lparr>th_syn := (snd_next_seqno s = 0)\<rparr>, m)"
    by (simp add: m_def h_def TCPHeader_default_def)
  have fin: "(if \<not> snd_sent_fin s \<and> input_ended (snd_stream s) \<and>
        buffer_size (snd_stream s) \<le> min (u64_sub m 1) MAX_PAYLOAD_SIZE
      then (h\<lparr>th_syn := b, th_fin := True\<rparr>, s\<lparr>snd_sent_fin := True\<rparr>, u64_sub m 1) else (h\<lparr>th_syn := b\<rparr>, s, m)) =
      (h\<lparr>th_syn := b, th_fin := f\<rparr>, s\<lparr>snd_sent_fin := snd_sent_fin s \<or> f\<rparr>, if f then u64_sub m 1 else m)" for b
    unfolding f_def [symmetric] by (simp add: h_def TCPHeader_default_def)
  show ?thesis
    unfolding assemble_segment_def Let_def m0_def [symmetric] h_def [symmetric]
    unfolding syn prod.case unfolding fin prod.case
    unfolding n unfolding f seg_assembled_def h_def by (simp cong: if_cong)
qed

text \<open>What the segment is, in terms of the stream.\<close>

lemma seg_assembled_length:
  assumes "snd_core w s"
  shows "length_in_sequence_space (seg_assembled s) = seg_bytes s + of_bool (snd_next_seqno s = 0) + of_bool (seg_fin s)"
proof -
  have "seg_bytes s \<le> buffer_size (snd_stream s)" "seg_bytes s \<le> 1000"
    using seg_bytes_le [of s] by (simp_all add: MAX_PAYLOAD_SIZE_def)
  then show ?thesis by (simp add: seg_assembled_def length_in_sequence_space_eq min_absorb2)
qed

lemma seg_fin_all: "seg_fin s \<Longrightarrow> seg_bytes s = buffer_size (snd_stream s)"
  by (simp add: seg_bytes_def)

lemma seg_assembled_at:
  assumes core: "snd_core w s"
  shows "seg_at w (snd_isn s) (snd_sent_fin s \<or> seg_fin s) (snd_next_seqno s) (seg_assembled s) \<or>
    length_in_sequence_space (seg_assembled s) = 0"
proof (cases "snd_sent_fin s")
  case True
  then have "0 < snd_next_seqno s" "buffer_size (snd_stream s) = 0"
    using core by (auto simp: snd_core_def snd_taken_def)
  moreover from this have "seg_bytes s = 0" using seg_bytes_le(1) [of s] by simp
  ultimately show ?thesis using True by (simp add: seg_assembled_length [OF core] seg_fin_def)
next
  case False
  let ?t = "snd_taken w s"
  have idx: "snd_next_seqno s - 1 = ?t" using False core by (auto simp: snd_core_def)
  have c: "bs_contents (snd_stream s) = drop ?t w" "?t + buffer_size (snd_stream s) = length w"
    using core by (auto simp: snd_core_def snd_taken_def)
  have n: "seg_bytes s \<le> length w - ?t" using c(2) seg_bytes_le(1) [of s] by simp
  have "seg_carries w (snd_isn s) ?t (seg_assembled s)"
    using c n idx core seg_fin_all [of s]
    by (auto simp: seg_carries_def seg_assembled_def min_absorb2 snd_core_def)
  then show ?thesis
    unfolding seg_at_def idx using seg_bytes_le(2) [of s] n c(1) by (simp add: seg_assembled_def TCPHeader_default_def)
qed

text \<open>One step keeps the invariant. It moves \<open>next_seqno_\<close> past the segment, which stays within the window
  unless it is a SYN that takes the whole stream and its FIN along into a window of at most one.
  It makes progress unless it empties the stream.\<close>

definition syn_overrun :: "tcp_sender \<Rightarrow> bool" where
  "syn_overrun s \<longleftrightarrow> snd_next_seqno s = 0 \<and> unat (snd_window_size s) \<le> 1 \<and> input_ended (snd_stream s) \<and>
     buffer_size (snd_stream s) \<le> MAX_PAYLOAD_SIZE"

definition same_flags :: "byte_stream \<Rightarrow> byte_stream \<Rightarrow> bool" where
  "same_flags st st' \<longleftrightarrow> input_ended st = input_ended st' \<and> bs_error st = bs_error st'"

definition snd_frame :: "tcp_sender \<Rightarrow> tcp_sender \<Rightarrow> bool" where
  "snd_frame s s' \<longleftrightarrow> snd_isn s' = snd_isn s \<and> snd_timer s' = snd_timer s \<and>
     snd_consecutive_retransmissions s' = snd_consecutive_retransmissions s \<and>
     snd_seqno_acked s' = snd_seqno_acked s \<and> snd_window_size s' = snd_window_size s \<and>
     same_flags (snd_stream s') (snd_stream s)"

lemma snd_frame_trans: "snd_frame s t \<Longrightarrow> snd_frame t u \<Longrightarrow> snd_frame s u"
  by (simp add: snd_frame_def same_flags_def)

lemma seg_length_room:
  assumes core: "snd_core w s" and right: "snd_next_seqno s < window_right s"
  shows "snd_next_seqno s + length_in_sequence_space (seg_assembled s) \<le> window_right s \<or> syn_overrun s"
proof (cases "seg_room s = 0")
  case True
  with seg_room_pos [of s] right snd_core_bounds(2) [OF core] have z: "snd_next_seqno s = 0" by auto
  with True snd_core_bounds(2) [OF core] have "unat (snd_window_size s) \<le> 1" by (auto simp: seg_room_def)
  with True z show ?thesis
    by (auto simp: syn_overrun_def seg_assembled_length [OF core] seg_bytes_def seg_fin_def)
next
  case False
  have "seg_bytes s + of_bool (seg_fin s) \<le> seg_room s"
    using False by (auto simp: seg_bytes_def seg_fin_def)
  moreover have "snd_next_seqno s + of_bool (snd_next_seqno s = 0) + seg_room s = window_right s"
    using False right snd_core_bounds(2) [OF core] by (auto simp: seg_room_def)
  ultimately show ?thesis by (simp add: seg_assembled_length [OF core])
qed

lemma seg_progress:
  assumes core: "snd_core w s" and right: "snd_next_seqno s < window_right s"
    and more: "seg_bytes s < buffer_size (snd_stream s)"
  shows "0 < length_in_sequence_space (seg_assembled s)"
proof (cases "snd_next_seqno s = 0")
  case False
  then have "0 < seg_room s" using seg_room_pos right snd_core_bounds(2) [OF core] by simp
  with more have "0 < seg_bytes s"
    by (auto simp: seg_bytes_def MAX_PAYLOAD_SIZE_def split: if_splits)
  then show ?thesis by (simp add: seg_assembled_length [OF core])
qed (simp add: seg_assembled_length [OF core])

lemma seg_fin_sent:
  assumes core: "snd_core w s" and right: "snd_next_seqno s < window_right s"
    and all: "seg_bytes s = buffer_size (snd_stream s)" and ended: "input_ended (snd_stream s)"
    and n: "snd_next_seqno s + length_in_sequence_space (seg_assembled s) < window_right s"
  shows "snd_sent_fin s \<or> seg_fin s"
proof (rule ccontr)
  assume no: "\<not> ?thesis"
  have "seg_room s \<noteq> 0 \<Longrightarrow> snd_next_seqno s + of_bool (snd_next_seqno s = 0) + seg_room s = window_right s"
    using right snd_core_bounds(2) [OF core] by (auto simp: seg_room_def)
  then have "seg_room s \<noteq> 0 \<Longrightarrow> seg_bytes s < seg_room s" using n no by (simp add: seg_assembled_length [OF core])
  then show False using no all ended seg_bytes_le(2) [of s] by (auto simp: seg_fin_def split: if_splits)
qed

definition seg_pushed :: "tcp_sender \<Rightarrow> byte_stream \<Rightarrow> tcp_sender" where
  "seg_pushed s stream =
     (let seg = seg_assembled s; n = length_in_sequence_space seg;
          s' = s\<lparr>snd_sent_fin := snd_sent_fin s \<or> seg_fin s, snd_stream := stream\<rparr>
      in (if n \<noteq> 0 then push_segment s' seg (snd_next_seqno s) else s')\<lparr>snd_next_seqno := snd_next_seqno s + n\<rparr>)"

lemma seg_pushed_fields:
  assumes "same_flags stream (snd_stream s)"
  shows "snd_frame s (seg_pushed s stream)" "snd_stream (seg_pushed s stream) = stream"
    "snd_next_seqno (seg_pushed s stream) = snd_next_seqno s + length_in_sequence_space (seg_assembled s)"
    "snd_sent_fin (seg_pushed s stream) = (snd_sent_fin s \<or> seg_fin s)"
    "snd_buffer (seg_pushed s stream) = snd_buffer s @
       (if length_in_sequence_space (seg_assembled s) = 0 then [] else [(snd_next_seqno s, seg_assembled s)])"
    "snd_segments_out (seg_pushed s stream) = snd_segments_out s @
       (if length_in_sequence_space (seg_assembled s) = 0 then [] else [seg_assembled s])"
  using assms by (simp_all add: seg_pushed_def Let_def push_segment_def snd_frame_def same_flags_def)

lemma chain_head:
  assumes "a \<le> acked" and "chain a q b" and "acked \<le> b"
    and "\<forall>start seg r. q = (start, seg) # r \<longrightarrow> acked < start + length_in_sequence_space seg"
  shows "(q = [] \<longleftrightarrow> acked = b)"
proof (cases q)
  case (Cons p r)
  obtain start seg where p: "p = (start, seg)" by (cases p)
  have "acked < a + length_in_sequence_space seg" "a + length_in_sequence_space seg \<le> b"
    using assms Cons p by (auto dest: chain_le)
  with Cons show ?thesis by simp
qed (use assms in auto)

lemma seg_pushed_core:
  assumes core: "snd_core w s"
    and st: "bs_inv stream" "bs_contents stream = drop (seg_bytes s) (bs_contents (snd_stream s))"
      "same_flags stream (snd_stream s)"
  shows "snd_core w (seg_pushed s stream)"
proof -
  let ?n = "length_in_sequence_space (seg_assembled s)"
  let ?fin = "snd_sent_fin s \<or> seg_fin s"
  note F = seg_pushed_fields [OF st(3)]
  note n = seg_assembled_length [OF core]
  have C: "bs_contents (snd_stream s) = drop (snd_taken w s) w" "buffer_size (snd_stream s) \<le> length w"
    using core by (auto simp: snd_core_def)
  have bs: "buffer_size stream = buffer_size (snd_stream s) - seg_bytes s"
    using st(2) by (metis length_bs_contents length_drop)
  have t: "snd_taken w (seg_pushed s stream) = snd_taken w s + seg_bytes s"
    using C(2) seg_bytes_le(1) [of s] by (simp add: snd_taken_def F bs)
  from core obtain a where a: "a \<le> snd_seqno_acked s" "chain a (snd_buffer s) (snd_next_seqno s)"
    and hd: "\<forall>start seg q. snd_buffer s = (start, seg) # q \<longrightarrow> snd_seqno_acked s < start + length_in_sequence_space seg"
    by (auto simp: snd_core_def)
  have sent: "snd_sent_fin s \<Longrightarrow> ?n = 0 \<and> 0 < snd_next_seqno s"
    using core seg_bytes_le(1) [of s] by (auto simp: n snd_core_def snd_taken_def seg_fin_def)
  have nx: "0 < snd_next_seqno s + ?n \<longrightarrow> snd_next_seqno s + ?n = 1 + (snd_taken w s + seg_bytes s) + of_bool ?fin"
    using core sent n by (cases "snd_sent_fin s"; cases "snd_next_seqno s = 0") (auto simp: snd_core_def)
  have z: "snd_next_seqno s + ?n \<noteq> 0" using n by auto
  have fin: "?fin \<longrightarrow> input_ended stream \<and> snd_taken w s + seg_bytes s = length w"
    using core seg_fin_all [of s] seg_bytes_le(1) [of s] st(3) by (auto simp: snd_core_def snd_taken_def seg_fin_def same_flags_def)
  have buf: "\<exists>a \<le> snd_seqno_acked s. chain a (snd_buffer (seg_pushed s stream)) (snd_next_seqno s + ?n)"
    using a chain_snoc [OF a(2)] by (auto simp: F)
  have hd': "\<forall>start seg q. snd_buffer (seg_pushed s stream) = (start, seg) # q \<longrightarrow>
      snd_seqno_acked s < start + length_in_sequence_space seg"
    using hd chain_head [OF a snd_core_bounds(2) [OF core] hd] by (cases "snd_buffer s") (auto simp: F)
  have old: "seg_at w (snd_isn s) (snd_sent_fin s) st sg \<Longrightarrow> seg_at w (snd_isn s) ?fin st sg"
    "sent_ok w (snd_isn s) (snd_sent_fin s) sg \<Longrightarrow> sent_ok w (snd_isn s) ?fin sg" for st sg
    by (cases "snd_sent_fin s"; simp add: seg_at_fin sent_ok_fin)+
  have new: "?n \<noteq> 0 \<Longrightarrow> seg_at w (snd_isn s) ?fin (snd_next_seqno s) (seg_assembled s)"
    using seg_assembled_at [OF core] by auto
  have segs: "\<forall>(start, seg)\<in>set (snd_buffer (seg_pushed s stream)). seg_at w (snd_isn s) ?fin start seg"
    using core old(1) new by (auto simp: F snd_core_def)
  have out: "\<forall>seg\<in>set (snd_segments_out (seg_pushed s stream)). sent_ok w (snd_isn s) ?fin seg"
    using core old(2) new by (auto simp: F snd_core_def sent_ok_def)
  have isn: "snd_isn (seg_pushed s stream) = snd_isn s" "snd_seqno_acked (seg_pushed s stream) = snd_seqno_acked s"
    using F(1) by (simp_all add: snd_frame_def)
  have rest: "buffer_size stream \<le> length w" "length w \<le> max_stream"
    "bs_contents stream = drop (snd_taken w s + seg_bytes s) w" "snd_seqno_acked s \<le> snd_next_seqno s + ?n"
    using core C bs st(2) by (simp_all add: snd_core_def add.commute)
  show ?thesis
    unfolding snd_core_def isn t F(2-4) using z
    by (intro conjI st(1) rest nx fin buf hd' segs out) (rule impI, erule notE, assumption)
qed

lemma assemble_segment_returns:
  assumes core: "snd_core w s" and right: "snd_next_seqno s < window_right s"
  shows "returns (assemble_segment s (snd_next_seqno s)) (\<lambda>(s', n). \<exists>stream.
    s'\<lparr>snd_next_seqno := n\<rparr> = seg_pushed s stream \<and> snd_stream s' = stream \<and> snd_core w (seg_pushed s stream) \<and>
    same_flags stream (snd_stream s) \<and> buffer_size stream = buffer_size (snd_stream s) - seg_bytes s)"
proof -
  have inv: "bs_inv (snd_stream s)" using core by (simp add: snd_core_def)
  from ByteStream_read_returns [OF inv seg_bytes_le(1)] obtain st where
    r: "ByteStream_read (snd_stream s) (seg_bytes s) = Inr (st, take (seg_bytes s) (bs_contents (snd_stream s)))"
    and st: "bs_inv st" "bs_contents st = drop (seg_bytes s) (bs_contents (snd_stream s))"
      "same_flags st (snd_stream s)"
    by (auto simp: returns_iff input_ended_def same_flags_def)
  have bs: "buffer_size st = buffer_size (snd_stream s) - seg_bytes s"
    using st(2) by (metis length_bs_contents length_drop)
  have seg: "(seg_assembled s)\<lparr>seg_payload := Buffer (take (seg_bytes s) (bs_contents (snd_stream s)))\<rparr> = seg_assembled s"
    by (simp add: seg_assembled_def)
  have "length_in_sequence_space (seg_assembled s) \<le> 1002"
    using seg_bytes_le(2) [of s] by (simp add: seg_assembled_length [OF core] MAX_PAYLOAD_SIZE_def)
  then have "u64_add (snd_next_seqno s) (length_in_sequence_space (seg_assembled s)) =
      snd_next_seqno s + length_in_sequence_space (seg_assembled s)"
    using snd_core_bounds(1) [OF core] by (intro u64_add_small) linarith
  with seg_pushed_core [OF core st] bs st(3) show ?thesis
    unfolding assemble_segment_eq [OF core right] r
    by (auto simp: seg Let_def seg_pushed_def push_segment_def)
qed

section \<open>Filling the window\<close>

definition filled :: "tcp_sender \<Rightarrow> tcp_sender \<Rightarrow> bool" where
  "filled s s' \<longleftrightarrow> (snd_sent_fin s \<longrightarrow> snd_sent_fin s') \<and> 0 < snd_next_seqno s' \<and>
     (snd_next_seqno s' \<le> max (snd_next_seqno s) (window_right s) \<or> syn_overrun s) \<and>
     (window_right s \<le> snd_next_seqno s' \<or>
      buffer_size (snd_stream s') = 0 \<and> (input_ended (snd_stream s) \<longrightarrow> snd_sent_fin s')) \<and>
     (\<exists>new. snd_buffer s' = snd_buffer s @ new \<and> snd_segments_out s' = snd_segments_out s @ map snd new)"

lemma fill_loop_returns:
  assumes "snd_core w s" and "right = window_right s"
  shows "\<exists>s'. fill_loop right s = Some (Inr s') \<and> snd_core w s' \<and> snd_frame s s' \<and> filled s s'"
  using assms
proof (induction "right - snd_next_seqno s" arbitrary: s rule: less_induct)
  case less
  note core = less.prems(1)
  show ?case
  proof (cases "snd_next_seqno s < right")
    case False
    with less.prems show ?thesis by (subst fill_loop.simps) (auto simp: snd_frame_def filled_def same_flags_def)
  next
    case True
    then have right: "snd_next_seqno s < window_right s" using less.prems(2) by simp
    let ?n = "length_in_sequence_space (seg_assembled s)"
    from assemble_segment_returns [OF core right] obtain s1 n stream where
      a: "assemble_segment s (snd_next_seqno s) = Inr (s1, n)"
      and s1: "s1\<lparr>snd_next_seqno := n\<rparr> = seg_pushed s stream" "snd_stream s1 = stream"
      and core': "snd_core w (seg_pushed s stream)"
      and st: "same_flags stream (snd_stream s)" "buffer_size stream = buffer_size (snd_stream s) - seg_bytes s"
      by (auto simp: returns_iff)
    note F = seg_pushed_fields [OF st(1)]
    have loop: "fill_loop right s = (if buffer_empty stream then Some (Inr (seg_pushed s stream)) else fill_loop right (seg_pushed s stream))"
      using True a s1 by (subst fill_loop.simps) simp
    have new: "\<exists>new. snd_buffer (seg_pushed s stream) = snd_buffer s @ new \<and> snd_segments_out (seg_pushed s stream) = snd_segments_out s @ map snd new"
      by (simp add: F)
    have pos: "0 < snd_next_seqno s + ?n" by (auto simp: seg_assembled_length [OF core])
    show ?thesis
    proof (cases "buffer_empty stream")
      case empty: True
      then have all: "seg_bytes s = buffer_size (snd_stream s)"
        using st(2) seg_bytes_le(1) [of s] by (simp add: buffer_empty_iff)
      have "filled s (seg_pushed s stream)"
        unfolding filled_def using new seg_length_room [OF core right] seg_fin_sent [OF core right all] empty pos
        by (auto simp: F(2-4) buffer_empty_iff)
      then show ?thesis using loop empty core' F(1) by auto
    next
      case more: False
      then have "0 < ?n" using seg_progress [OF core right] st(2) by (simp add: buffer_empty_iff)
      then have lt: "right - snd_next_seqno (seg_pushed s stream) < right - snd_next_seqno s"
        and no: "\<not> syn_overrun (seg_pushed s stream)"
        using True by (auto simp: F(3) syn_overrun_def)
      have r': "right = window_right (seg_pushed s stream)" using less.prems(2) F(1) by (simp add: snd_frame_def)
      from less.hyps [OF lt core' r'] obtain s' where
        s': "fill_loop right (seg_pushed s stream) = Some (Inr s')" "snd_core w s'"
          "snd_frame (seg_pushed s stream) s'" "filled (seg_pushed s stream) s'" by auto
      have "filled s s'"
        using s'(4) no new seg_length_room [OF core right] st(1) F(1)
        unfolding filled_def snd_frame_def same_flags_def by (auto simp: F(2-4))
      then show ?thesis using loop more s' snd_frame_trans [OF F(1) s'(3)] by auto
    qed
  qed
qed

text \<open>\<open>fill_window\<close> always returns. Apart from the timer it changes what the loop changes.\<close>

lemma snd_core_timer [simp]: "snd_core w (s\<lparr>snd_timer := t\<rparr>) = snd_core w s"
  by (simp add: snd_core_def)

lemma filled_timer [simp]: "filled s (s'\<lparr>snd_timer := t\<rparr>) = filled s s'"
  by (simp add: filled_def)

lemma rt_start_fields [simp]:
  "rt_running (rt_start t)" "rt_time_waited (rt_start t) = 0" "rt_rto (rt_start t) = rt_rto t"
  "rt_initial_rto (rt_start t) = rt_initial_rto t" "\<not> rt_running (rt_stop t)"
  "rt_running (rt_reset t) = rt_running t" "rt_rto (rt_reset t) = unat (rt_initial_rto t)"
  "rt_initial_rto (rt_reset t) = rt_initial_rto t" "rt_initial_rto (rt_stop t) = rt_initial_rto t"
  "rt_running (rt_twice t) = rt_running t" "rt_initial_rto (rt_twice t) = rt_initial_rto t"
  "rt_running (rt_tick t n) = rt_running t" "rt_initial_rto (rt_tick t n) = rt_initial_rto t"
  by (simp_all add: rt_start_def rt_stop_def rt_reset_def rt_twice_def rt_tick_def)

lemma fill_window_returns:
  assumes inv: "snd_inv w s"
  shows "returns (fill_window s) (\<lambda>s'. snd_inv w s' \<and> filled s s' \<and> snd_isn s' = snd_isn s \<and>
    snd_seqno_acked s' = snd_seqno_acked s \<and> snd_window_size s' = snd_window_size s \<and>
    snd_consecutive_retransmissions s' = snd_consecutive_retransmissions s \<and>
    input_ended (snd_stream s') = input_ended (snd_stream s) \<and> bs_error (snd_stream s') = bs_error (snd_stream s) \<and>
    snd_timer s' = (if snd_buffer s = [] \<and> snd_buffer s' \<noteq> [] then rt_start (rt_reset (snd_timer s)) else snd_timer s))"
proof -
  have core: "snd_core w s" and run: "rt_running (snd_timer s) \<longleftrightarrow> snd_buffer s \<noteq> []"
    using inv by (simp_all add: snd_inv_def)
  have "unat (snd_window_size s) < 65536" by (rule unat_lt)
  then have "u64_add (snd_seqno_acked s) (max 1 (unat (snd_window_size s))) = window_right s"
    using snd_core_bounds(1,2) [OF core] by (intro u64_add_small) linarith
  moreover from fill_loop_returns [OF core refl] obtain s' where
    s': "fill_loop (window_right s) s = Some (Inr s')" "snd_core w s'" "snd_frame s s'" "filled s s'" by auto
  moreover have "snd_buffer s' = [] \<Longrightarrow> snd_buffer s = []" using s'(4) by (auto simp: filled_def)
  ultimately show ?thesis
    using run by (auto simp: fill_window_def Let_def snd_inv_def snd_frame_def same_flags_def)
qed

section \<open>Acknowledgments and the clock\<close>

lemma snd_core_chain:
  assumes "snd_core w s"
  obtains a where "a \<le> snd_seqno_acked s" "chain a (snd_buffer s) (snd_next_seqno s)"
  using assms by (auto simp: snd_core_def)

lemma snd_buffer_empty_iff:
  assumes core: "snd_core w s"
  shows "snd_buffer s = [] \<longleftrightarrow> snd_seqno_acked s = snd_next_seqno s"
proof -
  obtain a where a: "a \<le> snd_seqno_acked s" "chain a (snd_buffer s) (snd_next_seqno s)"
    using core by (rule snd_core_chain)
  show ?thesis using core by (intro chain_head [OF a]) (auto simp: snd_core_def)
qed

lemma snd_buffer_unacked:
  assumes core: "snd_core w s"
  shows "filter (\<lambda>(start, seg). snd_seqno_acked s < start + length_in_sequence_space seg) (snd_buffer s) = snd_buffer s"
proof (rule filter_True, clarify)
  fix start seg assume mem: "(start, seg) \<in> set (snd_buffer s)"
  obtain a where a: "chain a (snd_buffer s) (snd_next_seqno s)" using core by (rule snd_core_chain)
  from mem obtain st sg q where q: "snd_buffer s = (st, sg) # q" by (cases "snd_buffer s") auto
  have hd: "snd_seqno_acked s < st + length_in_sequence_space sg" using core q by (simp add: snd_core_def)
  have "chain (st + length_in_sequence_space sg) q (snd_next_seqno s)" using a q by simp
  from chain_ends [OF this, of start seg] show "snd_seqno_acked s < start + length_in_sequence_space seg"
    using hd mem q by auto
qed

text \<open>\<open>ack_received\<close> on an acknowledgment of something that has been sent, without \<open>clear_buffer\<close>'s loop.\<close>

definition acked_to :: "tcp_sender \<Rightarrow> u64 \<Rightarrow> u16 \<Rightarrow> tcp_sender" where
  "acked_to s absno win =
     (let q = filter (\<lambda>(start, seg). max absno (snd_seqno_acked s) < start + length_in_sequence_space seg) (snd_buffer s);
          t = (if snd_seqno_acked s < absno then rt_start (rt_reset (snd_timer s)) else snd_timer s)
      in s\<lparr>snd_buffer := q, snd_timer := (if q = [] then rt_stop t else t),
           snd_consecutive_retransmissions := (if snd_seqno_acked s < absno then 0 else snd_consecutive_retransmissions s),
           snd_seqno_acked := max absno (snd_seqno_acked s), snd_window_size := win\<rparr>)"

lemma ack_received_eq:
  assumes core: "snd_core w s"
  shows "ack_received s ackno win =
    (let absno = unwrap ackno (snd_isn s) (snd_seqno_acked s) in if snd_next_seqno s < absno then s else acked_to s absno win)"
proof -
  obtain a where "chain a (snd_buffer s) (snd_next_seqno s)" using core by (rule snd_core_chain)
  moreover have "snd_next_seqno s < U64" using snd_core_bounds(1) [OF core] by linarith
  ultimately have d: "drop_acked n (snd_buffer s) =
      filter (\<lambda>(start, seg). n < start + length_in_sequence_space seg) (snd_buffer s)" for n
    by (rule drop_acked_filter)
  show ?thesis
    by (simp add: ack_received_def clear_buffer_def acked_to_def Let_def d max_def)
qed

lemma acked_to_inv:
  assumes inv: "snd_inv w s" and le: "absno \<le> snd_next_seqno s"
  shows "snd_inv w (acked_to s absno win)"
proof -
  have core: "snd_core w s" and run: "rt_running (snd_timer s) \<longleftrightarrow> snd_buffer s \<noteq> []"
    using inv by (simp_all add: snd_inv_def)
  let ?m = "max absno (snd_seqno_acked s)" and ?s = "acked_to s absno win"
  obtain a where a: "a \<le> snd_seqno_acked s" "chain a (snd_buffer s) (snd_next_seqno s)"
    using core by (rule snd_core_chain)
  have lt: "snd_next_seqno s < U64" using snd_core_bounds(1) [OF core] by linarith
  have m: "a \<le> ?m" "?m \<le> snd_next_seqno s" using a(1) le snd_core_bounds(2) [OF core] by auto
  define q where "q = filter (\<lambda>(start, seg). ?m < start + length_in_sequence_space seg) (snd_buffer s)"
  from drop_acked_chain [OF a(2) lt m] obtain a' where
    q: "chain a' q (snd_next_seqno s)" "a' \<le> ?m"
      "\<forall>start seg r. q = (start, seg) # r \<longrightarrow> ?m < start + length_in_sequence_space seg"
    unfolding drop_acked_filter [OF a(2) lt] q_def [symmetric] by blast
  have f: "snd_buffer ?s = q" "snd_seqno_acked ?s = ?m" "snd_next_seqno ?s = snd_next_seqno s"
    "snd_stream ?s = snd_stream s" "snd_isn ?s = snd_isn s" "snd_sent_fin ?s = snd_sent_fin s"
    "snd_segments_out ?s = snd_segments_out s"
    by (simp_all add: acked_to_def Let_def q_def)
  have t: "snd_taken w ?s = snd_taken w s" by (simp add: snd_taken_def f)
  have segs: "\<forall>(start, seg) \<in> set q. seg_at w (snd_isn s) (snd_sent_fin s) start seg"
    using core unfolding snd_core_def q_def by (simp add: Ball_def)
  have "\<exists>a \<le> ?m. chain a q (snd_next_seqno s)" using q(1,2) by blast
  then have "snd_core w ?s"
    using core segs q(3) m(2) unfolding snd_core_def f t by simp
  moreover have "q \<noteq> [] \<Longrightarrow> snd_buffer s \<noteq> []" by (auto simp: q_def)
  then have "rt_running (snd_timer ?s) \<longleftrightarrow> q \<noteq> []"
    using run unfolding acked_to_def Let_def q_def [symmetric] by simp
  ultimately show ?thesis by (simp add: snd_inv_def f)
qed

lemma ack_received_inv: "snd_inv w s \<Longrightarrow> snd_inv w (ack_received s ackno win)"
  using ack_received_eq [of w s] acked_to_inv [of w s]
  by (simp add: snd_inv_def [of w s] Let_def)

lemma retransmit_eq:
  assumes "snd_buffer s = (start, seg) # q"
  shows "retransmit s = Inr (s\<lparr>snd_segments_out := snd_segments_out s @ [seg],
    snd_timer := rt_start (if snd_window_size s \<noteq> 0 then rt_twice (snd_timer s) else snd_timer s),
    snd_consecutive_retransmissions := snd_consecutive_retransmissions s + of_bool (snd_window_size s \<noteq> 0)\<rparr>)"
  using assms by (simp add: retransmit_def Let_def)

lemma snd_core_out:
  assumes "snd_core w s" and "\<forall>seg \<in> set out. sent_ok w (snd_isn s) (snd_sent_fin s) seg"
  shows "snd_core w (s\<lparr>snd_segments_out := out, snd_timer := t, snd_consecutive_retransmissions := n\<rparr>)"
    "snd_core w (s\<lparr>snd_segments_out := out\<rparr>)"
  using assms by (simp_all add: snd_core_def)

lemma TCPSender_tick_returns:
  assumes inv: "snd_inv w s"
  shows "returns (TCPSender_tick s ms) (\<lambda>s'. snd_inv w s' \<and>
    (if snd_buffer s \<noteq> [] \<and> rt_rto (snd_timer s) \<le> u64_add (rt_time_waited (snd_timer s)) ms
     then s' = s\<lparr>snd_segments_out := snd_segments_out s @ [snd (hd (snd_buffer s))],
        snd_timer := rt_start (if snd_window_size s \<noteq> 0 then rt_twice (snd_timer s) else snd_timer s),
        snd_consecutive_retransmissions := snd_consecutive_retransmissions s + of_bool (snd_window_size s \<noteq> 0)\<rparr>
     else s' = s\<lparr>snd_timer := rt_tick (snd_timer s) ms\<rparr>))"
proof -
  have core: "snd_core w s" and run: "rt_running (snd_timer s) \<longleftrightarrow> snd_buffer s \<noteq> []"
    using inv by (simp_all add: snd_inv_def)
  have twice: "rt_start (rt_twice (rt_tick t ms)) = rt_start (rt_twice t)" "rt_start (rt_tick t ms) = rt_start t" for t
    by (simp_all add: rt_start_def rt_twice_def rt_tick_def)
  have e: "rt_expire (rt_tick (snd_timer s) ms) \<longleftrightarrow>
      snd_buffer s \<noteq> [] \<and> rt_rto (snd_timer s) \<le> u64_add (rt_time_waited (snd_timer s)) ms"
    using run by (simp add: rt_expire_def rt_tick_def)
  show ?thesis
  proof (cases "rt_expire (rt_tick (snd_timer s) ms)")
    case False
    with e inv show ?thesis by (auto simp: TCPSender_tick_def Let_def snd_inv_def)
  next
    case True
    with e obtain start seg q where q: "snd_buffer s = (start, seg) # q" by (cases "snd_buffer s") auto
    then have "sent_ok w (snd_isn s) (snd_sent_fin s) seg"
      using core by (auto simp: snd_core_def sent_ok_def)
    then have "\<forall>sg \<in> set (snd_segments_out s @ [seg]). sent_ok w (snd_isn s) (snd_sent_fin s) sg"
      using core by (auto simp: snd_core_def)
    then show ?thesis
      using True q e snd_core_out [OF core]
      by (simp add: TCPSender_tick_def Let_def retransmit_eq snd_inv_def twice)
  qed
qed

lemma send_empty_segment_inv: "snd_inv w s \<Longrightarrow> snd_inv w (send_empty_segment s)"
  using snd_core_out(2) [of w s "snd_segments_out (send_empty_segment s)"]
  by (auto simp: send_empty_segment_def Let_def snd_inv_def sent_ok_def seg_pure_ack_def snd_core_def [of w s]
      TCPSegment_default_def)

lemma snd_core_write:
  assumes core: "snd_core w s" and open_in: "\<not> input_ended (snd_stream s)"
    and st: "bs_inv st" "bs_contents st = bs_contents (snd_stream s) @ d" "\<not> input_ended st"
    and len: "length (w @ d) \<le> max_stream"
  shows "snd_core (w @ d) (s\<lparr>snd_stream := st\<rparr>)"
proof -
  have bs: "buffer_size st = buffer_size (snd_stream s) + length d"
    using st(2) by (metis length_append length_bs_contents)
  have le: "buffer_size (snd_stream s) \<le> length w" using core by (simp add: snd_core_def)
  then have t: "snd_taken (w @ d) (s\<lparr>snd_stream := st\<rparr>) = snd_taken w s" by (simp add: snd_taken_def bs)
  have nofin: "\<not> snd_sent_fin s" using core open_in by (auto simp: snd_core_def)
  then have segs: "\<forall>(start, seg) \<in> set (snd_buffer s). seg_at (w @ d) (snd_isn s) (snd_sent_fin s) start seg"
    "\<forall>seg \<in> set (snd_segments_out s). sent_ok (w @ d) (snd_isn s) (snd_sent_fin s) seg"
    using core by (auto simp: snd_core_def seg_at_append sent_ok_append)
  have "snd_taken w s \<le> length w" using snd_core_bounds(4) [OF core] .
  with core st segs len nofin le bs show ?thesis
    unfolding snd_core_def t by simp
qed

lemma snd_write_returns:
  assumes inv: "snd_inv w s" and open_in: "\<not> input_ended (snd_stream s)" and len: "length w + length d \<le> max_stream"
  shows "returns (ByteStream_write (snd_stream s) d) (\<lambda>(st, n). n = min (length d) (remaining_capacity (snd_stream s)) \<and>
    \<not> input_ended st \<and> snd_inv (w @ take n d) (s\<lparr>snd_stream := st\<rparr>))"
proof -
  have core: "snd_core w s" and bs: "bs_inv (snd_stream s)" using inv by (auto simp: snd_inv_def snd_core_def)
  from ByteStream_write_returns [OF bs, of d] show ?thesis
    using snd_core_write [OF core open_in] inv open_in len
    by (elim returns_mono) (auto simp: snd_inv_def input_ended_def)
qed

lemma snd_end_inv: "snd_inv w s \<Longrightarrow> snd_inv w (s\<lparr>snd_stream := end_input (snd_stream s)\<rparr>)"
  by (auto simp: snd_inv_def snd_core_def)

section \<open>A sender and its owner\<close>

text \<open>What the owner of a sender does with it: the application writes and ends the stream; the connection
  calls the sender's operations and takes the queued segments away. The world keeps the bytes the
  stream has accepted and the segments taken.\<close>

datatype snd_op =
    SWrite bytes
  | SEnd
  | SFill
  | SAck WrappingInt32 u16
  | STick size_t
  | SEmpty
  | SSend

record snd_world =
  sw_sender :: tcp_sender
  sw_written :: bytes
  sw_sent :: "TCPSegment list"

fun snd_step :: "snd_world \<Rightarrow> snd_op \<Rightarrow> snd_world res" where
  "snd_step x (SWrite d) = rbind (ByteStream_write (snd_stream (sw_sender x)) d) (\<lambda>(st, n).
     Inr (x\<lparr>sw_sender := (sw_sender x)\<lparr>snd_stream := st\<rparr>, sw_written := sw_written x @ take n d\<rparr>))"
| "snd_step x SEnd = Inr (x\<lparr>sw_sender := (sw_sender x)\<lparr>snd_stream := end_input (snd_stream (sw_sender x))\<rparr>\<rparr>)"
| "snd_step x SFill = rbind (fill_window (sw_sender x)) (\<lambda>s. Inr (x\<lparr>sw_sender := s\<rparr>))"
| "snd_step x (SAck ackno win) = Inr (x\<lparr>sw_sender := ack_received (sw_sender x) ackno win\<rparr>)"
| "snd_step x (STick ms) = rbind (TCPSender_tick (sw_sender x) ms) (\<lambda>s. Inr (x\<lparr>sw_sender := s\<rparr>))"
| "snd_step x SEmpty = Inr (x\<lparr>sw_sender := send_empty_segment (sw_sender x)\<rparr>)"
| "snd_step x SSend = Inr (x\<lparr>sw_sender := (sw_sender x)\<lparr>snd_segments_out := []\<rparr>,
     sw_sent := sw_sent x @ snd_segments_out (sw_sender x)\<rparr>)"

definition snd_run :: "tcp_sender \<Rightarrow> snd_op list \<Rightarrow> snd_world res" where
  "snd_run s ops = rfold snd_step \<lparr>sw_sender = s, sw_written = [], sw_sent = []\<rparr> ops"

text \<open>The application does not write after it has ended the stream, and it writes fewer than 2^62 bytes.\<close>

fun op_len :: "snd_op \<Rightarrow> nat" where
  "op_len (SWrite d) = length d"
| "op_len _ = 0"

fun no_late_write :: "snd_op list \<Rightarrow> bool" where
  "no_late_write [] = True"
| "no_late_write (SEnd # ops) = (\<forall>op \<in> set ops. \<forall>d. op \<noteq> SWrite d)"
| "no_late_write (_ # ops) = no_late_write ops"

definition snd_ok :: "snd_op list \<Rightarrow> bool" where
  "snd_ok ops \<longleftrightarrow> no_late_write ops \<and> sum_list (map op_len ops) \<le> max_stream"

lemma no_late_write_prefix: "no_late_write (h @ ops) \<Longrightarrow> no_late_write h"
  by (induction h rule: no_late_write.induct) auto

lemma no_late_write_last: "no_late_write (h @ [SWrite d]) \<Longrightarrow> SEnd \<notin> set h"
  by (induction h rule: no_late_write.induct) auto

abbreviation all_segments :: "snd_world \<Rightarrow> TCPSegment list" where
  "all_segments x \<equiv> sw_sent x @ snd_segments_out (sw_sender x)"

definition covers :: "TCPSegment set \<Rightarrow> bytes \<Rightarrow> WrappingInt32 \<Rightarrow> bool \<Rightarrow> u64 \<Rightarrow> bool" where
  "covers segs w isn fin n \<longleftrightarrow> (\<forall>q < n. \<exists>start. \<exists>seg \<in> segs.
     seg_at w isn fin start seg \<and> start \<le> q \<and> q < start + length_in_sequence_space seg)"

lemma covers_mono:
  assumes "covers segs w isn fin n" and "segs \<subseteq> segs'"
    and "\<And>start seg. seg_at w isn fin start seg \<Longrightarrow> seg_at w' isn fin' start seg"
  shows "covers segs' w' isn fin' n"
  using assms unfolding covers_def by (meson subsetD)

definition snd_hist :: "WrappingInt32 \<Rightarrow> snd_op list \<Rightarrow> snd_world \<Rightarrow> bool" where
  "snd_hist isn h x \<longleftrightarrow> snd_inv (sw_written x) (sw_sender x) \<and> snd_isn (sw_sender x) = isn \<and>
     (input_ended (snd_stream (sw_sender x)) \<longleftrightarrow> SEnd \<in> set h) \<and>
     length (sw_written x) \<le> sum_list (map op_len h) \<and>
     (\<forall>seg \<in> set (sw_sent x). sent_ok (sw_written x) isn (snd_sent_fin (sw_sender x)) seg) \<and>
     snd ` set (snd_buffer (sw_sender x)) \<subseteq> set (all_segments x) \<and>
     covers (set (all_segments x)) (sw_written x) isn (snd_sent_fin (sw_sender x)) (snd_next_seqno (sw_sender x))"

lemma chain_covers: "chain a q b \<Longrightarrow> a \<le> n \<Longrightarrow> n < b \<Longrightarrow>
    \<exists>(start, seg) \<in> set q. start \<le> n \<and> n < start + length_in_sequence_space seg"
proof (induction a q b rule: chain.induct)
  case (2 a start seg q b)
  then show ?case by (cases "n < a + length_in_sequence_space seg") auto
qed simp

text \<open>An operation that leaves the stream's position alone and forgets no segment.\<close>

lemma snd_hist_keep:
  assumes H: "snd_hist isn h x" and inv: "snd_inv (sw_written x) s'"
    and same: "snd_isn s' = snd_isn (sw_sender x)" "snd_next_seqno s' = snd_next_seqno (sw_sender x)"
      "snd_sent_fin s' = snd_sent_fin (sw_sender x)"
      "input_ended (snd_stream s') \<longleftrightarrow> input_ended (snd_stream (sw_sender x)) \<or> op = SEnd"
    and buf: "set (snd_buffer s') \<subseteq> set (snd_buffer (sw_sender x))"
    and out: "set (all_segments x) \<subseteq> set (sent @ snd_segments_out s')"
    and sent: "\<forall>seg \<in> set sent. sent_ok (sw_written x) isn (snd_sent_fin s') seg"
    and op: "op_len op = 0" "op \<noteq> SEnd \<or> input_ended (snd_stream s')"
  shows "snd_hist isn (h @ [op]) (x\<lparr>sw_sender := s', sw_sent := sent\<rparr>)"
proof -
  have "snd ` set (snd_buffer s') \<subseteq> set (sent @ snd_segments_out s')"
    using H buf out unfolding snd_hist_def by (meson image_mono order_trans)
  moreover have "covers (set (sent @ snd_segments_out s')) (sw_written x) isn (snd_sent_fin s') (snd_next_seqno s')"
    using H out same unfolding snd_hist_def by (auto intro: covers_mono)
  ultimately show ?thesis
    using H inv same sent op unfolding snd_hist_def by auto
qed

lemma snd_hist_fill:
  assumes H: "snd_hist isn h x" and inv: "snd_inv (sw_written x) s'" and fl: "filled (sw_sender x) s'"
    and same: "snd_isn s' = snd_isn (sw_sender x)" "snd_seqno_acked s' = snd_seqno_acked (sw_sender x)"
      "input_ended (snd_stream s') \<longleftrightarrow> input_ended (snd_stream (sw_sender x))"
  shows "snd_hist isn (h @ [SFill]) (x\<lparr>sw_sender := s'\<rparr>)"
proof -
  let ?s = "sw_sender x" and ?w = "sw_written x"
  from fl obtain new where new: "snd_buffer s' = snd_buffer ?s @ new" "snd_segments_out s' = snd_segments_out ?s @ map snd new"
    by (auto simp: filled_def)
  have core: "snd_core ?w ?s" "snd_core ?w s'" using H inv by (simp_all add: snd_hist_def snd_inv_def)
  have mono: "snd_sent_fin ?s \<Longrightarrow> snd_sent_fin s'" using fl by (simp add: filled_def)
  have buf: "snd ` set (snd_buffer s') \<subseteq> set (sw_sent x @ snd_segments_out s')"
    using H new by (auto simp: snd_hist_def)
  have up: "seg_at ?w isn (snd_sent_fin ?s) st sg \<Longrightarrow> seg_at ?w isn (snd_sent_fin s') st sg"
    "sent_ok ?w isn (snd_sent_fin ?s) sg \<Longrightarrow> sent_ok ?w isn (snd_sent_fin s') sg" for st sg
    using mono by (cases "snd_sent_fin ?s"; simp add: seg_at_fin sent_ok_fin)+
  have isn: "snd_isn s' = isn" using H same(1) by (simp add: snd_hist_def)
  have old: "covers (set (sw_sent x @ snd_segments_out s')) ?w isn (snd_sent_fin s') (snd_next_seqno ?s)"
    using H new up(1) unfolding snd_hist_def by (auto intro: covers_mono)
  obtain a where a: "a \<le> snd_seqno_acked s'" "chain a (snd_buffer s') (snd_next_seqno s')"
    using core(2) by (rule snd_core_chain)
  have "\<exists>start. \<exists>seg \<in> set (sw_sent x @ snd_segments_out s'). seg_at ?w isn (snd_sent_fin s') start seg \<and>
      start \<le> q \<and> q < start + length_in_sequence_space seg"
    if q: "snd_next_seqno ?s \<le> q" "q < snd_next_seqno s'" for q
  proof -
    have "a \<le> q" using a(1) same(2) q(1) snd_core_bounds(2) [OF core(1)] by linarith
    from chain_covers [OF a(2) this q(2)] obtain start seg where
      seg: "(start, seg) \<in> set (snd_buffer s')" "start \<le> q" "q < start + length_in_sequence_space seg" by auto
    moreover have "seg_at ?w isn (snd_sent_fin s') start seg"
      using core(2) seg(1) isn by (auto simp: snd_core_def)
    moreover have "seg \<in> set (sw_sent x @ snd_segments_out s')" using buf seg(1) by force
    ultimately show ?thesis by auto
  qed
  then have "covers (set (sw_sent x @ snd_segments_out s')) ?w isn (snd_sent_fin s') (snd_next_seqno s')"
    using old unfolding covers_def by (meson not_less)
  then show ?thesis using H inv same buf up(2) isn by (simp add: snd_hist_def)
qed

lemma snd_hist_init: "0 < k \<Longrightarrow> k \<le> max_string \<Longrightarrow> s = TCPSender r k t i \<Longrightarrow>
    snd_hist (snd_isn s) [] \<lparr>sw_sender = s, sw_written = [], sw_sent = []\<rparr>"
  using TCPSender_inv [of k r t i] by (simp add: snd_hist_def covers_def) (simp add: TCPSender_def input_ended_def ByteStream_def)

lemma snd_hist_write:
  assumes H: "snd_hist isn h x" and ok: "snd_ok (h @ [SWrite d])"
  shows "returns (snd_step x (SWrite d)) (snd_hist isn (h @ [SWrite d]))"
proof -
  let ?s = "sw_sender x" and ?w = "sw_written x"
  have inv: "snd_inv ?w ?s" and open_in: "\<not> input_ended (snd_stream ?s)" and len: "length ?w + length d \<le> max_stream"
    using H ok no_late_write_last [of h d] by (auto simp: snd_hist_def snd_ok_def)
  have nofin: "\<not> snd_sent_fin ?s" using inv open_in by (auto simp: snd_inv_def snd_core_def)
  from snd_write_returns [OF inv open_in len] obtain st n where
    st: "ByteStream_write (snd_stream ?s) d = Inr (st, n)" "n \<le> length d" "\<not> input_ended st"
      "snd_inv (?w @ take n d) (?s\<lparr>snd_stream := st\<rparr>)"
    by (auto simp: returns_iff)
  have "covers (set (all_segments x)) (?w @ take n d) isn False (snd_next_seqno ?s)"
    using H nofin unfolding snd_hist_def by (auto intro: covers_mono seg_at_append)
  then show ?thesis
    using H st nofin open_in by (auto simp: snd_hist_def sent_ok_append)
qed

lemma snd_step_law:
  assumes H: "snd_hist isn h x" and ok: "snd_ok (h @ [op])"
  shows "returns (snd_step x op) (snd_hist isn (h @ [op]))"
proof -
  let ?s = "sw_sender x" and ?w = "sw_written x"
  have inv: "snd_inv ?w ?s" and isn: "snd_isn ?s = isn" using H by (simp_all add: snd_hist_def)
  have core: "snd_core ?w ?s" using inv by (simp add: snd_inv_def)
  have sent: "\<forall>seg \<in> set (sw_sent x). sent_ok ?w isn (snd_sent_fin ?s) seg" using H by (simp add: snd_hist_def)
  note keep = snd_hist_keep [OF H, where sent = "sw_sent x", simplified]
  show ?thesis
  proof (cases op)
    case (SWrite d)
    then show ?thesis using snd_hist_write [OF H] ok by simp
  next
    case SEnd
    then show ?thesis using snd_end_inv [OF inv] sent by (auto intro!: keep)
  next
    case SFill
    then show ?thesis
      using fill_window_returns [OF inv] snd_hist_fill [OF H] by (auto simp: returns_iff)
  next
    case (SAck ackno win)
    let ?t = "ack_received ?s ackno win"
    have "snd_inv ?w ?t" using inv by (rule ack_received_inv)
    moreover have "snd_isn ?t = snd_isn ?s" "snd_next_seqno ?t = snd_next_seqno ?s" "snd_sent_fin ?t = snd_sent_fin ?s"
      "snd_stream ?t = snd_stream ?s" "snd_segments_out ?t = snd_segments_out ?s"
      "set (snd_buffer ?t) \<subseteq> set (snd_buffer ?s)"
      by (auto simp: ack_received_eq [OF core] acked_to_def Let_def)
    ultimately show ?thesis using sent keep [of ?t op] unfolding SAck by simp
  next
    case (STick ms)
    then show ?thesis
      using TCPSender_tick_returns [OF inv, of ms] sent by (auto simp: returns_iff split: if_splits intro!: keep)
  next
    case SEmpty
    then show ?thesis
      using send_empty_segment_inv [OF inv] sent by (auto simp: send_empty_segment_def Let_def intro!: keep)
  next
    case SSend
    have "snd_inv ?w (?s\<lparr>snd_segments_out := []\<rparr>)" using inv snd_core_out(2) [OF core, of "[]"] by (simp add: snd_inv_def)
    moreover have "\<forall>seg \<in> set (all_segments x). sent_ok ?w isn (snd_sent_fin ?s) seg"
      using sent core isn by (auto simp: snd_core_def)
    ultimately show ?thesis
      using snd_hist_keep [OF H, of "?s\<lparr>snd_segments_out := []\<rparr>" SSend "all_segments x"] SSend by simp
  qed
qed

interpretation sender: history_invariant snd_step "snd_hist isn" snd_ok for isn
  by unfold_locales (auto intro: snd_step_law no_late_write_prefix simp: snd_ok_def)

lemma snd_run_hist:
  assumes "0 < k" and "k \<le> max_string" and "snd_ok ops" and "s = TCPSender r k t i"
  shows "returns (snd_run s ops) (snd_hist (snd_isn s) ops)"
  unfolding snd_run_def using sender.run [OF snd_hist_init [OF assms(1,2,4)] assms(3)] by simp

text \<open>Expiries of the timer, one after the other.\<close>

lemma backoff_run:
  assumes "snd_inv w s" and "snd_buffer s \<noteq> []" and "rt_time_waited (snd_timer s) = 0"
    and g: "g = (if snd_window_size s = 0 then 1 else 2)" and "rt_rto (snd_timer s) * g ^ n < U64"
  shows "returns (rfold TCPSender_tick s (map (\<lambda>j. rt_rto (snd_timer s) * g ^ j) [0..<n])) (\<lambda>s'. snd_inv w s' \<and>
    snd_segments_out s' = snd_segments_out s @ replicate n (snd (hd (snd_buffer s))) \<and>
    rt_rto (snd_timer s') = rt_rto (snd_timer s) * g ^ n \<and> rt_time_waited (snd_timer s') = 0 \<and>
    snd_consecutive_retransmissions s' = snd_consecutive_retransmissions s + (if snd_window_size s = 0 then 0 else of_nat n) \<and>
    snd_buffer s' = snd_buffer s \<and> snd_window_size s' = snd_window_size s \<and>
    snd_next_seqno s' = snd_next_seqno s \<and> snd_seqno_acked s' = snd_seqno_acked s)"
  (is "returns (rfold _ _ (map ?ms _)) (?P n)")
  using assms(5)
proof (induction n)
  case 0
  then show ?case using assms by simp
next
  case (Suc n)
  then have lt: "rt_rto (snd_timer s) * g ^ n < U64" by (auto simp: g split: if_splits)
  have step: "returns (TCPSender_tick s1 (?ms n)) (?P (Suc n))" if P: "?P n s1" for s1
  proof -
    have inv: "snd_inv w s1" using P by simp
    have "u64_mul (?ms n) 2 = ?ms n * 2" if "snd_window_size s \<noteq> 0"
      using Suc.prems that by (intro u64_mul_small) (simp add: g)
    then show ?thesis
      using TCPSender_tick_returns [OF inv, of "?ms n"] P assms(2) lt
      by (auto simp: g returns_iff rt_twice_def replicate_append_same)
  qed
  have "rfold TCPSender_tick s (map ?ms [0..<Suc n]) =
      rbind (rfold TCPSender_tick s (map ?ms [0..<n])) (\<lambda>s1. TCPSender_tick s1 (?ms n))"
    by (simp add: rfold_append rbind_unit)
  then show ?case using returns_bind [OF Suc.IH [OF lt] step] by simp
qed

lemma fill_overrun:
  assumes inv: "snd_inv w s" and over: "syn_overrun s"
  shows "returns (fill_window s) (\<lambda>s'. snd_next_seqno s' = buffer_size (snd_stream s) + 2)"
proof -
  have core: "snd_core w s" using inv by (simp add: snd_inv_def)
  have z: "snd_next_seqno s = 0" "snd_seqno_acked s = 0" using over snd_core_bounds(2) [OF core] by (auto simp: syn_overrun_def)
  have right: "snd_next_seqno s < window_right s" using z by simp
  have fin: "seg_fin s"
    using over z core by (auto simp: syn_overrun_def seg_fin_def seg_room_def snd_core_def)
  from assemble_segment_returns [OF core right] obtain s1 n stream where
    a: "assemble_segment s (snd_next_seqno s) = Inr (s1, n)"
    and s1: "s1\<lparr>snd_next_seqno := n\<rparr> = seg_pushed s stream" "snd_stream s1 = stream"
    and st: "same_flags stream (snd_stream s)" "buffer_size stream = buffer_size (snd_stream s) - seg_bytes s"
    by (auto simp: returns_iff)
  have "buffer_empty stream" using st(2) seg_fin_all [OF fin] by (simp add: buffer_empty_iff)
  then have "fill_loop (window_right s) s = Some (Inr (seg_pushed s stream))"
    using right a s1 by (subst fill_loop.simps) simp
  moreover have "snd_next_seqno (seg_pushed s stream) = buffer_size (snd_stream s) + 2"
    using seg_pushed_fields(3) [OF st(1)] fin z by (simp add: seg_assembled_length [OF core] seg_fin_all)
  moreover have "u64_add (snd_seqno_acked s) (max 1 (unat (snd_window_size s))) = window_right s"
    using z over by (simp add: syn_overrun_def)
  ultimately show ?thesis by (simp add: fill_window_def Let_def)
qed

lemma overrun_run:
  assumes "0 < k" and "k \<le> max_string" and "length d \<le> k" and "length d \<le> MAX_PAYLOAD_SIZE"
  shows "returns (snd_run (TCPSender r k t i) [SWrite d, SEnd, SFill]) (\<lambda>x.
    snd_window_size (sw_sender x) = 1 \<and> bytes_in_flight (sw_sender x) = length d + 2)"
proof -
  let ?s0 = "TCPSender r k t i"
  have inv: "snd_inv [] ?s0" using assms(1,2) by (rule TCPSender_inv)
  have rem: "remaining_capacity (snd_stream ?s0) = k"
    using bs_inv_bounds(5) [OF ByteStream_inv [OF assms(1,2)]] by (simp add: TCPSender_def ByteStream_def buffer_size_def RingBuffer_def bs_capacity_def)
  have op: "\<not> input_ended (snd_stream ?s0)" by (simp add: TCPSender_def ByteStream_def input_ended_def)
  have len: "length ([] :: bytes) + length d \<le> max_stream" using assms(4) by (simp add: MAX_PAYLOAD_SIZE_def)
  from snd_write_returns [OF inv op len] rem assms(3) obtain st where
    st: "ByteStream_write (snd_stream ?s0) d = Inr (st, length d)" "snd_inv d (?s0\<lparr>snd_stream := st\<rparr>)"
    by (auto simp: returns_iff)
  let ?s = "?s0\<lparr>snd_stream := end_input st\<rparr>"
  have inv': "snd_inv d ?s" using snd_end_inv [OF st(2)] by simp
  have z: "snd_next_seqno ?s = 0" "snd_seqno_acked ?s = 0" "snd_window_size ?s = 1" by (simp_all add: TCPSender_def)
  have "buffer_size (snd_stream ?s) = length d" using inv' z(1) by (simp add: snd_inv_def snd_core_def snd_taken_def)
  then have "syn_overrun ?s" using assms(4) z by (simp add: syn_overrun_def)
  from fill_overrun [OF inv' this] fill_window_returns [OF inv'] show ?thesis
    using st(1) z \<open>buffer_size (snd_stream ?s) = length d\<close>
    by (auto simp: snd_run_def returns_iff bytes_in_flight_def)
qed

section \<open>Properties\<close>

text \<open>C6: Whatever its owner does, a sender never ends in an exception, undefined behaviour or an endless
  loop, and what it has sent is right: every segment carries a part of what the application
  wrote, at the sequence number of that part, with the SYN on the first one only and a FIN only
  after the end of the stream, or it is an empty acknowledgment. Together the segments leave no
  gap: every sequence number below \<open>next_seqno_\<close> has been sent. The outstanding segments are those
  from the first unacknowledged number to \<open>next_seqno_\<close>, and the timer runs while there are any.\<close>

theorem sender_run_correct:
  assumes "0 < k" and "k \<le> max_string" and "snd_ok ops" and "s = TCPSender r k t i"
  shows "returns (snd_run s ops) (\<lambda>x.
    (\<forall>seg \<in> set (all_segments x). seg_pure_ack seg \<or>
       (\<exists>start. seg_at (sw_written x) (snd_isn s) (snd_sent_fin (sw_sender x)) start seg)) \<and>
    (\<forall>q < snd_next_seqno (sw_sender x). \<exists>start. \<exists>seg \<in> set (all_segments x).
       seg_at (sw_written x) (snd_isn s) (snd_sent_fin (sw_sender x)) start seg \<and>
       start \<le> q \<and> q < start + length_in_sequence_space seg) \<and>
    (\<exists>a \<le> snd_seqno_acked (sw_sender x). chain a (snd_buffer (sw_sender x)) (snd_next_seqno (sw_sender x))) \<and>
    bytes_in_flight (sw_sender x) = snd_next_seqno (sw_sender x) - snd_seqno_acked (sw_sender x) \<and>
    (rt_running (snd_timer (sw_sender x)) \<longleftrightarrow> 0 < bytes_in_flight (sw_sender x)))"
  using snd_run_hist [OF assms]
proof (rule returns_mono)
  fix x assume H: "snd_hist (snd_isn s) ops x"
  then have inv: "snd_inv (sw_written x) (sw_sender x)" and core: "snd_core (sw_written x) (sw_sender x)"
    by (simp_all add: snd_hist_def snd_inv_def)
  have b: "bytes_in_flight (sw_sender x) = snd_next_seqno (sw_sender x) - snd_seqno_acked (sw_sender x)"
    using snd_core_bounds(2) [OF core] by (simp add: bytes_in_flight_def)
  have run: "rt_running (snd_timer (sw_sender x)) \<longleftrightarrow> 0 < bytes_in_flight (sw_sender x)"
    using inv snd_buffer_empty_iff [OF core] snd_core_bounds(2) [OF core] unfolding b snd_inv_def by auto
  have "\<forall>seg \<in> set (all_segments x). sent_ok (sw_written x) (snd_isn s) (snd_sent_fin (sw_sender x)) seg"
    using H core by (auto simp: snd_hist_def snd_core_def)
  then show "(\<forall>seg \<in> set (all_segments x). seg_pure_ack seg \<or>
       (\<exists>start. seg_at (sw_written x) (snd_isn s) (snd_sent_fin (sw_sender x)) start seg)) \<and>
    (\<forall>q < snd_next_seqno (sw_sender x). \<exists>start. \<exists>seg \<in> set (all_segments x).
       seg_at (sw_written x) (snd_isn s) (snd_sent_fin (sw_sender x)) start seg \<and>
       start \<le> q \<and> q < start + length_in_sequence_space seg) \<and>
    (\<exists>a \<le> snd_seqno_acked (sw_sender x). chain a (snd_buffer (sw_sender x)) (snd_next_seqno (sw_sender x))) \<and>
    bytes_in_flight (sw_sender x) = snd_next_seqno (sw_sender x) - snd_seqno_acked (sw_sender x) \<and>
    (rt_running (snd_timer (sw_sender x)) \<longleftrightarrow> 0 < bytes_in_flight (sw_sender x))"
    using H core b run unfolding snd_hist_def covers_def sent_ok_def by (simp add: snd_core_def)
qed

theorem sender_run_correct_witness:
  "\<exists>x. snd_run (TCPSender 7 4 1000 None) [SWrite [1, 2], SFill, SSend, STick 5] = Inr x \<and>
     (rt_running (snd_timer (sw_sender x)) \<longleftrightarrow> 0 < bytes_in_flight (sw_sender x))"
  using sender_run_correct [of 4 "[SWrite [1, 2], SFill, SSend, STick 5]" "TCPSender 7 4 1000 None" 7 1000 None]
  by (auto simp: snd_ok_def returns_iff)

text \<open>C12: \<open>fill_window\<close>, in every state a sender can reach, returns and fills the window: it never goes
  beyond the window's right edge, unless the sender was beyond it already, or for a SYN sent after the application
  has already ended a short stream, and it stops short of that edge only when nothing is left to send, the FIN
  included. What it sends it also keeps for retransmission.\<close>

theorem sender_fill_window:
  assumes "0 < k" and "k \<le> max_string" and "snd_ok ops"
    and "snd_run (TCPSender r k t i) ops = Inr x" and "s = sw_sender x"
    and "right = snd_seqno_acked s + max 1 (unat (snd_window_size s))"
  shows "returns (fill_window s) (\<lambda>s'.
    (snd_next_seqno s' \<le> max (snd_next_seqno s) right \<or>
      snd_next_seqno s = 0 \<and> unat (snd_window_size s) \<le> 1 \<and> input_ended (snd_stream s) \<and>
      buffer_size (snd_stream s) \<le> MAX_PAYLOAD_SIZE) \<and>
    (right \<le> snd_next_seqno s' \<or>
      buffer_size (snd_stream s') = 0 \<and> (input_ended (snd_stream s) \<longrightarrow> snd_sent_fin s')) \<and>
    (\<exists>new. snd_buffer s' = snd_buffer s @ new \<and> snd_segments_out s' = snd_segments_out s @ map snd new))"
proof -
  have "snd_inv (sw_written x) s"
    using snd_run_hist [OF assms(1-3) refl, of r t i] assms(4,5) by (simp add: snd_hist_def)
  from fill_window_returns [OF this] show ?thesis
    using assms(6) by (elim returns_mono) (simp add: filled_def syn_overrun_def)
qed

theorem sender_fill_window_witness:
  "\<exists>s'. fill_window (TCPSender 7 4 1000 None) = Inr s' \<and> snd_next_seqno s' \<le> 1"
  using sender_fill_window [of 4 "[]" 7 1000 None, OF _ _ _ _ refl refl]
  by (auto simp: snd_run_def snd_ok_def returns_iff TCPSender_def ByteStream_def input_ended_def)

text \<open>C15: \<open>ack_received\<close> ignores an acknowledgment of something not yet sent. Otherwise it takes the window,
  moves the first unacknowledged number forward, never back, and drops exactly the outstanding
  segments that are acknowledged in full. Only a new acknowledgment resets the retransmission
  timeout and its count, and the timer stops exactly when nothing is outstanding.\<close>

theorem sender_ack_correct:
  assumes "snd_inv w s" and "absno = unwrap ackno (snd_isn s) (snd_seqno_acked s)" and "s' = ack_received s ackno win"
  shows "(snd_next_seqno s < absno \<longrightarrow> s' = s) \<and>
    (absno \<le> snd_next_seqno s \<longrightarrow>
      snd_window_size s' = win \<and> snd_seqno_acked s' = max (snd_seqno_acked s) absno \<and>
      snd_buffer s' = filter (\<lambda>(start, seg). snd_seqno_acked s' < start + length_in_sequence_space seg) (snd_buffer s) \<and>
      (rt_running (snd_timer s') \<longleftrightarrow> snd_seqno_acked s' < snd_next_seqno s') \<and>
      (snd_seqno_acked s < absno \<longrightarrow> snd_consecutive_retransmissions s' = 0 \<and>
        rt_rto (snd_timer s') = unat (rt_initial_rto (snd_timer s)) \<and> rt_time_waited (snd_timer s') = 0) \<and>
      (absno \<le> snd_seqno_acked s \<longrightarrow> snd_timer s' = snd_timer s \<and>
        snd_consecutive_retransmissions s' = snd_consecutive_retransmissions s))"
proof -
  have core: "snd_core w s" using assms(1) by (simp add: snd_inv_def)
  have inv': "snd_inv w s'" unfolding assms(3) using assms(1) by (rule ack_received_inv)
  then have "rt_running (snd_timer s') \<longleftrightarrow> snd_seqno_acked s' < snd_next_seqno s'"
    using snd_buffer_empty_iff [of w s'] snd_core_bounds(2) [of w s'] by (auto simp: snd_inv_def)
  moreover have "rt_stop (snd_timer s) = snd_timer s" if "snd_buffer s = []"
    using assms(1) that by (simp add: snd_inv_def rt_stop_def)
  moreover have "snd_timer s' = (if snd_buffer s = [] then rt_stop (snd_timer s) else snd_timer s)"
    if "absno \<le> snd_seqno_acked s" "absno \<le> snd_next_seqno s"
    using that snd_buffer_unacked [OF core] assms(2,3)
    by (simp add: ack_received_eq [OF core] acked_to_def Let_def max_absorb2)
  moreover have "rt_running (snd_timer s) \<longleftrightarrow> snd_buffer s \<noteq> []" using assms(1) by (simp add: snd_inv_def)
  moreover have "s' = (if snd_next_seqno s < absno then s else acked_to s absno win)"
    using assms(2,3) by (simp add: ack_received_eq [OF core] Let_def)
  ultimately show ?thesis
    by (auto simp: acked_to_def Let_def max.commute rt_stop_def split: if_splits)
qed

theorem sender_ack_correct_witness:
  "ack_received (TCPSender 7 4 1000 None) (WrappingInt32 9) 5 = TCPSender 7 4 1000 None \<and>
   snd_window_size (ack_received (TCPSender 7 4 1000 None) (WrappingInt32 7) 5) = 5"
proof
  have inv: "snd_inv [] (TCPSender 7 4 1000 None)" by (rule TCPSender_inv) simp_all
  have u: "unwrap (WrappingInt32 9) (WrappingInt32 7) 0 = 2" "unwrap (WrappingInt32 7) (WrappingInt32 7) 0 = 0"
    by (simp_all add: unwrap_def Let_def u64_add_def u64_sub_def u64_mul_def)
  show "ack_received (TCPSender 7 4 1000 None) (WrappingInt32 9) 5 = TCPSender 7 4 1000 None"
    using sender_ack_correct [OF inv refl refl, of "WrappingInt32 9" 5] u by (simp add: TCPSender_def)
  show "snd_window_size (ack_received (TCPSender 7 4 1000 None) (WrappingInt32 7) 5) = 5"
    using sender_ack_correct [OF inv refl refl, of "WrappingInt32 7" 5] u by (simp add: TCPSender_def)
qed

text \<open>C16: While nothing is acknowledged, every expiry of the timer sends the oldest outstanding segment again,
  and \<open>n\<close> expiries queue \<open>n\<close> copies of it and change nothing that is outstanding. With an open window each of
  them doubles the timeout and counts: the timeout is then 2^n times what it was and the count has grown by \<open>n\<close>.
  With the window closed the segment is a probe: the timeout stays and nothing is counted.\<close>

theorem sender_backoff:
  assumes "snd_inv w s" and "snd_buffer s \<noteq> []" and "rt_time_waited (snd_timer s) = 0"
    and "g = (if snd_window_size s = 0 then 1 else 2)" and "rt_rto (snd_timer s) * g ^ n < U64"
  shows "returns (rfold TCPSender_tick s (map (\<lambda>j. rt_rto (snd_timer s) * g ^ j) [0..<n])) (\<lambda>s'.
    snd_segments_out s' = snd_segments_out s @ replicate n (snd (hd (snd_buffer s))) \<and>
    rt_rto (snd_timer s') = rt_rto (snd_timer s) * g ^ n \<and>
    snd_consecutive_retransmissions s' = snd_consecutive_retransmissions s + (if snd_window_size s = 0 then 0 else of_nat n) \<and>
    snd_buffer s' = snd_buffer s \<and> snd_next_seqno s' = snd_next_seqno s \<and> snd_seqno_acked s' = snd_seqno_acked s)"
  using backoff_run [OF assms] by (rule returns_mono) simp

theorem sender_backoff_witness:
  "\<exists>s s' z'. fill_window (TCPSender 7 4 1000 None) = Inr s \<and>
     rfold TCPSender_tick s [1000, 2000, 4000] = Inr s' \<and> rt_rto (snd_timer s') = 8000 \<and>
     rfold TCPSender_tick (ack_received s (WrappingInt32 7) 0) [1000, 1000, 1000] = Inr z' \<and> rt_rto (snd_timer z') = 1000 \<and>
     snd_consecutive_retransmissions z' = 0 \<and> length (snd_segments_out z') = length (snd_segments_out s) + 3"
proof -
  have inv: "snd_inv [] (TCPSender 7 4 1000 None)" by (rule TCPSender_inv) simp_all
  obtain s where s: "fill_window (TCPSender 7 4 1000 None) = Inr s" "snd_inv [] s"
    using fill_window_returns [OF inv] by (auto simp: returns_iff)
  have f: "snd_window_size s = 1" "0 < snd_next_seqno s" "snd_seqno_acked s = 0"
    "snd_buffer s \<noteq> [] \<longrightarrow> snd_timer s = rt_start (rt_reset (RetransmissionTimer 1000))"
    "snd_isn s = WrappingInt32 7" "snd_consecutive_retransmissions s = 0"
    using fill_window_returns [OF inv] s(1) by (simp_all add: returns_iff filled_def) (simp_all add: TCPSender_def)
  then have b: "snd_buffer s \<noteq> []" using snd_buffer_empty_iff [of "[]" s] s(2) by (simp add: snd_inv_def)
  have t: "rt_rto (snd_timer s) = 1000" "rt_time_waited (snd_timer s) = 0"
    using f(4) b by (simp_all add: RetransmissionTimer_def)
  have "map (\<lambda>j. rt_rto (snd_timer s) * 2 ^ j) [0..<3] = [1000, 2000, 4000]" by (simp add: t(1) upt_rec)
  with sender_backoff [OF s(2) b t(2) refl, of 3] obtain s' where s':
    "rfold TCPSender_tick s [1000, 2000, 4000] = Inr s'" "rt_rto (snd_timer s') = 8000"
    using t(1) f(1) by (auto simp: returns_iff)
  let ?z = "ack_received s (WrappingInt32 7) 0"
  have z: "snd_inv [] ?z" using s(2) by (rule ack_received_inv)
  have "unwrap (WrappingInt32 7) (snd_isn s) (snd_seqno_acked s) = 0"
    by (simp add: f unwrap_def Let_def u64_add_def u64_sub_def u64_mul_def)
  then have e: "?z = acked_to s 0 0" using ack_received_eq [of "[]" s] s(2) by (simp add: snd_inv_def)
  have zf: "snd_window_size ?z = 0" "snd_consecutive_retransmissions ?z = 0" "snd_segments_out ?z = snd_segments_out s"
    "snd_buffer ?z \<noteq> [] \<longrightarrow> snd_timer ?z = snd_timer s" "snd_seqno_acked ?z = 0" "snd_next_seqno ?z = snd_next_seqno s"
    unfolding e by (simp_all add: acked_to_def Let_def f)
  then have zb: "snd_buffer ?z \<noteq> []" using snd_buffer_empty_iff [of "[]" ?z] z f(2) by (simp add: snd_inv_def)
  with zf t have zt: "rt_rto (snd_timer ?z) = 1000" "rt_time_waited (snd_timer ?z) = 0" by simp_all
  have "map (\<lambda>j. rt_rto (snd_timer ?z) * 1 ^ j) [0..<3] = [1000, 1000, 1000]" by (simp add: zt(1) upt_rec)
  with sender_backoff [OF z zb zt(2) refl, of 3] obtain z' where
    "rfold TCPSender_tick ?z [1000, 1000, 1000] = Inr z'" "rt_rto (snd_timer z') = 1000"
    "snd_consecutive_retransmissions z' = 0" "length (snd_segments_out z') = length (snd_segments_out s) + 3"
    using zt(1) zf by (auto simp: returns_iff)
  with s(1) s' show ?thesis by blast
qed

text \<open>C20: The first segment can overrun the peer's window. When the application has written up to 1000 bytes
  and ended the stream before the SYN is sent, the room left after the SYN is zero, the
  subtraction of one for the FIN wraps around, and SYN, data and FIN all go out although the
  window, which the sender has to take as one, allows only the SYN.\<close>

theorem sender_syn_overruns_window:
  assumes "0 < k" and "k \<le> max_string" and "length d \<le> k" and "length d \<le> MAX_PAYLOAD_SIZE"
  shows "returns (snd_run (TCPSender r k t i) [SWrite d, SEnd, SFill]) (\<lambda>x.
    snd_window_size (sw_sender x) = 1 \<and> bytes_in_flight (sw_sender x) = length d + 2)"
  using assms by (rule overrun_run)

theorem sender_syn_overruns_window_witness:
  "\<exists>x. snd_run (TCPSender 7 4 1000 None) [SWrite [1, 2, 3], SEnd, SFill] = Inr x \<and>
     snd_window_size (sw_sender x) = 1 \<and> bytes_in_flight (sw_sender x) = 5"
  using sender_syn_overruns_window [of 4 "[1, 2, 3]" 7 1000 None]
  by (auto simp: returns_iff MAX_PAYLOAD_SIZE_def)

end
