(* ===== verification/Stream_Reassembler.thy ===== *)
theory Stream_Reassembler
  imports Byte_Stream
begin

text \<open>
  \<^verbatim>\<open>libsponge/stream_reassembler.hh\<close> and \<^verbatim>\<open>.cc\<close>: excerpts of a byte stream, out of order and
  overlapping, are put together into an in-order \<open>ByteStream\<close>. The pending excerpts are a
  list of half-open intervals with their bytes (the \<open>forward_list\<close> \<open>data_\<close>).

  The invariant \<open>sr_inv src\<close> says that the intervals are sorted with a gap between
  neighbours, hold the bytes of the source stream \<open>src\<close> at their positions, and stay inside the
  window. Its abstraction is the set \<open>cov\<close> of pending positions: \<open>assemble\<close> adds the part of
  the excerpt that lies in the window to it, and \<open>output\<close> moves the longest contiguous run
  into the output stream.
\<close>

section \<open>Operations\<close>

text \<open>A pending excerpt: \<open>((start, end), bytes)\<close> for the half-open interval [start, end).\<close>

type_synonym interval = "(size_t \<times> size_t) \<times> bytes"

abbreviation iv_lo :: "interval \<Rightarrow> size_t" where
  "iv_lo iv \<equiv> fst (fst iv)"

abbreviation iv_hi :: "interval \<Rightarrow> size_t" where
  "iv_hi iv \<equiv> snd (fst iv)"

abbreviation iv_bytes :: "interval \<Rightarrow> bytes" where
  "iv_bytes iv \<equiv> snd iv"

record stream_reassembler =
  sr_capacity :: size_t
  sr_output :: byte_stream
  sr_data :: "interval list"
  sr_size :: size_t
  sr_next :: size_t
  sr_eof_num :: size_t
  sr_eof :: bool

definition StreamReassembler :: "size_t \<Rightarrow> stream_reassembler" where
  "StreamReassembler capacity =
     \<lparr>sr_capacity = capacity, sr_output = ByteStream capacity, sr_data = [], sr_size = 0,
      sr_next = 0, sr_eof_num = 0, sr_eof = False\<rparr>"

text \<open>Merging the excerpt at \<open>[start, start + len)\<close> into the first stored interval it touches: the
  new interval, and how many bytes of the excerpt were kept.\<close>

definition merge_into ::
  "bytes \<Rightarrow> size_t \<Rightarrow> size_t \<Rightarrow> size_t \<Rightarrow> interval \<Rightarrow> (interval \<times> size_t) res" where
  "merge_into input offset start len it =
     (let range_end = u64_add start len;
          mini = min (iv_lo it) start;
          maxj = max (iv_hi it) range_end
      in rbind
           (if mini = iv_lo it then
              if maxj \<noteq> iv_hi it then
                let bypass = u64_sub (iv_hi it) start; keep = u64_sub len bypass
                in rbind (string_substr input (u64_add offset bypass) keep)
                     (\<lambda>t. Inr (iv_bytes it @ t, keep))
              else Inr (iv_bytes it, 0)
            else if maxj = iv_hi it then
              let keep = u64_sub (iv_lo it) start
              in rbind (string_substr input offset keep) (\<lambda>t. Inr (t @ iv_bytes it, keep))
            else
              let keep = u64_sub len (length (iv_bytes it))
              in rbind (string_substr input offset len) (\<lambda>t. Inr (t, keep)))
           (\<lambda>(s, keep). Inr (((mini, maxj), s), keep)))"

text \<open>The loop that erases the following intervals that end within the merged one.\<close>

fun absorb :: "size_t \<Rightarrow> interval list \<Rightarrow> size_t \<Rightarrow> interval list \<times> size_t" where
  "absorb hi [] sz = ([], sz)"
| "absorb hi (it # after) sz =
     (if hi \<ge> iv_hi it then absorb hi after (u64_sub sz (length (iv_bytes it)))
      else (it # after, sz))"

text \<open>Joining the next interval when the merged one reaches into it.\<close>

fun join_next :: "interval \<Rightarrow> interval list \<Rightarrow> size_t \<Rightarrow> (interval \<times> interval list \<times> size_t) res" where
  "join_next prev [] sz = Inr (prev, [], sz)"
| "join_next prev (it # after) sz =
     (if iv_lo it \<le> iv_hi prev then
        let bypass = u64_sub (iv_hi prev) (iv_lo it)
        in rbind (string_substr (iv_bytes it) bypass (length (iv_bytes it)))
             (\<lambda>t. Inr (((iv_lo prev, iv_hi it), iv_bytes prev @ t), after, u64_sub sz bypass))
      else Inr (prev, it # after, sz))"

definition assemble :: "stream_reassembler \<Rightarrow> bytes \<Rightarrow> size_t \<Rightarrow> stream_reassembler res" where
  "assemble r input index =
     (let upper = u64_add (sr_next r) (u64_sub (sr_capacity r) (buffer_size (sr_output r)))
      in if length input = 0 \<or> sr_next r \<ge> u64_add index (length input) \<or> index \<ge> upper then Inr r
         else
           let start = max (sr_next r) index;
               offset = u64_sub start index;
               len = min (u64_sub (length input) offset) (u64_sub upper start);
               range_end = u64_add start len;
               before = takeWhile (\<lambda>iv. start > iv_hi iv) (sr_data r);
               from_it = dropWhile (\<lambda>iv. start > iv_hi iv) (sr_data r)
           in if from_it = [] \<or> range_end < iv_lo (hd from_it) then
                rbind (string_substr input offset len) (\<lambda>t.
                  Inr (r\<lparr>sr_size := u64_add (sr_size r) len,
                         sr_data := before @ ((start, range_end), t) # from_it\<rparr>))
              else
                rbind (merge_into input offset start len (hd from_it)) (\<lambda>(it, keep).
                  case absorb (iv_hi it) (tl from_it) (u64_add (sr_size r) keep) of
                    (after, sz) \<Rightarrow>
                      rbind (join_next it after sz) (\<lambda>(it', after', sz').
                        Inr (r\<lparr>sr_size := sz', sr_data := before @ it' # after'\<rparr>))))"

definition check_end_input :: "stream_reassembler \<Rightarrow> size_t \<Rightarrow> bool \<Rightarrow> stream_reassembler" where
  "check_end_input r index eof =
     (let r1 = (if eof then r\<lparr>sr_eof := True, sr_eof_num := index\<rparr> else r)
      in if sr_eof r1 \<and> sr_eof_num r1 = sr_next r1
         then r1\<lparr>sr_output := end_input (sr_output r1)\<rparr> else r1)"

definition sr_flush :: "stream_reassembler \<Rightarrow> stream_reassembler res" where
  "sr_flush r =
     (case sr_data r of
        [] \<Rightarrow> Inr r
      | it # after \<Rightarrow>
          if sr_next r \<noteq> iv_lo it then Inr r
          else rbind (ByteStream_write (sr_output r) (iv_bytes it))
                 (\<lambda>(out, _). Inr (r\<lparr>sr_next := iv_hi it,
                    sr_size := u64_sub (sr_size r) (length (iv_bytes it)),
                    sr_output := out, sr_data := after\<rparr>)))"

definition push_substring ::
  "stream_reassembler \<Rightarrow> bytes \<Rightarrow> u64 \<Rightarrow> bool \<Rightarrow> stream_reassembler res" where
  "push_substring r data index eof =
     rbind (assemble r data index) (\<lambda>r1.
     rbind (sr_flush r1) (\<lambda>r2.
     Inr (check_end_input r2 (u64_add index (length data)) eof)))"

definition unassembled_bytes :: "stream_reassembler \<Rightarrow> size_t" where
  "unassembled_bytes r = sr_size r"

definition sr_empty :: "stream_reassembler \<Rightarrow> bool" where
  "sr_empty r \<longleftrightarrow> sr_eof r \<and> sr_eof_num r = sr_next r"

section \<open>Interval lists\<close>

definition iv_ok :: "(nat \<Rightarrow> byte) \<Rightarrow> interval \<Rightarrow> bool" where
  "iv_ok src iv \<longleftrightarrow> iv_lo iv < iv_hi iv \<and> iv_bytes iv = map src [iv_lo iv..<iv_hi iv]"

definition ivs_ok :: "(nat \<Rightarrow> byte) \<Rightarrow> interval list \<Rightarrow> bool" where
  "ivs_ok src d \<longleftrightarrow> (\<forall>iv \<in> set d. iv_ok src iv) \<and> sorted_wrt (\<lambda>x y. iv_hi x < iv_lo y) d"

definition cov :: "interval list \<Rightarrow> nat set" where
  "cov d = (\<Union>iv \<in> set d. {iv_lo iv..<iv_hi iv})"

definition iv_total :: "interval list \<Rightarrow> nat" where
  "iv_total d = (\<Sum>iv\<leftarrow>d. length (iv_bytes iv))"

lemma cov_simps [simp]:
  "cov [] = {}" "cov (iv # d) = {iv_lo iv..<iv_hi iv} \<union> cov d" "cov (d @ d') = cov d \<union> cov d'"
  by (auto simp: cov_def)

lemma iv_total_simps [simp]:
  "iv_total [] = 0" "iv_total (iv # d) = length (iv_bytes iv) + iv_total d" "iv_total (d @ d') = iv_total d + iv_total d'"
  by (simp_all add: iv_total_def)

lemma iv_okD: "iv_ok src iv \<Longrightarrow> length (iv_bytes iv) = iv_hi iv - iv_lo iv"
  "iv_ok src iv \<Longrightarrow> iv_lo iv < iv_hi iv"
  by (simp_all add: iv_ok_def)

lemma ivs_ok_simps [simp]:
  "ivs_ok src []"
  "ivs_ok src (iv # d) \<longleftrightarrow> iv_ok src iv \<and> (\<forall>x \<in> set d. iv_hi iv < iv_lo x) \<and> ivs_ok src d"
  "ivs_ok src (d @ d') \<longleftrightarrow> ivs_ok src d \<and> ivs_ok src d' \<and> (\<forall>x \<in> set d. \<forall>y \<in> set d'. iv_hi x < iv_lo y)"
  by (auto simp: ivs_ok_def sorted_wrt_append)

lemma finite_cov [simp]: "finite (cov d)"
  by (simp add: cov_def)

text \<open>Sorted intervals with gaps do not overlap: the bytes stored are as many as the positions.\<close>

lemma iv_total_card: "ivs_ok src d \<Longrightarrow> iv_total d = card (cov d)"
proof (induction d)
  case (Cons iv d)
  have "{iv_lo iv..<iv_hi iv} \<inter> cov d = {}"
    using Cons.prems by (fastforce simp: cov_def)
  then show ?case using Cons by (simp add: card_Un_disjoint iv_ok_def)
qed simp

section \<open>assemble\<close>

lemma map_upt_append: "a \<le> b \<Longrightarrow> b \<le> c \<Longrightarrow> map f [a..<b] @ map f [b..<c] = map f [a..<c]"
  by (metis map_append upt_add_eq_append le_add_diff_inverse)

lemma excerpt_substr:
  assumes "take len (drop offset input) = map src [start..<start + len]"
    and "k + n \<le> len"
  shows "take n (drop (offset + k) input) = map src [start + k..<start + k + n]"
proof -
  have "take n (drop (offset + k) input) = take n (drop k (take len (drop offset input)))"
    using assms(2) by (simp add: drop_take add.commute min_def)
  also have "\<dots> = map src [start + k..<start + k + n]"
    unfolding assms(1) using assms(2) by (simp add: drop_map take_map take_upt)
  finally show ?thesis .
qed

lemma merge_into_eq:
  assumes it: "iv_ok src it" and touch: "start \<le> iv_hi it" "iv_lo it \<le> start + len"
    and bound: "start + len < U64" "offset + len \<le> length input" "length input < U64"
    and ex: "take len (drop offset input) = map src [start..<start + len]"
  shows "merge_into input offset start len it =
    (let lo = min (iv_lo it) start; hi = max (iv_hi it) (start + len)
     in Inr (((lo, hi), map src [lo..<hi]), hi - lo - length (iv_bytes it)))"
proof -
  obtain a b s where [simp]: "it = ((a, b), s)" by (metis prod.exhaust)
  have ab: "a < b" "s = map src [a..<b]" using it by (simp_all add: iv_ok_def)
  have t: "start \<le> b" "a \<le> start + len" using touch by simp_all
  consider "a \<le> start" "b < start + len" | "a \<le> start" "start + len \<le> b"
    | "start < a" "start + len \<le> b" | "start < a" "b < start + len" by linarith
  then show ?thesis
  proof cases
    case 1
    then have "take (start + len - b) (drop (offset + (b - start)) input) = map src [b..<start + len]"
      using t excerpt_substr [OF ex, of "b - start" "start + len - b"] by simp
    moreover have "u64_sub len (b - start) = start + len - b" "u64_add offset (b - start) = offset + (b - start)"
      "offset + (b - start) \<le> length input" using 1 t bound by simp_all
    ultimately show ?thesis using 1 t bound(1) ab
      by (simp add: merge_into_def Let_def max_def min_def map_upt_append)
  next
    case 2
    then show ?thesis using t bound ab by (simp add: merge_into_def Let_def max_def min_def)
  next
    case 3
    then have "take (a - start) (drop offset input) = map src [start..<a]"
      using t excerpt_substr [OF ex, of 0 "a - start"] by simp
    then show ?thesis using 3 t bound ab
      by (simp add: merge_into_def Let_def max_def min_def map_upt_append)
  next
    case 4
    then show ?thesis using t bound ab ex by (simp add: merge_into_def Let_def max_def min_def)
  qed
qed

lemma absorb_eq:
  "iv_total d \<le> sz \<Longrightarrow> absorb hi d sz =
     (dropWhile (\<lambda>iv. iv_hi iv \<le> hi) d, sz - iv_total (takeWhile (\<lambda>iv. iv_hi iv \<le> hi) d))"
  by (induction d arbitrary: sz) auto

lemma iv_total_takeWhile: "iv_total (takeWhile P d) + iv_total (dropWhile P d) = iv_total d"
  by (metis iv_total_simps(3) takeWhile_dropWhile_id)

lemma ivs_ok_dropWhile: "ivs_ok src d \<Longrightarrow> ivs_ok src (dropWhile P d)"
  by (metis ivs_ok_simps(3) takeWhile_dropWhile_id)

lemma cov_dropWhile:
  assumes "\<forall>x \<in> set d. lo < iv_lo x"
  shows "{lo..<hi} \<union> cov (dropWhile (\<lambda>iv. iv_hi iv \<le> hi) d) = {lo..<hi} \<union> cov d"
proof -
  have "cov (takeWhile (\<lambda>iv. iv_hi iv \<le> hi) d) \<subseteq> {lo..<hi}"
    using assms by (auto simp: cov_def dest!: set_takeWhileD)
  moreover have "cov d = cov (takeWhile (\<lambda>iv. iv_hi iv \<le> hi) d) \<union> cov (dropWhile (\<lambda>iv. iv_hi iv \<le> hi) d)"
    by (metis cov_simps(3) takeWhile_dropWhile_id)
  ultimately show ?thesis by blast
qed

lemma join_next_returns:
  assumes prev: "iv_ok src prev" and d: "ivs_ok src d" "\<forall>x \<in> set d. iv_lo prev < iv_lo x"
    and hd: "d \<noteq> [] \<Longrightarrow> iv_hi prev < iv_hi (hd d)"
    and sz: "sz = base + length (iv_bytes prev) + iv_total d"
  shows "returns (join_next prev d sz) (\<lambda>(it, after, sz'). ivs_ok src (it # after) \<and>
    iv_lo it = iv_lo prev \<and> set after \<subseteq> set d \<and> cov (it # after) = {iv_lo prev..<iv_hi prev} \<union> cov d \<and>
    sz' = base + iv_total (it # after))"
proof (cases d)
  case Nil
  then show ?thesis using prev sz by simp
next
  case (Cons it after)
  have it: "iv_lo prev < iv_lo it" "iv_lo it < iv_hi it" "iv_hi prev < iv_hi it"
    "iv_bytes it = map src [iv_lo it..<iv_hi it]" "\<forall>x \<in> set after. iv_hi it < iv_lo x"
    using d hd Cons by (simp_all add: iv_ok_def)
  have p: "iv_lo prev < iv_hi prev" "iv_bytes prev = map src [iv_lo prev..<iv_hi prev]"
    using prev by (simp_all add: iv_ok_def)
  show ?thesis
  proof (cases "iv_lo it \<le> iv_hi prev")
    case True
    have "drop (iv_hi prev - iv_lo it) (map src [iv_lo it..<iv_hi it]) = map src [iv_hi prev..<iv_hi it]"
      using True by (simp add: drop_map)
    moreover have "{iv_lo prev..<iv_hi it} = {iv_lo prev..<iv_hi prev} \<union> {iv_lo it..<iv_hi it}"
      using True it p by auto
    ultimately show ?thesis using True it p Cons d sz
      by (simp add: iv_ok_def map_upt_append Un_assoc) auto
  next
    case False
    then have "\<forall>x \<in> set after. iv_hi prev < iv_lo x" using it by fastforce
    with False show ?thesis using Cons d prev sz by auto
  qed
qed

lemma absorb_join_returns:
  assumes prev: "iv_ok src prev" and d: "ivs_ok src d" "\<forall>x \<in> set d. iv_lo prev < iv_lo x"
    and sz: "sz = base + length (iv_bytes prev) + iv_total d"
  shows "returns (case absorb (iv_hi prev) d sz of (after, sz1) \<Rightarrow> join_next prev after sz1)
    (\<lambda>(it, after, sz'). ivs_ok src (it # after) \<and>
    iv_lo it = iv_lo prev \<and> set after \<subseteq> set d \<and> cov (it # after) = {iv_lo prev..<iv_hi prev} \<union> cov d \<and>
    sz' = base + iv_total (it # after))"
proof -
  let ?P = "\<lambda>iv :: interval. iv_hi iv \<le> iv_hi prev"
  have eq: "absorb (iv_hi prev) d sz = (dropWhile ?P d, base + length (iv_bytes prev) + iv_total (dropWhile ?P d))"
    using sz iv_total_takeWhile [of ?P d] by (subst absorb_eq) auto
  moreover have "dropWhile ?P d \<noteq> [] \<Longrightarrow> iv_hi prev < iv_hi (hd (dropWhile ?P d))"
    using hd_dropWhile [of ?P d] by simp
  moreover have sub: "set (dropWhile ?P d) \<subseteq> set d" by (auto dest: set_dropWhileD)
  ultimately have "returns (join_next prev (dropWhile ?P d) (base + length (iv_bytes prev) + iv_total (dropWhile ?P d)))
    (\<lambda>(it, after, sz'). ivs_ok src (it # after) \<and> iv_lo it = iv_lo prev \<and>
      set after \<subseteq> set (dropWhile ?P d) \<and>
      cov (it # after) = {iv_lo prev..<iv_hi prev} \<union> cov (dropWhile ?P d) \<and> sz' = base + iv_total (it # after))"
    using d by (intro join_next_returns [OF prev ivs_ok_dropWhile]) auto
  then show ?thesis
    unfolding eq prod.case cov_dropWhile [OF d(2)] by (rule returns_mono) (use sub in auto)
qed

text \<open>The first position after the window; positions stay below 2^63, so none of the sums wraps.\<close>

definition sr_upper :: "stream_reassembler \<Rightarrow> nat" where
  "sr_upper r = sr_next r + (sr_capacity r - buffer_size (sr_output r))"

definition sr_small :: "stream_reassembler \<Rightarrow> bool" where
  "sr_small r \<longleftrightarrow> sr_next r + sr_capacity r \<le> 2 ^ 63"

text \<open>The positions of an excerpt that lie in the window.\<close>

definition in_window :: "stream_reassembler \<Rightarrow> size_t \<Rightarrow> bytes \<Rightarrow> nat set" where
  "in_window r index input = {index..<index + length input} \<inter> {sr_next r..<sr_upper r}"

definition assembled :: "(nat \<Rightarrow> byte) \<Rightarrow> stream_reassembler \<Rightarrow> nat set \<Rightarrow> stream_reassembler \<Rightarrow> bool" where
  "assembled src r A r' \<longleftrightarrow> (\<exists>d. r' = r\<lparr>sr_size := iv_total d, sr_data := d\<rparr> \<and> ivs_ok src d \<and> cov d = A)"

lemma from_it_bounds:
  assumes "ivs_ok src (before @ from_it)" "from_it \<noteq> []"
  shows "\<forall>y \<in> set (tl from_it). iv_hi (hd from_it) < iv_lo y"
    "iv_ok src (hd from_it)" "ivs_ok src (tl from_it)"
    "\<forall>x \<in> set before. iv_hi x < iv_lo (hd from_it)"
    "\<forall>x \<in> set before. \<forall>y \<in> set (tl from_it). iv_hi x < iv_lo y"
  using assms by (cases from_it; simp)+

lemma assemble_insert:
  assumes ok: "ivs_ok src (before @ from_it)" and b: "\<forall>x \<in> set before. iv_hi x < start"
    and gap: "from_it = [] \<or> e < iv_lo (hd from_it)" and se: "start < e"
  shows "ivs_ok src (before @ ((start, e), map src [start..<e]) # from_it)"
proof -
  have "e < iv_lo y" if "y \<in> set from_it" for y
    using that gap ok by (cases from_it) (auto simp: iv_ok_def)
  then show ?thesis using ok b se by (auto simp: iv_ok_def)
qed

lemma assemble_merge:
  assumes ok: "ivs_ok src (before @ from_it)" and b: "\<forall>x \<in> set before. iv_hi x < start"
    and ne: "from_it \<noteq> []" and touch: "start \<le> iv_hi (hd from_it)" "iv_lo (hd from_it) \<le> start + len"
    and bound: "start + len < U64" "offset + len \<le> length input" "length input < U64"
    and ex: "take len (drop offset input) = map src [start..<start + len]"
    and sz: "iv_total (before @ from_it) + len < U64"
  shows "returns (rbind (merge_into input offset start len (hd from_it)) (\<lambda>(it, keep).
      case absorb (iv_hi it) (tl from_it) (u64_add (iv_total (before @ from_it)) keep) of
        (after, sz) \<Rightarrow> rbind (join_next it after sz) (\<lambda>(it', after', sz'). Inr (f sz' (before @ it' # after')))))
    (\<lambda>r. \<exists>d. r = f (iv_total d) d \<and> ivs_ok src d \<and> cov d = cov (before @ from_it) \<union> {start..<start + len})"
proof -
  note fi = from_it_bounds [OF ok ne]
  define it where "it = hd from_it"
  define lo hi where "lo = min (iv_lo it) start" and "hi = max (iv_hi it) (start + len)"
  let ?prev = "((lo, hi), map src [lo..<hi])"
  have it: "iv_lo it < iv_hi it" "length (iv_bytes it) = iv_hi it - iv_lo it"
    "start \<le> iv_hi it" "iv_lo it \<le> start + len"
    using fi(2) touch by (simp_all add: it_def iv_ok_def)
  then have lohi: "lo < hi" "lo \<le> iv_lo it" "iv_hi it \<le> hi" "hi - lo \<le> iv_hi it - iv_lo it + len"
    "{lo..<hi} = {iv_lo it..<iv_hi it} \<union> {start..<start + len}"
    by (auto simp: lo_def hi_def)
  have fr: "from_it = it # tl from_it" using ne by (simp add: it_def)
  have tot: "iv_total (before @ from_it) = iv_total before + length (iv_bytes it) + iv_total (tl from_it)"
    by (subst fr) simp
  have keep: "u64_add (iv_total (before @ from_it)) (hi - lo - length (iv_bytes it)) =
      iv_total before + (hi - lo) + iv_total (tl from_it)"
    using sz lohi it unfolding tot by simp
  have "returns (case absorb (iv_hi ?prev) (tl from_it) (iv_total before + (hi - lo) + iv_total (tl from_it)) of
      (after, sz1) \<Rightarrow> join_next ?prev after sz1)
    (\<lambda>(it', after, sz'). ivs_ok src (it' # after) \<and> iv_lo it' = iv_lo ?prev \<and> set after \<subseteq> set (tl from_it) \<and>
      cov (it' # after) = {iv_lo ?prev..<iv_hi ?prev} \<union> cov (tl from_it) \<and>
      sz' = iv_total before + iv_total (it' # after))"
    using lohi it fi by (intro absorb_join_returns) (auto simp: iv_ok_def it_def [symmetric])
  then obtain after sz1 it' after' where
    ab: "absorb hi (tl from_it) (iv_total before + (hi - lo) + iv_total (tl from_it)) = (after, sz1)" and
    jn: "join_next ?prev after sz1 = Inr (it', after', iv_total before + iv_total (it' # after'))" and
    post: "ivs_ok src (it' # after')" "iv_lo it' = lo" "set after' \<subseteq> set (tl from_it)"
      "cov (it' # after') = {lo..<hi} \<union> cov (tl from_it)"
    by (auto simp: returns_iff split: prod.splits)
  have mi: "merge_into input offset start len (hd from_it) = Inr (?prev, hi - lo - length (iv_bytes it))"
    using merge_into_eq [OF fi(2) touch bound ex] by (simp add: it_def lo_def hi_def Let_def)
  have "\<forall>x \<in> set before. \<forall>y \<in> set after'. iv_hi x < iv_lo y" using fi(5) post(3) by blast
  moreover have "\<forall>x \<in> set before. iv_hi x < iv_lo it'"
    using b fi(4) by (simp add: post(2) lo_def it_def)
  ultimately have ok': "ivs_ok src (before @ it' # after')"
    using post(1) ok unfolding ivs_ok_simps(3) by auto
  have "cov (before @ it' # after') = cov (before @ from_it) \<union> {start..<start + len}"
    using post(4) lohi(5) by (subst fr) auto
  with ok' show ?thesis unfolding mi rbind.simps prod.case keep fst_conv snd_conv ab jn
    by (intro returns_InrI exI [of _ "before @ it' # after'"]) simp
qed

definition sr_inv :: "(nat \<Rightarrow> byte) \<Rightarrow> stream_reassembler \<Rightarrow> bool" where
  "sr_inv src r \<longleftrightarrow> bs_inv (sr_output r) \<and> bs_capacity (sr_output r) = sr_capacity r \<and>
     ivs_ok src (sr_data r) \<and> cov (sr_data r) \<subseteq> {sr_next r<..<sr_upper r} \<and>
     sr_size r = iv_total (sr_data r) \<and> bs_total_write (sr_output r) = sr_next r \<and>
     buffer_size (sr_output r) \<le> sr_next r \<and>
     bs_contents (sr_output r) = map src [sr_next r - buffer_size (sr_output r)..<sr_next r]"

lemma sr_invD:
  assumes "sr_inv src r"
  shows "bs_inv (sr_output r)" "buffer_size (sr_output r) \<le> sr_capacity r" "ivs_ok src (sr_data r)"
    "sr_size r = iv_total (sr_data r)" "cov (sr_data r) \<subseteq> {sr_next r<..<sr_upper r}"
    "sr_next r < U64" "sr_capacity r \<le> max_string"
  using assms bs_inv_bounds [of "sr_output r"] by (simp_all add: sr_inv_def)

lemma StreamReassembler_inv: "0 < k \<Longrightarrow> k \<le> max_string \<Longrightarrow> sr_inv src (StreamReassembler k)"
  using ByteStream_inv [of k] bs_inv_bounds(5) [of "ByteStream k"]
  by (simp add: sr_inv_def StreamReassembler_def) (simp add: ByteStream_def RingBuffer_def buffer_size_def)

lemma sr_size_bound:
  assumes "sr_inv src r"
  shows "iv_total (sr_data r) \<le> sr_capacity r - buffer_size (sr_output r)"
proof -
  have "card (cov (sr_data r)) \<le> card {sr_next r<..<sr_upper r}"
    using sr_invD(5) [OF assms] by (rule card_mono [rotated]) simp
  then show ?thesis using iv_total_card [OF sr_invD(3) [OF assms]] by (simp add: sr_upper_def)
qed

lemma assemble_returns:
  assumes inv: "sr_inv src r" and small: "sr_small r" and len: "length input \<le> max_string"
    and ex: "input = map src [index..<index + length input]" and room: "sr_next r < sr_upper r"
  shows "returns (assemble r input index) (assembled src r (cov (sr_data r) \<union> in_window r index input))"
proof -
  note I = sr_invD [OF inv]
  have up: "u64_add (sr_next r) (u64_sub (sr_capacity r) (buffer_size (sr_output r))) = sr_upper r"
    and up_le: "sr_upper r \<le> 9223372036854775808"
    using small I(2) by (simp_all add: sr_upper_def sr_small_def)
  show ?thesis
  proof (cases "length input = 0 \<or> sr_next r \<ge> u64_add index (length input) \<or> index \<ge> sr_upper r")
    case True
    have "in_window r index input = {}"
    proof (cases "index + length input < U64")
      case False
      then have "sr_upper r \<le> index" using len up_le by linarith
      then show ?thesis by (auto simp: in_window_def)
    qed (use True in \<open>auto simp: in_window_def\<close>)
    moreover have "assemble r input index = Inr r"
      using True unfolding assemble_def up Let_def by (rule if_P)
    moreover have "r = r\<lparr>sr_size := iv_total (sr_data r), sr_data := sr_data r\<rparr>" using I(4) by simp
    ultimately show ?thesis using I(3) unfolding assembled_def
      by (simp, intro exI [of _ "sr_data r"]) simp
  next
    case False
    define start where "start = max (sr_next r) index"
    define offset where "offset = start - index"
    define l where "l = min (length input - offset) (sr_upper r - start)"
    define before where "before = takeWhile (\<lambda>iv. start > iv_hi iv) (sr_data r)"
    define from_it where "from_it = dropWhile (\<lambda>iv. start > iv_hi iv) (sr_data r)"
    have "index < sr_upper r" using False by simp
    moreover from this have "index + length input < U64" using len up_le by linarith
    ultimately have idx: "index < sr_upper r" "index + length input < U64" "sr_next r < index + length input"
      using False by simp_all
    have st: "index \<le> start" "start < sr_upper r" "start < index + length input"
      using idx False room by (auto simp: start_def)
    have l: "0 < l" "offset + l \<le> length input" "start + l \<le> sr_upper r"
      using st by (auto simp: l_def offset_def)
    have win: "{start..<start + l} = in_window r index input"
      using st by (auto simp: in_window_def l_def start_def offset_def)
    have sub: "take l (drop offset input) = map src [start..<start + l]"
      using st l by (subst ex) (simp add: drop_map take_map take_upt offset_def)
    have u: "u64_sub start index = offset" "u64_sub (length input) offset = length input - offset"
      "u64_sub (sr_upper r) start = sr_upper r - start" "u64_add start l = start + l"
      using st l up_le by (simp_all add: offset_def)
    have data: "sr_data r = before @ from_it" by (simp add: before_def from_it_def)
    have b: "\<forall>x \<in> set before. iv_hi x < start" by (auto simp: before_def dest: set_takeWhileD)
    have ok: "ivs_ok src (before @ from_it)" using I(3) by (simp add: data)
    have sz: "iv_total (before @ from_it) + l < U64"
    proof -
      have "sr_next r \<le> start" by (simp add: start_def)
      then have "l \<le> sr_capacity r - buffer_size (sr_output r)" using l(3) by (simp add: sr_upper_def)
      then show ?thesis using sr_size_bound [OF inv] I(7) by (simp add: data)
    qed
    have asm: "assemble r input index =
      (if from_it = [] \<or> start + l < iv_lo (hd from_it) then
         rbind (string_substr input offset l) (\<lambda>t. Inr (r\<lparr>sr_size := u64_add (sr_size r) l,
           sr_data := before @ ((start, start + l), t) # from_it\<rparr>))
       else rbind (merge_into input offset start l (hd from_it)) (\<lambda>(it, keep).
         case absorb (iv_hi it) (tl from_it) (u64_add (sr_size r) keep) of (after, sz) \<Rightarrow>
           rbind (join_next it after sz) (\<lambda>(it', after', sz').
             Inr (r\<lparr>sr_size := sz', sr_data := before @ it' # after'\<rparr>))))"
      unfolding assemble_def up Let_def if_not_P [OF False] start_def [symmetric] u(1-3)
        l_def [symmetric] u(4) before_def [symmetric] from_it_def [symmetric] ..
    show ?thesis
    proof (cases "from_it = [] \<or> start + l < iv_lo (hd from_it)")
      case True
      have "string_substr input offset l = Inr (map src [start..<start + l])"
        using l(2) sub by simp
      then show ?thesis
        using assemble_insert [OF ok b True] l(1) sz win unfolding asm if_P [OF True] assembled_def I(4) data
        by (simp, intro exI [of _ "before @ ((start, start + l), map src [start..<start + l]) # from_it"]) auto
    next
      case F: False
      then have "from_it \<noteq> []" "iv_lo (hd from_it) \<le> start + l" by simp_all
      moreover have "start \<le> iv_hi (hd from_it)"
        using hd_dropWhile [of "\<lambda>iv. start > iv_hi iv" "sr_data r"] F by (simp add: from_it_def)
      ultimately show ?thesis
        unfolding asm if_not_P [OF F] I(4) data
        using assemble_merge [OF ok b, where len = l and offset = offset and input = input
            and f = "\<lambda>z d. r\<lparr>sr_size := z, sr_data := d\<rparr>"] l sub sz len up_le win
        by (simp add: assembled_def [abs_def] Un_commute Un_left_commute)
    qed
  qed
qed

section \<open>output and push_substring\<close>

text \<open>\<open>flushed r A r'\<close>: the run of positions from \<open>next_\<close> on that are in \<open>A\<close> has moved into the output
  stream, and the rest of \<open>A\<close> is pending.\<close>

definition flushed :: "stream_reassembler \<Rightarrow> nat set \<Rightarrow> stream_reassembler \<Rightarrow> bool" where
  "flushed r A r' \<longleftrightarrow> sr_next r \<le> sr_next r' \<and> {sr_next r..<sr_next r'} \<subseteq> A \<and> sr_next r' \<notin> A \<and>
     cov (sr_data r') = A - {..<sr_next r'} \<and> sr_upper r' = sr_upper r \<and>
     sr_capacity r' = sr_capacity r \<and> sr_eof r' = sr_eof r \<and> sr_eof_num r' = sr_eof_num r \<and>
     bs_total_read (sr_output r') = bs_total_read (sr_output r) \<and>
     buffer_size (sr_output r') = buffer_size (sr_output r) + (sr_next r' - sr_next r) \<and>
     bs_eof_input (sr_output r') = bs_eof_input (sr_output r) \<and>
     bs_error (sr_output r') = bs_error (sr_output r)"

lemma flush_idle:
  assumes inv: "sr_inv src r" and d: "ivs_ok src d" "cov d \<subseteq> {sr_next r<..<sr_upper r}"
  shows "sr_inv src (r\<lparr>sr_size := iv_total d, sr_data := d\<rparr>)"
    "flushed r (cov d) (r\<lparr>sr_size := iv_total d, sr_data := d\<rparr>)"
  using assms by (auto simp: sr_inv_def flushed_def sr_upper_def)

lemma flush_head_returns:
  assumes inv: "sr_inv src r" and small: "sr_small r" and d: "ivs_ok src (it # after)"
    and c: "cov (it # after) \<subseteq> {sr_next r..<sr_upper r}" and lo: "iv_lo it = sr_next r"
  shows "returns (sr_flush (r\<lparr>sr_size := iv_total (it # after), sr_data := it # after\<rparr>))
    (\<lambda>r'. sr_inv src r' \<and> flushed r (cov (it # after)) r')"
proof -
  note I = sr_invD [OF inv]
  have it: "iv_lo it < iv_hi it" "iv_bytes it = map src [sr_next r..<iv_hi it]"
    "length (iv_bytes it) = iv_hi it - sr_next r"
    using d lo by (simp_all add: iv_ok_def)
  have "iv_hi it - 1 \<in> cov (it # after)" using it(1) by auto
  then have hi: "iv_hi it \<le> sr_upper r" using c by fastforce
  have after: "cov after \<subseteq> {iv_hi it<..}"
    using d by (fastforce simp: cov_def)
  have "length (bs_contents (sr_output r)) + length (iv_bytes it) \<le> bs_capacity (sr_output r)"
    using hi I(2) inv it(3) by (simp add: sr_upper_def sr_inv_def)
  from ByteStream_write_returns [OF I(1), of "iv_bytes it"] this obtain out n where
    w: "ByteStream_write (sr_output r) (iv_bytes it) = Inr (out, n)" and
    out: "n = length (iv_bytes it)" "bs_inv out" "bs_contents out = bs_contents (sr_output r) @ iv_bytes it"
      "bs_capacity out = bs_capacity (sr_output r)" "bs_total_write out = u64_add (sr_next r) (length (iv_bytes it))"
      "bs_total_read out = bs_total_read (sr_output r)" "bs_eof_input out = bs_eof_input (sr_output r)"
      "bs_error out = bs_error (sr_output r)"
    using bs_inv_bounds [OF I(1)] inv by (auto simp: returns_iff sr_inv_def)
  have size: "buffer_size out = buffer_size (sr_output r) + (iv_hi it - sr_next r)"
    using arg_cong [OF out(3), of length] it(3) by simp
  have "iv_hi it < U64" using hi small by (simp add: sr_upper_def sr_small_def)
  then have tw: "bs_total_write out = iv_hi it" using out(5) it lo by simp
  let ?r = "r\<lparr>sr_next := iv_hi it, sr_size := iv_total after, sr_output := out, sr_data := after\<rparr>"
  have fl: "sr_flush (r\<lparr>sr_size := iv_total (it # after), sr_data := it # after\<rparr>) = Inr ?r"
    using w lo by (simp add: sr_flush_def)
  have up: "sr_upper ?r = sr_upper r"
    using hi it(1) lo I(2) size by (simp add: sr_upper_def)
  have cont: "bs_contents out = map src [iv_hi it - buffer_size out..<iv_hi it]"
    using out(3) inv it lo size map_upt_append [of "sr_next r - buffer_size (sr_output r)" "sr_next r" "iv_hi it" src]
    by (simp add: sr_inv_def)
  have "cov after \<subseteq> {iv_hi it<..<sr_upper r}" using after c by fastforce
  moreover have "buffer_size out \<le> iv_hi it" using size inv it(1) lo unfolding sr_inv_def by linarith
  ultimately have "sr_inv src ?r"
    using inv d out(2,4) tw cont it lo unfolding sr_inv_def up by simp
  moreover have "cov after = cov (it # after) - {..<iv_hi it}" "iv_hi it \<notin> cov (it # after)"
    using after by fastforce+
  then have "flushed r (cov (it # after)) ?r"
    using it lo out up size unfolding flushed_def by simp
  ultimately show ?thesis unfolding fl by simp
qed

lemma flush_returns:
  assumes inv: "sr_inv src r" and small: "sr_small r" and d: "ivs_ok src d" "cov d \<subseteq> {sr_next r..<sr_upper r}"
  shows "returns (sr_flush (r\<lparr>sr_size := iv_total d, sr_data := d\<rparr>)) (\<lambda>r'. sr_inv src r' \<and> flushed r (cov d) r')"
proof (cases "d \<noteq> [] \<and> iv_lo (hd d) = sr_next r")
  case True
  then obtain it after where "d = it # after" "iv_lo it = sr_next r" by (cases d) auto
  then show ?thesis using flush_head_returns [OF inv small] d by blast
next
  case False
  have "sr_flush (r\<lparr>sr_size := iv_total d, sr_data := d\<rparr>) = Inr (r\<lparr>sr_size := iv_total d, sr_data := d\<rparr>)"
    using False by (cases d) (simp_all add: sr_flush_def)
  moreover have "cov d \<subseteq> {sr_next r<..<sr_upper r}"
  proof -
    have "sr_next r < iv_lo iv" if "iv \<in> set d" for iv
    proof -
      obtain it after where dd: "d = it # after" using \<open>iv \<in> set d\<close> by (cases d) auto
      have "iv_lo it \<in> cov d" using d(1) by (simp add: dd iv_ok_def)
      then have "sr_next r < iv_lo it" using d(2) False by (fastforce simp: dd)
      then show ?thesis using that d(1) by (auto simp: dd iv_ok_def)
    qed
    then show ?thesis using d(2) by (fastforce simp: cov_def)
  qed
  ultimately show ?thesis using flush_idle [OF inv d(1)] by simp
qed

text \<open>With no room in the window an excerpt that straddles \<open>next_\<close> is stored as an empty interval,
  which \<open>output\<close> removes at once.\<close>

lemma assemble_full:
  assumes inv: "sr_inv src r" and small: "sr_small r" and len: "length input \<le> max_string"
    and full: "sr_upper r = sr_next r"
  shows "assemble r input index = Inr r \<or>
    assemble r input index = Inr (r\<lparr>sr_size := 0, sr_data := [((sr_next r, sr_next r), [])]\<rparr>)"
proof -
  note I = sr_invD [OF inv]
  have up: "u64_add (sr_next r) (u64_sub (sr_capacity r) (buffer_size (sr_output r))) = sr_next r"
    using small I(2) full by (simp add: sr_upper_def sr_small_def)
  have "cov (sr_data r) = {}" using I(5) full by simp
  moreover have "iv_lo iv \<in> cov (sr_data r)" if "iv \<in> set (sr_data r)" for iv
    using that I(3) by (fastforce simp: ivs_ok_def iv_ok_def cov_def)
  ultimately have d: "sr_data r = []" by (metis all_not_in_conv set_empty)
  show ?thesis
  proof (cases "length input = 0 \<or> sr_next r \<ge> u64_add index (length input) \<or> index \<ge> sr_next r")
    case True
    then show ?thesis unfolding assemble_def up Let_def by auto
  next
    case False
    then have "index < sr_next r" "index + length input < U64"
      using small len by (simp_all add: sr_small_def)
    moreover from this have "sr_next r < index + length input" using False by simp
    ultimately have "max (sr_next r) index = sr_next r" "u64_sub (sr_next r) index = sr_next r - index"
      "sr_next r - index \<le> length input" by simp_all
    then show ?thesis using False I(4,6) d unfolding assemble_def up Let_def by simp
  qed
qed

lemma assemble_flush_returns:
  assumes inv: "sr_inv src r" and small: "sr_small r" and len: "length input \<le> max_string"
    and ex: "input = map src [index..<index + length input]"
  shows "returns (rbind (assemble r input index) sr_flush)
    (\<lambda>r'. sr_inv src r' \<and> flushed r (cov (sr_data r) \<union> in_window r index input) r')"
proof (cases "sr_next r < sr_upper r")
  case True
  show ?thesis
  proof (rule returns_bind [OF assemble_returns [OF inv small len ex True]])
    fix r1 assume "assembled src r (cov (sr_data r) \<union> in_window r index input) r1"
    then obtain d where r1: "r1 = r\<lparr>sr_size := iv_total d, sr_data := d\<rparr>" and
      d: "ivs_ok src d" "cov d = cov (sr_data r) \<union> in_window r index input"
      by (auto simp: assembled_def)
    have "cov d \<subseteq> {sr_next r..<sr_upper r}"
      using sr_invD(5) [OF inv] by (fastforce simp: d(2) in_window_def)
    from flush_returns [OF inv small d(1) this]
    show "returns (sr_flush r1) (\<lambda>r'. sr_inv src r' \<and> flushed r (cov (sr_data r) \<union> in_window r index input) r')"
      by (simp add: r1 d(2))
  qed
next
  case False
  note I = sr_invD [OF inv]
  have full: "sr_upper r = sr_next r" using False by (simp add: sr_upper_def)
  then have e: "cov (sr_data r) \<union> in_window r index input = {}" using I(5) by (auto simp: in_window_def)
  have d: "sr_data r = []"
    using e I(3) by (cases "sr_data r") (auto simp: iv_ok_def)
  from assemble_full [OF inv small len full, of index] show ?thesis
  proof
    assume a: "assemble r input index = Inr r"
    have "sr_flush r = Inr r" by (simp add: sr_flush_def d)
    then show ?thesis using inv full e by (simp add: a flushed_def d sr_upper_def)
  next
    assume a: "assemble r input index = Inr (r\<lparr>sr_size := 0, sr_data := [((sr_next r, sr_next r), [])]\<rparr>)"
    from ByteStream_write_returns [OF I(1), of "[]"] obtain out where
      "ByteStream_write (sr_output r) [] = Inr (out, 0)" "bs_inv out" "bs_contents out = bs_contents (sr_output r)"
      "bs_capacity out = bs_capacity (sr_output r)" "bs_total_write out = bs_total_write (sr_output r)"
      "bs_total_read out = bs_total_read (sr_output r)" "bs_eof_input out = bs_eof_input (sr_output r)"
      "bs_error out = bs_error (sr_output r)"
      using bs_inv_bounds [OF I(1)] by (auto simp: returns_iff)
    moreover from this have "buffer_size out = buffer_size (sr_output r)" by (metis length_bs_contents)
    ultimately show ?thesis
      using inv full e d by (simp add: a sr_flush_def sr_inv_def flushed_def sr_upper_def)
  qed
qed

lemma check_end_input_fields [simp]:
  "sr_next (check_end_input r i e) = sr_next r" "sr_data (check_end_input r i e) = sr_data r"
  "sr_size (check_end_input r i e) = sr_size r" "sr_capacity (check_end_input r i e) = sr_capacity r"
  "bs_contents (sr_output (check_end_input r i e)) = bs_contents (sr_output r)"
  "bs_inv (sr_output (check_end_input r i e)) = bs_inv (sr_output r)"
  "bs_capacity (sr_output (check_end_input r i e)) = bs_capacity (sr_output r)"
  "buffer_size (sr_output (check_end_input r i e)) = buffer_size (sr_output r)"
  "bs_total_write (sr_output (check_end_input r i e)) = bs_total_write (sr_output r)"
  "bs_total_read (sr_output (check_end_input r i e)) = bs_total_read (sr_output r)"
  "bs_error (sr_output (check_end_input r i e)) = bs_error (sr_output r)"
  by (simp_all add: check_end_input_def Let_def end_input_def stream_defs)

lemma check_end_input_inv [simp]: "sr_inv src (check_end_input r i e) = sr_inv src r"
  "sr_upper (check_end_input r i e) = sr_upper r"
  by (simp_all add: sr_inv_def sr_upper_def)

lemma push_substring_returns:
  assumes "sr_inv src r" "sr_small r" "length data \<le> max_string"
    "data = map src [index..<index + length data]"
  shows "returns (push_substring r data index eof) (\<lambda>r'. sr_inv src r' \<and>
    (\<exists>r2. sr_inv src r2 \<and> flushed r (cov (sr_data r) \<union> in_window r index data) r2 \<and>
       r' = check_end_input r2 (u64_add index (length data)) eof))"
proof -
  have "push_substring r data index eof =
      rbind (rbind (assemble r data index) sr_flush) (\<lambda>r2. Inr (check_end_input r2 (u64_add index (length data)) eof))"
    by (cases "assemble r data index") (simp_all add: push_substring_def)
  then show ?thesis
    by (simp only:, intro returns_bind [OF assemble_flush_returns [OF assms]]) auto
qed

lemma sr_read_returns:
  assumes inv: "sr_inv src r" and n: "n \<le> buffer_size (sr_output r)"
  shows "returns (ByteStream_read (sr_output r) n) (\<lambda>(out, ans). sr_inv src (r\<lparr>sr_output := out\<rparr>) \<and>
    ans = map src [sr_next r - buffer_size (sr_output r)..<sr_next r - buffer_size (sr_output r) + n] \<and>
    buffer_size out = buffer_size (sr_output r) - n \<and> bs_eof_input out = bs_eof_input (sr_output r))"
proof -
  note I = sr_invD [OF inv]
  define b where "b = buffer_size (sr_output r)"
  have c: "bs_contents (sr_output r) = map src [sr_next r - b..<sr_next r]" "b \<le> sr_next r"
    using inv by (simp_all add: sr_inv_def b_def)
  from ByteStream_read_returns [OF I(1) n] obtain out where
    rd: "ByteStream_read (sr_output r) n = Inr (out, take n (bs_contents (sr_output r)))" and
    out: "bs_inv out" "bs_contents out = drop n (bs_contents (sr_output r))"
      "bs_capacity out = bs_capacity (sr_output r)" "bs_total_write out = bs_total_write (sr_output r)"
      "bs_eof_input out = bs_eof_input (sr_output r)"
    by (auto simp: returns_iff)
  have sz: "buffer_size out = b - n" using arg_cong [OF out(2), of length] by (simp add: b_def)
  have "take n (bs_contents (sr_output r)) = map src [sr_next r - b..<sr_next r - b + n]"
    unfolding c(1) using n c(2) by (simp add: take_map take_upt b_def)
  moreover have "bs_contents out = map src [sr_next r - (b - n)..<sr_next r]"
    unfolding out(2) c(1) using n c(2) by (simp add: drop_map b_def)
  moreover have "cov (sr_data r) \<subseteq> {sr_next r<..<sr_upper (r\<lparr>sr_output := out\<rparr>)}"
    using I(5) by (fastforce simp: sr_upper_def sz b_def)
  ultimately show ?thesis
    using inv out sz n c(2) unfolding rd b_def [symmetric] by (simp add: sr_inv_def)
qed

section \<open>Runs\<close>

text \<open>A run of a reassembler and its reader: excerpts arrive in any order, and the reader takes at
  most what is buffered. The state pairs the reassembler with the bytes delivered so far.\<close>

datatype reassembler_op = Push size_t bytes bool | Pop size_t

fun sr_step :: "stream_reassembler \<times> bytes \<Rightarrow> reassembler_op \<Rightarrow> (stream_reassembler \<times> bytes) res" where
  "sr_step (r, del) (Push index data eof) = rbind (push_substring r data index eof) (\<lambda>r'. Inr (r', del))"
| "sr_step (r, del) (Pop n) =
     rbind (ByteStream_read (sr_output r) (min n (buffer_size (sr_output r))))
       (\<lambda>(out, ans). Inr (r\<lparr>sr_output := out\<rparr>, del @ ans))"

text \<open>The pushes of the run are excerpts of the stream \<open>s\<close>; one that carries the end-of-file flag
  ends where \<open>s\<close> does.\<close>

fun sr_op_ok :: "bytes \<Rightarrow> reassembler_op \<Rightarrow> bool" where
  "sr_op_ok s (Push index data eof) \<longleftrightarrow>
     take (length data) (drop index s) = data \<and> index + length data \<le> length s \<and>
     (eof \<longrightarrow> index + length data = length s)"
| "sr_op_ok s (Pop n) \<longleftrightarrow> True"

fun pushed :: "reassembler_op list \<Rightarrow> nat set" where
  "pushed [] = {}"
| "pushed (Push index data eof # ops) = {index..<index + length data} \<union> pushed ops"
| "pushed (Pop n # ops) = pushed ops"

fun eof_seen :: "reassembler_op list \<Rightarrow> bool" where
  "eof_seen [] = False"
| "eof_seen (Push index data eof # ops) \<longleftrightarrow> eof \<or> eof_seen ops"
| "eof_seen (Pop n # ops) = eof_seen ops"

lemma pushed_append [simp]: "pushed (h @ h') = pushed h \<union> pushed h'"
  by (induction h rule: pushed.induct) auto

lemma eof_seen_append [simp]: "eof_seen (h @ h') \<longleftrightarrow> eof_seen h \<or> eof_seen h'"
  by (induction h rule: eof_seen.induct) auto

definition sr_hist :: "bytes \<Rightarrow> size_t \<Rightarrow> reassembler_op list \<Rightarrow> stream_reassembler \<times> bytes \<Rightarrow> bool" where
  "sr_hist s k h = (\<lambda>(r, del).
     0 < k \<and> length s + k \<le> 2 ^ 63 \<and> sr_inv (\<lambda>i. s ! i) r \<and> sr_capacity r = k \<and> sr_next r \<le> length s \<and>
     cov (sr_data r) \<subseteq> {..<length s} \<and>
     del = map (\<lambda>i. s ! i) [0..<sr_next r - buffer_size (sr_output r)] \<and>
     sr_eof r = eof_seen h \<and> (sr_eof r \<longrightarrow> sr_eof_num r = length s) \<and>
     (bs_eof_input (sr_output r) \<longleftrightarrow> eof_seen h \<and> sr_next r = length s) \<and>
     (length s \<le> k \<longrightarrow> {..<sr_next r} \<union> cov (sr_data r) = pushed h))"

lemma sr_hist_init:
  assumes "0 < k" "length s + k \<le> 2 ^ 63" "k \<le> max_string"
  shows "sr_hist s k [] (StreamReassembler k, [])"
  using assms StreamReassembler_inv [of k "\<lambda>i. s ! i"]
  by (simp add: sr_hist_def) (simp add: StreamReassembler_def ByteStream_def)

lemma excerpt_map:
  assumes "take (length data) (drop i s) = (data :: bytes)" "i + length data \<le> length s"
  shows "data = map (\<lambda>j. s ! j) [i..<i + length data]"
proof (rule nth_equalityI)
  fix j assume "j < length data"
  then have "take (length data) (drop i s) ! j = s ! (i + j)" using assms(2) by simp
  then show "data ! j = map (\<lambda>j. s ! j) [i..<i + length data] ! j"
    using \<open>j < length data\<close> unfolding assms(1) by simp
qed simp

lemma flushed_next_le:
  assumes "flushed r A r'" "A \<subseteq> {..<n}" "sr_next r \<le> n"
  shows "sr_next r' \<le> n"
proof (cases "sr_next r < sr_next r'")
  case True
  then have "sr_next r' - 1 \<in> A" using assms(1) by (auto simp: flushed_def)
  then show ?thesis using assms(2) True by fastforce
qed (use assms(3) in simp)

lemma flushed_positions:
  assumes "flushed r A r'"
  shows "{..<sr_next r'} \<union> cov (sr_data r') = {..<sr_next r} \<union> A"
  using assms unfolding flushed_def by (fastforce simp: not_less)

lemma in_window_all:
  assumes "sr_inv src r" "i + length data \<le> sr_capacity r"
  shows "{..<sr_next r} \<union> in_window r i data = {..<sr_next r} \<union> {i..<i + length data}"
proof -
  have "sr_capacity r \<le> sr_upper r"
    using assms(1) sr_invD(2) [OF assms(1)] unfolding sr_upper_def sr_inv_def by linarith
  then show ?thesis using assms(2) by (auto simp: in_window_def)
qed

lemma end_input_eof [simp]: "bs_eof_input (end_input bs)"
  by (simp add: end_input_def)

lemma check_end_input_eof [simp]:
  "sr_eof (check_end_input r i e) \<longleftrightarrow> e \<or> sr_eof r"
  "sr_eof_num (check_end_input r i e) = (if e then i else sr_eof_num r)"
  "bs_eof_input (sr_output (check_end_input r i e)) \<longleftrightarrow>
     bs_eof_input (sr_output r) \<or> (e \<or> sr_eof r) \<and> (if e then i else sr_eof_num r) = sr_next r"
  by (auto simp: check_end_input_def Let_def)

lemma sr_hist_push:
  assumes h: "sr_hist s k h (r, del)" and ok: "sr_op_ok s (Push index data eof)"
  shows "returns (push_substring r data index eof) (\<lambda>r'. sr_hist s k (h @ [Push index data eof]) (r', del))"
proof -
  note H = h [unfolded sr_hist_def, simplified]
  define A where "A = cov (sr_data r) \<union> in_window r index data"
  have len: "index + length data \<le> length s" using ok by simp
  have ex: "data = map (\<lambda>j. s ! j) [index..<index + length data]" using ok by (intro excerpt_map) simp_all
  have small: "sr_small r" using H by (simp add: sr_small_def)
  have "length data \<le> max_string" "index + length data < U64"
    using H len by simp_all
  moreover have "sr_inv ((!) s) r" using H by blast
  note push_substring_returns [OF this small \<open>length data \<le> max_string\<close> ex, of eof]
  ultimately obtain r2 where
    push: "push_substring r data index eof = Inr (check_end_input r2 (index + length data) eof)" and
    r2: "sr_inv ((!) s) r2" "flushed r A r2"
    by (auto simp: returns_iff A_def)
  have A: "A \<subseteq> {..<length s}" using H len by (auto simp: A_def in_window_def)
  note next_le = flushed_next_le [OF r2(2) A]
  have F: "sr_next r \<le> sr_next r2" "sr_next r2 - buffer_size (sr_output r2) = sr_next r - buffer_size (sr_output r)"
    "cov (sr_data r2) \<subseteq> {..<length s}" "sr_eof r2 = sr_eof r" "sr_eof_num r2 = sr_eof_num r"
    "bs_eof_input (sr_output r2) = bs_eof_input (sr_output r)" "sr_capacity r2 = sr_capacity r"
    using r2(2) A unfolding flushed_def by auto
  have "{..<sr_next r2} \<union> cov (sr_data r2) = pushed (h @ [Push index data eof])" if "length s \<le> k"
  proof -
    have "{..<sr_next r2} \<union> cov (sr_data r2) = ({..<sr_next r} \<union> cov (sr_data r)) \<union> in_window r index data"
      using flushed_positions [OF r2(2)] by (simp add: A_def Un_assoc)
    also have "\<dots> = ({..<sr_next r} \<union> in_window r index data) \<union> cov (sr_data r)" by blast
    also have "\<dots> = ({..<sr_next r} \<union> {index..<index + length data}) \<union> cov (sr_data r)"
      using in_window_all [of "(!) s" r index data] H len that by simp
    also have "\<dots> = pushed h \<union> {index..<index + length data}" using H that by blast
    finally show ?thesis by simp
  qed
  note P = this
  have E: "sr_eof r = eof_seen h" "sr_eof r \<longrightarrow> sr_eof_num r = length s"
    "bs_eof_input (sr_output r) \<longleftrightarrow> eof_seen h \<and> sr_next r = length s" "sr_next r \<le> length s"
    "del = map ((!) s) [0..<sr_next r2 - buffer_size (sr_output r2)]" "sr_capacity r2 = k"
    "0 < k" "length s + k \<le> 2 ^ 63"
    using H F(2,7) by simp_all
  let ?r' = "check_end_input r2 (index + length data) eof"
  let ?h' = "h @ [Push index data eof]"
  have "bs_eof_input (sr_output ?r') \<longleftrightarrow> eof_seen ?h' \<and> sr_next ?r' = length s"
    using E(1-3) F(1,4,5,6) next_le [OF E(4)] ok by (cases eof; cases "eof_seen h") auto
  moreover have "sr_eof ?r' = eof_seen ?h'" "sr_eof ?r' \<longrightarrow> sr_eof_num ?r' = length s"
    using E(1,2) F(4,5) ok by auto
  ultimately show ?thesis
    unfolding push returns.simps sr_hist_def prod.case
    using E(5-8) F(3) next_le [OF E(4)] r2(1) P
    by (intro conjI impI; simp only: check_end_input_fields check_end_input_inv)
qed

lemma sr_hist_pop:
  assumes "sr_hist s k h (r, del)"
  shows "returns (ByteStream_read (sr_output r) (min n (buffer_size (sr_output r))))
    (\<lambda>(out, ans). sr_hist s k (h @ [Pop n]) (r\<lparr>sr_output := out\<rparr>, del @ ans))"
proof -
  define b m where "b = buffer_size (sr_output r)" and "m = min n b"
  have inv: "sr_inv ((!) s) r" and b: "b \<le> sr_next r" using assms by (auto simp: sr_hist_def sr_inv_def b_def)
  have "m \<le> buffer_size (sr_output r)" by (simp add: m_def b_def)
  from sr_read_returns [OF inv this] show ?thesis
    unfolding m_def [symmetric] b_def [symmetric]
  proof (rule returns_mono, clarify)
    fix out assume "sr_inv ((!) s) (r\<lparr>sr_output := out\<rparr>)" "buffer_size out = b - m"
      "bs_eof_input out = bs_eof_input (sr_output r)"
    moreover have "sr_next r - (b - m) = (sr_next r - b) + m" using b by (simp add: m_def)
    ultimately show "sr_hist s k (h @ [Pop n])
        (r\<lparr>sr_output := out\<rparr>, del @ map ((!) s) [sr_next r - b..<sr_next r - b + m])"
      using assms map_upt_append [of 0 "sr_next r - b" "sr_next r - b + m" "(!) s"]
      by (simp add: sr_hist_def b_def [symmetric])
  qed
qed

interpretation sr: history_invariant sr_step "sr_hist s k" "\<lambda>ops. \<forall>op \<in> set ops. sr_op_ok s op" for s k
proof (unfold_locales, goal_cases)
  case (1 h st a)
  obtain r del where st: "st = (r, del)" by (cases st)
  have a: "sr_op_ok s a" using 1(2) by simp
  show ?case
  proof (cases a)
    case (Push index data eof)
    show ?thesis
      using 1(1) a unfolding st Push sr_step.simps by (blast intro: returns_bind [OF sr_hist_push] returns_InrI)
  next
    case (Pop n)
    show ?thesis
      using 1(1) unfolding st Pop sr_step.simps by (intro returns_bind [OF sr_hist_pop]) auto
  qed
qed simp

lemma sr_hist_stream:
  assumes "sr_hist s k h (r, del)"
  shows "del @ bs_contents (sr_output r) = take (sr_next r) s"
proof -
  have "bs_contents (sr_output r) = map ((!) s) [sr_next r - buffer_size (sr_output r)..<sr_next r]"
    "sr_next r \<le> length s" "del = map ((!) s) [0..<sr_next r - buffer_size (sr_output r)]"
    using assms by (auto simp: sr_hist_def sr_inv_def)
  moreover from this have "map ((!) s) [0..<sr_next r] = take (sr_next r) s"
    by (intro nth_equalityI) simp_all
  ultimately show ?thesis
    using map_upt_append [of 0 "sr_next r - buffer_size (sr_output r)" "sr_next r" "(!) s"] by simp
qed

lemma sr_hist_ended: "sr_hist s k h (r, del) \<Longrightarrow> input_ended (sr_output r) \<Longrightarrow> sr_next r = length s"
  by (simp add: sr_hist_def input_ended_def)

lemma sr_hist_bound:
  assumes "sr_hist s k h (r, del)"
  shows "unassembled_bytes r + buffer_size (sr_output r) \<le> k"
proof -
  have inv: "sr_inv ((!) s) r" and k: "sr_capacity r = k" using assms by (auto simp: sr_hist_def)
  show ?thesis
    using sr_size_bound [OF inv] sr_invD(2,4) [OF inv] k by (simp add: unassembled_bytes_def)
qed

lemma sr_hist_complete:
  assumes h: "sr_hist s k h (r, del)" and all: "length s \<le> k" "pushed h = {..<length s}" "eof_seen h"
  shows "sr_next r = length s \<and> bs_eof_input (sr_output r) \<and> sr_empty r \<and> unassembled_bytes r = 0"
proof -
  have inv: "sr_inv ((!) s) r" and n: "sr_next r \<le> length s" "{..<sr_next r} \<union> cov (sr_data r) = {..<length s}"
    using h all by (auto simp: sr_hist_def)
  have "sr_next r \<notin> {..<sr_next r} \<union> cov (sr_data r)" using sr_invD(5) [OF inv] by auto
  then have nx: "sr_next r = length s" using n by auto
  moreover have "cov (sr_data r) = {}"
  proof -
    have "cov (sr_data r) \<subseteq> {..<length s}" "cov (sr_data r) \<inter> {..length s} = {}"
      using sr_invD(5) [OF inv] n(2) nx by auto
    then show ?thesis by (fastforce simp: disjoint_iff)
  qed
  ultimately show ?thesis
    using h all iv_total_card [OF sr_invD(3) [OF inv]] sr_invD(4) [OF inv]
    by (simp add: sr_hist_def sr_empty_def unassembled_bytes_def)
qed

section \<open>Properties\<close>

text \<open>C13: Whatever excerpts of a stream \<open>s\<close> are pushed, in any order and overlapping in any way,
  between reads of any size, no call ends abnormally. The bytes delivered, followed by the bytes
  buffered for the reader, are the first \<open>next_\<close> bytes of \<open>s\<close>; the output stream is ended only
  when this is all of \<open>s\<close>; and the bytes stored, assembled or not, never exceed the capacity.\<close>

theorem reassembler_in_order:
  assumes "0 < k" and "length s + k \<le> max_string" and "\<forall>op \<in> set ops. sr_op_ok s op"
  shows "returns (rfold sr_step (StreamReassembler k, []) ops) (\<lambda>(r, del).
    del @ bs_contents (sr_output r) = take (sr_next r) s \<and>
    (input_ended (sr_output r) \<longrightarrow> del @ bs_contents (sr_output r) = s) \<and>
    unassembled_bytes r + buffer_size (sr_output r) \<le> k)"
proof -
  have "sr_hist s k [] (StreamReassembler k, [])" using assms(1,2) by (intro sr_hist_init) simp_all
  from sr.run [OF this assms(3)] show ?thesis
    by (rule returns_mono) (auto simp: sr_hist_stream sr_hist_ended dest: sr_hist_bound)
qed

theorem reassembler_in_order_witness:
  "returns (rfold sr_step (StreamReassembler 4, []) [Push 2 [3, 4, 5] False, Push 0 [1, 2, 3] False, Pop 3, Push 4 [5] True])
    (\<lambda>(r, del). del @ bs_contents (sr_output r) = take (sr_next r) [1, 2, 3, 4, 5] \<and>
      (input_ended (sr_output r) \<longrightarrow> del @ bs_contents (sr_output r) = [1, 2, 3, 4, 5]) \<and>
      unassembled_bytes r + buffer_size (sr_output r) \<le> 4)"
  by (rule reassembler_in_order) simp_all

text \<open>C14: Nothing is lost. When the capacity is at least the length of the stream, and the excerpts
  pushed cover the stream and one of them carried the end, then in whatever order they came the
  whole stream has been delivered or is buffered for the reader, in order, its end is signalled,
  and nothing is left unassembled.\<close>

theorem reassembler_complete:
  assumes "0 < k" and "length s + k \<le> max_string" and "\<forall>op \<in> set ops. sr_op_ok s op"
    and "length s \<le> k" and "pushed ops = {..<length s}" and "eof_seen ops"
  shows "returns (rfold sr_step (StreamReassembler k, []) ops) (\<lambda>(r, del).
    del @ bs_contents (sr_output r) = s \<and> input_ended (sr_output r) \<and> sr_empty r \<and>
    unassembled_bytes r = 0)"
proof -
  have "sr_hist s k [] (StreamReassembler k, [])" using assms(1,2) by (intro sr_hist_init) simp_all
  from sr.run [OF this assms(3)] show ?thesis
    by (rule returns_mono)
      (use sr_hist_complete [OF _ assms(4-6)] sr_hist_stream in \<open>fastforce simp: input_ended_def\<close>)
qed

theorem reassembler_complete_witness:
  "returns (rfold sr_step (StreamReassembler 4, []) [Push 2 [3, 4] True, Push 1 [2] False, Pop 3, Push 0 [1, 2, 3] False])
    (\<lambda>(r, del). del @ bs_contents (sr_output r) = [1, 2, 3, 4] \<and> input_ended (sr_output r) \<and>
      sr_empty r \<and> unassembled_bytes r = 0)"
  by (rule reassembler_complete) auto

text \<open>C39: The exact effect of \<open>push_substring\<close>. Let \<open>A\<close> be the pending positions together with the
  positions of the excerpt inside the window. Then \<open>next_\<close> moves to the first position not in \<open>A\<close>,
  the bytes it passes are appended to the output stream, and what is left of \<open>A\<close> is pending, each
  position counted once however often it was pushed.\<close>

theorem push_substring_correct:
  assumes "sr_inv src r" and "sr_small r" and "length data \<le> max_string"
    and "data = map src [index..<index + length data]"
    and "A = cov (sr_data r) \<union> {index..<index + length data} \<inter> {sr_next r..<sr_upper r}"
  shows "returns (push_substring r data index eof) (\<lambda>r'. sr_inv src r' \<and>
    sr_next r' = (LEAST n. sr_next r \<le> n \<and> n \<notin> A) \<and>
    bs_contents (sr_output r') = bs_contents (sr_output r) @ map src [sr_next r..<sr_next r'] \<and>
    cov (sr_data r') = A - {..<sr_next r'} \<and> unassembled_bytes r' = card (A - {..<sr_next r'}))"
proof (rule returns_mono [OF push_substring_returns [OF assms(1-4)]], elim conjE exE)
  fix r' r2 assume r2: "sr_inv src r2" "flushed r (cov (sr_data r) \<union> in_window r index data) r2"
    and r': "r' = check_end_input r2 (u64_add index (length data)) eof"
  have F: "flushed r A r2" using r2(2) by (simp add: assms(5) in_window_def)
  have least: "sr_next r2 = (LEAST n. sr_next r \<le> n \<and> n \<notin> A)"
    using F unfolding flushed_def by (intro Least_equality [symmetric]) (auto simp: not_less [symmetric])
  have "bs_contents (sr_output r2) = bs_contents (sr_output r) @ map src [sr_next r..<sr_next r2]"
    using F r2(1) assms(1)
      map_upt_append [of "sr_next r - buffer_size (sr_output r)" "sr_next r" "sr_next r2" src]
    by (simp add: flushed_def sr_inv_def)
  then show "sr_inv src r' \<and> sr_next r' = (LEAST n. sr_next r \<le> n \<and> n \<notin> A) \<and>
    bs_contents (sr_output r') = bs_contents (sr_output r) @ map src [sr_next r..<sr_next r'] \<and>
    cov (sr_data r') = A - {..<sr_next r'} \<and> unassembled_bytes r' = card (A - {..<sr_next r'})"
    using F r2(1) least iv_total_card [OF sr_invD(3) [OF r2(1)]] sr_invD(4) [OF r2(1)]
    by (simp add: r' flushed_def unassembled_bytes_def)
qed

theorem push_substring_correct_witness:
  "returns (push_substring (StreamReassembler 4) [7, 7] 1 False) (\<lambda>r'. sr_next r' = (LEAST n. n \<notin> {1..<3::nat}) \<and>
     cov (sr_data r') = {1..<3} - {..<sr_next r'} \<and> unassembled_bytes r' = card ({1..<3} - {..<sr_next r'}))"
proof -
  have "sr_inv (\<lambda>_. 7) (StreamReassembler 4)" by (simp add: StreamReassembler_inv)
  moreover have w: "sr_upper (StreamReassembler 4) = 4" "sr_next (StreamReassembler 4) = 0"
    "sr_data (StreamReassembler 4) = []" "sr_small (StreamReassembler 4)"
    by (simp_all add: StreamReassembler_def sr_upper_def sr_small_def ByteStream_def RingBuffer_def buffer_size_def)
  moreover have "[7, 7] = map (\<lambda>_. 7 :: byte) [1..<1 + length [7, 7 :: byte]]" by (simp add: upt_rec)
  moreover have "{1..<3} = cov (sr_data (StreamReassembler 4)) \<union> {1..<1 + length [7, 7 :: byte]} \<inter>
      {sr_next (StreamReassembler 4)..<sr_upper (StreamReassembler 4)}"
    unfolding w by auto
  ultimately show ?thesis
    by (intro returns_mono [OF push_substring_correct [of "\<lambda>_. 7" _ "[7, 7]" 1 "{1..<3}" False]]) (simp_all add: w(2))
qed

end
