(* ===== verification/TCP_Receiver.thy ===== *)
theory TCP_Receiver
  imports TCP_Segment Stream_Reassembler
begin

text \<open>
  \<^verbatim>\<open>libsponge/tcp_receiver.hh\<close> and \<^verbatim>\<open>.cc\<close>: the receiving half of a TCP endpoint. It learns the initial
  sequence number from the SYN, turns sequence numbers into stream indices with \<open>unwrap\<close>, and
  hands the payloads to the reassembler; it reports the acknowledgment number and the window.

  \<open>rcv_reach s isn k\<close> is the step relation of a receiver of capacity \<open>k\<close> whose peer sends the stream \<open>s\<close>
  with initial sequence number \<open>isn\<close>: segments that carry any part of the stream, in any order and
  any number of times, pure acknowledgments, and reads by the application. Its invariant
  \<open>rcv_inv\<close> is established by rule induction, resting on the reassembler's \<open>sr_hist\<close> and on the
  locale \<open>sequence_space\<close> for the translation of sequence numbers.
\<close>

section \<open>Operations\<close>

record tcp_receiver =
  rcv_capacity :: size_t
  rcv_reassembler :: stream_reassembler
  rcv_isn :: WrappingInt32
  rcv_ackno :: u64
  rcv_has_isn :: bool
  rcv_has_fin :: bool
  rcv_sent_fin :: bool

definition TCPReceiver :: "size_t \<Rightarrow> tcp_receiver" where
  "TCPReceiver capacity =
     \<lparr>rcv_capacity = capacity, rcv_reassembler = StreamReassembler capacity, rcv_isn = WrappingInt32 0,
      rcv_ackno = 1, rcv_has_isn = False, rcv_has_fin = False, rcv_sent_fin = False\<rparr>"

abbreviation stream_out :: "tcp_receiver \<Rightarrow> byte_stream" where
  "stream_out r \<equiv> sr_output (rcv_reassembler r)"

definition TCPReceiver_segment_received :: "tcp_receiver \<Rightarrow> TCPSegment \<Rightarrow> tcp_receiver res" where
  "TCPReceiver_segment_received r seg =
     (let header = seg_header seg;
          r = (if th_syn header then r\<lparr>rcv_isn := th_seqno header, rcv_has_isn := True\<rparr> else r)
      in if \<not> rcv_has_isn r then Inr r
         else
           let r = (if th_fin header \<and> \<not> rcv_sent_fin r then r\<lparr>rcv_has_fin := True\<rparr> else r);
               start = (if th_syn header then unwrap (WrappingInt32_plus (th_seqno header) 1) (rcv_isn r) (rcv_ackno r)
                        else unwrap (th_seqno header) (rcv_isn r) (rcv_ackno r));
               before_assemble = buffer_size (stream_out r)
           in rbind (push_substring (rcv_reassembler r) (buf_copy (seg_payload seg)) (u64_sub start 1) (th_fin header))
                (\<lambda>reassembler.
                   let r = r\<lparr>rcv_reassembler := reassembler,
                             rcv_ackno := u64_add (rcv_ackno r) (u64_sub (buffer_size (sr_output reassembler)) before_assemble)\<rparr>
                   in Inr (if rcv_has_fin r \<and> \<not> rcv_sent_fin r \<and> input_ended (stream_out r)
                           then r\<lparr>rcv_ackno := u64_add (rcv_ackno r) 1, rcv_sent_fin := True\<rparr> else r)))"

definition TCPReceiver_ackno :: "tcp_receiver \<Rightarrow> WrappingInt32 option" where
  "TCPReceiver_ackno r = (if rcv_has_isn r then Some (wrap (rcv_ackno r) (rcv_isn r)) else None)"

definition window_size :: "tcp_receiver \<Rightarrow> size_t" where
  "window_size r = u64_sub (rcv_capacity r) (buffer_size (stream_out r))"

definition TCPReceiver_unassembled_bytes :: "tcp_receiver \<Rightarrow> size_t" where
  "TCPReceiver_unassembled_bytes r = unassembled_bytes (rcv_reassembler r)"

section \<open>A receiver and its peer\<close>

inductive rcv_reach ::
  "bytes \<Rightarrow> WrappingInt32 \<Rightarrow> size_t \<Rightarrow> reassembler_op list \<Rightarrow> bytes \<Rightarrow> tcp_receiver \<Rightarrow> bool"
  for s isn k where
  rcv_init: "rcv_reach s isn k [] [] (TCPReceiver k)"
| rcv_segment: "rcv_reach s isn k h del r \<Longrightarrow> seg_carries s isn idx seg \<Longrightarrow>
    seq_dist (idx + 1) (rcv_ackno r) < 2 ^ 31 \<Longrightarrow> rcv_has_isn r \<or> th_syn (seg_header seg) \<Longrightarrow>
    TCPReceiver_segment_received r seg = Inr r' \<Longrightarrow>
    rcv_reach s isn k (h @ [Push idx (buf_str (seg_payload seg)) (th_fin (seg_header seg))]) del r'"
| rcv_before_syn: "rcv_reach s isn k h del r \<Longrightarrow> \<not> rcv_has_isn r \<Longrightarrow> \<not> th_syn (seg_header seg) \<Longrightarrow>
    TCPReceiver_segment_received r seg = Inr r' \<Longrightarrow> rcv_reach s isn k h del r'"
| rcv_pure_ack: "rcv_reach s isn k h del r \<Longrightarrow> seg_pure_ack seg \<Longrightarrow>
    TCPReceiver_segment_received r seg = Inr r' \<Longrightarrow> rcv_reach s isn k h del r'"
| rcv_read: "rcv_reach s isn k h del r \<Longrightarrow>
    ByteStream_read (stream_out r) (min n (buffer_size (stream_out r))) = Inr (out, ans) \<Longrightarrow>
    rcv_reach s isn k (h @ [Pop n]) (del @ ans) (r\<lparr>rcv_reassembler := (rcv_reassembler r)\<lparr>sr_output := out\<rparr>\<rparr>)"

definition rcv_inv ::
  "bytes \<Rightarrow> WrappingInt32 \<Rightarrow> size_t \<Rightarrow> reassembler_op list \<Rightarrow> bytes \<Rightarrow> tcp_receiver \<Rightarrow> bool" where
  "rcv_inv s isn k h del r \<longleftrightarrow> sr_hist s k h (rcv_reassembler r, del) \<and> rcv_capacity r = k \<and>
     (rcv_has_isn r \<longrightarrow> rcv_isn r = isn) \<and> rcv_has_fin r = eof_seen h \<and> (eof_seen h \<longrightarrow> rcv_has_isn r) \<and>
     rcv_sent_fin r = input_ended (stream_out r) \<and>
     rcv_ackno r = sr_next (rcv_reassembler r) + 1 + (if input_ended (stream_out r) then 1 else 0)"

lemma wrap_plus: "WrappingInt32_plus (wrap n isn) 1 = wrap (n + 1) isn"
proof (rule WrappingInt32_eqI)
  have "unat (raw_value (wrap n isn) + 1) = ((n + unat (raw_value isn)) mod m32 + 1) mod m32"
    by (simp add: unat_word_ariths unat_raw_wrap)
  then show "unat (raw_value (WrappingInt32_plus (wrap n isn) 1)) = unat (raw_value (wrap (n + 1) isn))"
    by (simp add: WrappingInt32_plus_def unat_raw_wrap mod_simps ac_simps)
qed

lemma wrap_0 [simp]: "wrap 0 isn = isn"
  by (rule WrappingInt32_eqI) (simp add: unat_raw_wrap)

lemma rcv_inv_init:
  assumes "0 < k" "length s + k \<le> max_string"
  shows "rcv_inv s isn k [] [] (TCPReceiver k)"
  using sr_hist_init [of k s] assms
  by (simp add: rcv_inv_def TCPReceiver_def)
    (simp add: StreamReassembler_def ByteStream_def input_ended_def)

lemma sr_hist_bounds:
  assumes "sr_hist s k h (r, del)"
  shows "sr_next r \<le> length s" "length s + k \<le> 2 ^ 63" "0 < k" "buffer_size (sr_output r) \<le> k"
    "sr_inv (\<lambda>i. s ! i) r" "bs_eof_input (sr_output r) \<longleftrightarrow> eof_seen h \<and> sr_next r = length s"
    "buffer_size (sr_output r) \<le> sr_next r"
  using assms sr_invD(2) [of "(!) s" r] by (auto simp: sr_hist_def sr_inv_def)

text \<open>The number of bytes that a push adds to the buffer is how far \<open>next_\<close> moves.\<close>

lemma push_substring_growth:
  assumes h: "sr_hist s k h (r, del)" and ok: "sr_op_ok s (Push index data eof)"
    and push: "push_substring r data index eof = Inr r'"
  shows "sr_hist s k (h @ [Push index data eof]) (r', del) \<and> sr_next r \<le> sr_next r' \<and>
    buffer_size (sr_output r') = buffer_size (sr_output r) + (sr_next r' - sr_next r)"
proof -
  have h': "sr_hist s k (h @ [Push index data eof]) (r', del)"
    using sr_hist_push [OF h ok] push by simp
  have "sr_inv ((!) s) r" "sr_small r" "length data \<le> max_string"
    using sr_hist_bounds [OF h] ok h by (auto simp: sr_small_def sr_hist_def)
  moreover have "data = map ((!) s) [index..<index + length data]" using ok by (intro excerpt_map) simp_all
  ultimately have "returns (push_substring r data index eof) (\<lambda>r'. sr_inv ((!) s) r' \<and>
      (\<exists>r2. sr_inv ((!) s) r2 \<and> flushed r (cov (sr_data r) \<union> in_window r index data) r2 \<and>
         r' = check_end_input r2 (u64_add index (length data)) eof))"
    by (intro push_substring_returns)
  then show ?thesis using push h' by (auto simp: flushed_def)
qed

text \<open>With the initial sequence number known, the index of the first payload byte is recovered.\<close>

lemma seg_start:
  assumes seg: "seg_carries s isn idx seg" and near: "seq_dist (idx + 1) ackno < 2 ^ 31"
    and bound: "idx + 1 < U64" "ackno < U64"
  shows "(if th_syn (seg_header seg) then unwrap (WrappingInt32_plus (th_seqno (seg_header seg)) 1) isn ackno
     else unwrap (th_seqno (seg_header seg)) isn ackno) = idx + 1"
proof (cases "th_syn (seg_header seg)")
  case True
  then have "th_seqno (seg_header seg) = wrap 0 isn" "idx = 0" using seg by (simp_all add: seg_carries_def)
  then have "WrappingInt32_plus (th_seqno (seg_header seg)) 1 = wrap (idx + 1) isn" using wrap_plus [of 0 isn] by simp
  then show ?thesis using seq.dec_enc [OF bound near] True by simp
next
  case False
  then show ?thesis using seg seq.dec_enc [OF bound near] by (simp add: seg_carries_def)
qed

lemma rcv_segment_returns:
  assumes inv: "rcv_inv s isn k h del r" and seg: "seg_carries s isn idx seg"
    and near: "seq_dist (idx + 1) (rcv_ackno r) < 2 ^ 31" and syn: "rcv_has_isn r \<or> th_syn (seg_header seg)"
  shows "returns (TCPReceiver_segment_received r seg)
    (rcv_inv s isn k (h @ [Push idx (buf_str (seg_payload seg)) (th_fin (seg_header seg))]) del)"
proof -
  define h' where "h' = h @ [Push idx (buf_str (seg_payload seg)) (th_fin (seg_header seg))]"
  have hist: "sr_hist s k h (rcv_reassembler r, del)" and I: "rcv_capacity r = k" "rcv_has_isn r \<longrightarrow> rcv_isn r = isn"
    "rcv_has_fin r = eof_seen h" "rcv_sent_fin r = input_ended (stream_out r)"
    "rcv_ackno r = sr_next (rcv_reassembler r) + 1 + (if input_ended (stream_out r) then 1 else 0)"
    using inv by (simp_all add: rcv_inv_def)
  note B = sr_hist_bounds [OF hist]
  have ok: "sr_op_ok s (Push idx (buf_str (seg_payload seg)) (th_fin (seg_header seg)))"
    using seg by (simp add: seg_carries_def)
  obtain r' where push: "push_substring (rcv_reassembler r) (buf_str (seg_payload seg)) idx (th_fin (seg_header seg)) = Inr r'"
    using sr_hist_push [OF hist ok] by (auto simp: returns_iff)
  note G = push_substring_growth [OF hist ok push, folded h'_def]
  note B' = sr_hist_bounds [OF conjunct1 [OF G]]
  have bound: "idx + 1 < U64" "rcv_ackno r < U64" using ok B(1,2) I(5) by (auto split: if_splits)
  have isn: "(if th_syn (seg_header seg) then th_seqno (seg_header seg) else rcv_isn r) = isn"
    using seg syn I(2) by (auto simp: seg_carries_def)
  define r0 where "r0 = r\<lparr>rcv_isn := isn, rcv_has_isn := True, rcv_has_fin := eof_seen h'\<rparr>"
  have e: "eof_seen h' \<longleftrightarrow> eof_seen h \<or> th_fin (seg_header seg)" by (simp add: h'_def)
  have fin: "th_fin (seg_header seg) \<and> rcv_sent_fin r \<longrightarrow> eof_seen h" using B(6) I(4) by (simp add: input_ended_def)
  have seen: "(if th_fin (seg_header seg) \<and> \<not> rcv_sent_fin r then True else rcv_has_fin r) = eof_seen h'"
    using fin I(3) e by auto
  have grow: "u64_sub (buffer_size (sr_output r')) (buffer_size (stream_out r)) = sr_next r' - sr_next (rcv_reassembler r)"
    using G by (subst u64_sub_le) linarith+
  have add: "u64_add (rcv_ackno r) (sr_next r' - sr_next (rcv_reassembler r)) =
      sr_next r' + 1 + (if input_ended (stream_out r) then 1 else 0)"
    using G B'(1) B(2) I(5) by (subst u64_add_small) (auto split: if_splits)
  have step: "TCPReceiver_segment_received r seg = Inr (
      let r1 = r0\<lparr>rcv_reassembler := r',
        rcv_ackno := sr_next r' + 1 + (if input_ended (stream_out r) then 1 else 0)\<rparr>
      in if eof_seen h' \<and> \<not> rcv_sent_fin r \<and> input_ended (sr_output r')
         then r1\<lparr>rcv_ackno := u64_add (rcv_ackno r1) 1, rcv_sent_fin := True\<rparr> else r1)"
  proof -
    define r1 where "r1 = (if th_syn (seg_header seg) then r\<lparr>rcv_isn := th_seqno (seg_header seg), rcv_has_isn := True\<rparr> else r)"
    have r1: "r1 = r\<lparr>rcv_isn := isn, rcv_has_isn := True\<rparr>"
      using isn syn by (cases r) (auto simp: r1_def)
    have r2: "(if th_fin (seg_header seg) \<and> \<not> rcv_sent_fin r1 then r1\<lparr>rcv_has_fin := True\<rparr> else r1) = r0"
      using seen by (cases r) (auto simp: r1 r0_def split: if_splits)
    have st: "(if th_syn (seg_header seg) then unwrap (WrappingInt32_plus (th_seqno (seg_header seg)) 1) (rcv_isn r0) (rcv_ackno r0)
        else unwrap (th_seqno (seg_header seg)) (rcv_isn r0) (rcv_ackno r0)) = idx + 1"
      using seg_start [OF seg near bound] by (simp add: r0_def split: if_splits)
    have q: "rcv_reassembler r0 = rcv_reassembler r" "rcv_ackno r0 = rcv_ackno r" "rcv_sent_fin r0 = rcv_sent_fin r"
      "rcv_has_fin r0 = eof_seen h'" by (simp_all add: r0_def)
    have has: "\<not> \<not> rcv_has_isn r1" by (simp add: r1)
    show ?thesis
      unfolding TCPReceiver_segment_received_def Let_def r1_def [symmetric] r2 if_not_P [OF has] buf_copy_def
      unfolding st unfolding q using push by (simp add: grow add q)
  qed
  have ended: "input_ended (stream_out r) \<longrightarrow> input_ended (sr_output r') \<and> sr_next r' = sr_next (rcv_reassembler r)"
    using B(1,6) B'(1,6) G e by (auto simp: input_ended_def)
  have one: "u64_add (sr_next r' + 1) 1 = sr_next r' + 1 + 1" using B'(1,2) by simp
  have seen': "input_ended (sr_output r') \<longrightarrow> eof_seen h'" using B'(6) by (simp add: input_ended_def)
  show ?thesis
    unfolding step returns.simps h'_def [symmetric] Let_def
    using G I(1,4) ended one seen' by (auto simp: rcv_inv_def r0_def)
qed

text \<open>A pure acknowledgment changes nothing, whatever its sequence number.\<close>

lemma push_empty:
  assumes "sr_hist s k h (r, del)"
  shows "push_substring r [] index False = Inr r"
proof -
  have inv: "sr_inv (\<lambda>i. s ! i) r" using sr_hist_bounds(5) [OF assms] .
  have "sr_flush r = Inr r"
  proof (cases "sr_data r")
    case (Cons iv d)
    then have "iv_lo iv \<in> cov (sr_data r)" using sr_invD(3) [OF inv] by (simp add: iv_ok_def)
    then have "sr_next r \<noteq> iv_lo iv" using sr_invD(5) [OF inv] by auto
    then show ?thesis by (simp add: sr_flush_def Cons)
  qed (simp add: sr_flush_def)
  moreover have "check_end_input r i False = r" for i
  proof (cases "sr_eof r \<and> sr_eof_num r = sr_next r")
    case True
    then have "bs_eof_input (sr_output r)" using assms by (auto simp: sr_hist_def)
    then have "end_input (sr_output r) = sr_output r" by (cases "sr_output r") (simp add: end_input_def)
    then show ?thesis using True by (cases r) (simp add: check_end_input_def)
  qed (auto simp: check_end_input_def)
  ultimately show ?thesis by (simp add: push_substring_def assemble_def)
qed

lemma rcv_pure_ack_id:
  assumes inv: "rcv_inv s isn k h del r" and seg: "seg_pure_ack seg"
  shows "TCPReceiver_segment_received r seg = Inr r"
proof (cases "rcv_has_isn r")
  case True
  have "sr_hist s k h (rcv_reassembler r, del)" "rcv_sent_fin r = input_ended (stream_out r)" "rcv_ackno r < U64"
    using inv sr_hist_bounds [of s k h "rcv_reassembler r" del] by (auto simp: rcv_inv_def)
  then show ?thesis
    using True seg by (cases r) (simp add: TCPReceiver_segment_received_def seg_pure_ack_def buf_copy_def push_empty Let_def)
next
  case False
  then show ?thesis using seg by (simp add: TCPReceiver_segment_received_def seg_pure_ack_def)
qed

lemma rcv_before_syn_id:
  "\<not> rcv_has_isn r \<Longrightarrow> \<not> th_syn (seg_header seg) \<Longrightarrow> TCPReceiver_segment_received r seg = Inr r"
  by (simp add: TCPReceiver_segment_received_def)

lemma rcv_has_isn_kept:
  "TCPReceiver_segment_received r seg = Inr r' \<Longrightarrow> rcv_has_isn r' \<longleftrightarrow> rcv_has_isn r \<or> th_syn (seg_header seg)"
  by (auto simp: TCPReceiver_segment_received_def Let_def rbind_Inr_iff split: if_splits)

lemma rcv_read_inv:
  assumes "rcv_inv s isn k h del r"
    and "ByteStream_read (stream_out r) (min n (buffer_size (stream_out r))) = Inr (out, ans)"
  shows "rcv_inv s isn k (h @ [Pop n]) (del @ ans) (r\<lparr>rcv_reassembler := (rcv_reassembler r)\<lparr>sr_output := out\<rparr>\<rparr>)"
proof -
  have hist: "sr_hist s k h (rcv_reassembler r, del)" using assms(1) by (simp add: rcv_inv_def)
  then have h': "sr_hist s k (h @ [Pop n]) ((rcv_reassembler r)\<lparr>sr_output := out\<rparr>, del @ ans)"
    using sr_hist_pop [OF hist, of n] assms(2) by simp
  have "input_ended out = input_ended (stream_out r)"
    using sr_hist_bounds(6) [OF h'] sr_hist_bounds(6) [OF hist] by (simp add: input_ended_def)
  then show ?thesis using assms(1) h' by (simp add: rcv_inv_def)
qed

lemma rcv_reach_inv:
  assumes "rcv_reach s isn k h del r" "0 < k" "length s + k \<le> max_string"
  shows "rcv_inv s isn k h del r"
  using assms(1)
proof (induction rule: rcv_reach.induct)
  case rcv_init
  show ?case using assms(2,3) by (rule rcv_inv_init)
next
  case (rcv_segment h del r idx seg r')
  then show ?case using rcv_segment_returns [of s isn k h del r idx seg] by simp
next
  case (rcv_before_syn h del r seg r')
  then show ?case using rcv_before_syn_id [of r seg] by simp
next
  case (rcv_pure_ack h del r seg r')
  then show ?case using rcv_pure_ack_id [of s isn k h del r seg] by simp
next
  case (rcv_read h del r n out ans)
  then show ?case by (intro rcv_read_inv)
qed

section \<open>Properties\<close>

text \<open>C24: In every state a receiver can reach, the application has been given, in order, exactly the first
  bytes of the peer's stream, and the buffer holds the next ones. The acknowledgment number is
  the sequence number of the first byte not yet received, counting the SYN and, once the whole
  stream and its FIN are there, the FIN. The window is the room left in the buffer, and nothing
  beyond it is ever stored.\<close>

theorem receiver_in_order:
  assumes "rcv_reach s isn k h del r" and "0 < k" and "length s + k \<le> max_string"
  shows "del @ bs_contents (stream_out r) = take (sr_next (rcv_reassembler r)) s \<and>
    (input_ended (stream_out r) \<longrightarrow> del @ bs_contents (stream_out r) = s) \<and>
    TCPReceiver_ackno r = (if rcv_has_isn r
      then Some (wrap (1 + length (del @ bs_contents (stream_out r)) + (if input_ended (stream_out r) then 1 else 0)) isn)
      else None) \<and>
    window_size r = k - buffer_size (stream_out r) \<and>
    TCPReceiver_unassembled_bytes r \<le> window_size r"
proof -
  have inv: "rcv_inv s isn k h del r" using assms by (rule rcv_reach_inv)
  then have hist: "sr_hist s k h (rcv_reassembler r, del)" by (simp add: rcv_inv_def)
  note B = sr_hist_bounds [OF hist] and S = sr_hist_stream [OF hist]
  have win: "window_size r = k - buffer_size (stream_out r)"
    using inv B(4) by (simp add: window_size_def rcv_inv_def)
  have len: "length (del @ bs_contents (stream_out r)) = sr_next (rcv_reassembler r)"
    unfolding S using B(1) by simp
  have "TCPReceiver_unassembled_bytes r \<le> window_size r"
    using sr_hist_bound [OF hist] unfolding win TCPReceiver_unassembled_bytes_def by linarith
  moreover have "input_ended (stream_out r) \<longrightarrow> del @ bs_contents (stream_out r) = s"
    using S sr_hist_ended [OF hist] by simp
  ultimately show ?thesis
    unfolding len using S win inv by (simp add: TCPReceiver_ackno_def rcv_inv_def)
qed

text \<open>A SYN that carries data and the FIN, for the witnesses.\<close>

definition syn_fin_segment :: TCPSegment where
  "syn_fin_segment = \<lparr>seg_header = TCPHeader_default\<lparr>th_syn := True, th_fin := True, th_seqno := WrappingInt32 7\<rparr>,
     seg_payload = Buffer [1, 2]\<rparr>"

lemma syn_fin_reach:
  "\<exists>r. TCPReceiver_segment_received (TCPReceiver 4) syn_fin_segment = Inr r \<and>
     rcv_reach [1, 2] (WrappingInt32 7) 4 [Push 0 [1, 2] True] [] r"
proof -
  have seg: "seg_carries [1, 2] (WrappingInt32 7) 0 syn_fin_segment"
    by (simp add: seg_carries_def syn_fin_segment_def)
  have pay: "buf_str (seg_payload syn_fin_segment) = [1, 2]" "th_fin (seg_header syn_fin_segment)"
    "th_syn (seg_header syn_fin_segment)" by (simp_all add: syn_fin_segment_def)
  have init: "rcv_inv [1, 2] (WrappingInt32 7) 4 [] [] (TCPReceiver 4)" by (rule rcv_inv_init) simp_all
  have near: "seq_dist (0 + 1) (rcv_ackno (TCPReceiver 4)) < 2 ^ 31" by (simp add: seq_dist_def TCPReceiver_def)
  obtain r where r: "TCPReceiver_segment_received (TCPReceiver 4) syn_fin_segment = Inr r"
    using rcv_segment_returns [OF init seg near] pay by (auto simp: returns_iff)
  from rcv_segment [OF rcv_init seg near _ r] r pay show ?thesis by auto
qed

theorem receiver_in_order_witness:
  "\<exists>r. TCPReceiver_segment_received (TCPReceiver 4) syn_fin_segment = Inr r \<and>
     bs_contents (stream_out r) = take (sr_next (rcv_reassembler r)) [1, 2] \<and>
     window_size r = 4 - buffer_size (stream_out r) \<and> TCPReceiver_unassembled_bytes r \<le> window_size r"
  using syn_fin_reach receiver_in_order [of "[1, 2]" "WrappingInt32 7" 4 "[Push 0 [1, 2] True]" "[]"] by fastforce

text \<open>A receiver handles every segment that carries a part of the peer's stream without an exception or
  undefined behaviour, in every reachable state: old duplicates, segments beyond the window,
  overlapping and empty ones.\<close>

theorem receiver_total:
  assumes "rcv_reach s isn k h del r" and "0 < k" and "length s + k \<le> max_string"
    and "seg_carries s isn idx seg" and "seq_dist (idx + 1) (rcv_ackno r) < 2 ^ 31"
  shows "\<exists>r' h'. TCPReceiver_segment_received r seg = Inr r' \<and> rcv_reach s isn k h' del r'"
proof (cases "rcv_has_isn r \<or> th_syn (seg_header seg)")
  case True
  have "rcv_inv s isn k h del r" using assms(1-3) by (rule rcv_reach_inv)
  from rcv_segment_returns [OF this assms(4,5) True] show ?thesis
    using rcv_segment [OF assms(1,4,5) True] by (auto simp: returns_iff)
next
  case False
  then show ?thesis using rcv_before_syn_id [of r seg] assms(1) by blast
qed

theorem receiver_total_witness:
  "\<exists>r' h'. TCPReceiver_segment_received (TCPReceiver 4) syn_fin_segment = Inr r' \<and>
     rcv_reach [1, 2] (WrappingInt32 7) 4 h' [] r'"
  by (rule receiver_total [OF rcv_init, where idx = 0])
    (simp_all add: seg_carries_def syn_fin_segment_def seq_dist_def TCPReceiver_def)

text \<open>C25: When the segments received since the SYN, those before it being dropped, cover the stream and one carried
  the FIN, and the capacity is at least the length of the stream, then in whatever order they came the whole stream is delivered or
  buffered, its end is signalled to the application, and the acknowledgment number covers the
  SYN, every byte and the FIN.\<close>

theorem receiver_complete:
  assumes "rcv_reach s isn k h del r" and "0 < k" and "length s + k \<le> max_string"
    and "length s \<le> k" and "pushed h = {..<length s}" and "eof_seen h"
  shows "del @ bs_contents (stream_out r) = s \<and> input_ended (stream_out r) \<and>
    TCPReceiver_ackno r = Some (wrap (length s + 2) isn)"
proof -
  have inv: "rcv_inv s isn k h del r" using assms(1-3) by (rule rcv_reach_inv)
  then have hist: "sr_hist s k h (rcv_reassembler r, del)" by (simp add: rcv_inv_def)
  from sr_hist_complete [OF hist assms(4-6)] show ?thesis
    using sr_hist_stream [OF hist] inv assms(6) by (simp add: rcv_inv_def TCPReceiver_ackno_def input_ended_def)
qed

theorem receiver_complete_witness:
  "\<exists>r. TCPReceiver_segment_received (TCPReceiver 4) syn_fin_segment = Inr r \<and>
     bs_contents (stream_out r) = [1, 2] \<and> input_ended (stream_out r) \<and>
     TCPReceiver_ackno r = Some (wrap 4 (WrappingInt32 7))"
proof -
  obtain r where r: "TCPReceiver_segment_received (TCPReceiver 4) syn_fin_segment = Inr r"
    "rcv_reach [1, 2] (WrappingInt32 7) 4 [Push 0 [1, 2] True] [] r" using syn_fin_reach by blast
  have "[] @ bs_contents (stream_out r) = [1, 2] \<and> input_ended (stream_out r) \<and>
      TCPReceiver_ackno r = Some (wrap (length [1 :: u8, 2] + 2) (WrappingInt32 7))"
    by (rule receiver_complete [OF r(2)]) auto
  then show ?thesis using r(1) by (simp add: numeral_eq_Suc)
qed

end
