(* ===== verification/TCP_Connection.thy ===== *)
theory TCP_Connection
  imports TCP_Sender TCP_Receiver
begin

text \<open>
  \<^verbatim>\<open>libsponge/tcp_connection.hh\<close> and \<^verbatim>\<open>.cc\<close>, and \<^verbatim>\<open>tcp_helpers/tcp_state.hh\<close> and \<^verbatim>\<open>.cc\<close>: an endpoint of a TCP
  connection, which joins a sender and a receiver, and the summary of its state in the names of
  RFC 793.

  \<open>conn_inv isn k w s del c\<close> is the invariant of a connection whose application has written \<open>w\<close> and has read
  \<open>del\<close>, and whose peer sends the stream \<open>s\<close> from the initial sequence number \<open>isn\<close>. It joins the sender's
  and the receiver's invariants and says that the queue holds only segments the sender produced,
  with the receiver's acknowledgment filled in. Every operation returns and keeps it.
\<close>

section \<open>TCPConnection\<close>

record tcp_connection =
  conn_cfg :: TCPConfig
  conn_receiver :: tcp_receiver
  conn_sender :: tcp_sender
  conn_segments_out :: "TCPSegment list"
  conn_time_passed :: size_t
  conn_linger :: bool

definition TCPConnection :: "u32 \<Rightarrow> TCPConfig \<Rightarrow> tcp_connection" where
  "TCPConnection random_value cfg =
     \<lparr>conn_cfg = cfg, conn_receiver = TCPReceiver (cfg_recv_capacity cfg),
      conn_sender = TCPSender random_value (cfg_send_capacity cfg) (cfg_rt_timeout cfg) (cfg_fixed_isn cfg),
      conn_segments_out = [], conn_time_passed = 0, conn_linger = True\<rparr>"

abbreviation stream_in :: "tcp_connection \<Rightarrow> byte_stream" where
  "stream_in c \<equiv> snd_stream (conn_sender c)"

abbreviation inbound_stream :: "tcp_connection \<Rightarrow> byte_stream" where
  "inbound_stream c \<equiv> stream_out (conn_receiver c)"

definition segment_with_info :: "tcp_receiver \<Rightarrow> TCPSegment \<Rightarrow> TCPSegment" where
  "segment_with_info r segment =
     (let header = seg_header segment;
          header = (case TCPReceiver_ackno r of Some a \<Rightarrow> header\<lparr>th_ack := True, th_ackno := a\<rparr> | None \<Rightarrow> header)
      in segment\<lparr>seg_header := header\<lparr>th_win := of_nat (window_size r)\<rparr>\<rparr>)"

definition send_segment_with_info :: "tcp_connection \<Rightarrow> tcp_connection" where
  "send_segment_with_info c =
     c\<lparr>conn_segments_out := conn_segments_out c @ map (segment_with_info (conn_receiver c)) (snd_segments_out (conn_sender c)),
       conn_sender := (conn_sender c)\<lparr>snd_segments_out := []\<rparr>\<rparr>"

definition send_rst :: "tcp_connection \<Rightarrow> tcp_connection" where
  "send_rst c =
     (let s = send_empty_segment (conn_sender c);
          back = last (snd_segments_out s);
          back = back\<lparr>seg_header := (seg_header back)\<lparr>th_rst := True\<rparr>\<rparr>
      in send_segment_with_info (c\<lparr>conn_sender := s\<lparr>snd_segments_out := butlast (snd_segments_out s) @ [back]\<rparr>\<rparr>))"

definition receiver_set_error :: "tcp_receiver \<Rightarrow> tcp_receiver" where
  "receiver_set_error r = r\<lparr>rcv_reassembler := (rcv_reassembler r)\<lparr>sr_output := set_error (stream_out r)\<rparr>\<rparr>"

definition dirty_abort :: "tcp_connection \<Rightarrow> tcp_connection" where
  "dirty_abort c =
     c\<lparr>conn_sender := (conn_sender c)\<lparr>snd_stream := set_error (stream_in c)\<rparr>,
       conn_receiver := receiver_set_error (conn_receiver c), conn_linger := False\<rparr>"

definition conn_abort :: "tcp_connection \<Rightarrow> tcp_connection" where
  "conn_abort c = c\<lparr>conn_linger := False\<rparr>"

definition remaining_outbound_capacity :: "tcp_connection \<Rightarrow> size_t" where
  "remaining_outbound_capacity c = remaining_capacity (stream_in c)"

definition TCPConnection_bytes_in_flight :: "tcp_connection \<Rightarrow> size_t" where
  "TCPConnection_bytes_in_flight c = bytes_in_flight (conn_sender c)"

definition TCPConnection_unassembled_bytes :: "tcp_connection \<Rightarrow> size_t" where
  "TCPConnection_unassembled_bytes c = TCPReceiver_unassembled_bytes (conn_receiver c)"

definition TCPConnection_segment_received :: "tcp_connection \<Rightarrow> TCPSegment \<Rightarrow> tcp_connection res" where
  "TCPConnection_segment_received c seg =
     (let header = seg_header seg
      in if th_rst header then Inr (dirty_abort c)
         else rbind (TCPReceiver_segment_received (conn_receiver c) seg) (\<lambda>r.
           let c = c\<lparr>conn_receiver := r\<rparr>
           in case TCPReceiver_ackno r of
                None \<Rightarrow> Inr c
              | Some ackno \<Rightarrow>
                  rbind (if th_ack header then fill_window (ack_received (conn_sender c) (th_ackno header) (th_win header))
                         else if th_syn header then fill_window (conn_sender c)
                         else Inr (conn_sender c)) (\<lambda>s.
                    let c = c\<lparr>conn_sender := s\<rparr>;
                        c = (if th_fin header \<and> \<not> ByteStream_eof (stream_in c) then c\<lparr>conn_linger := False\<rparr> else c);
                        seg_length = length_in_sequence_space seg;
                        c = (if seg_length = 0 \<and> th_seqno header = WrappingInt32_minus ackno 1
                             then c\<lparr>conn_sender := send_empty_segment (conn_sender c)\<rparr> else c);
                        c = (if seg_length \<noteq> 0 \<and> snd_segments_out (conn_sender c) = []
                             then c\<lparr>conn_sender := send_empty_segment (conn_sender c)\<rparr> else c)
                    in Inr ((send_segment_with_info c)\<lparr>conn_time_passed := 0\<rparr>))))"

definition conn_active :: "tcp_connection \<Rightarrow> bool" where
  "conn_active c \<longleftrightarrow> conn_linger c \<or>
     ((bytes_in_flight (conn_sender c) \<noteq> 0 \<or> \<not> ByteStream_eof (stream_in c)) \<and> \<not> bs_error (stream_in c)) \<or>
     (\<not> ByteStream_eof (inbound_stream c) \<and> \<not> bs_error (inbound_stream c))"

definition TCPConnection_write :: "tcp_connection \<Rightarrow> bytes \<Rightarrow> (tcp_connection \<times> size_t) res" where
  "TCPConnection_write c data =
     (if input_ended (stream_in c) then Inr (c, 0)
      else
        let send_successfully = min (remaining_capacity (stream_in c)) (length data)
        in rbind (ByteStream_write (stream_in c) data) (\<lambda>(stream, _).
             rbind (fill_window ((conn_sender c)\<lparr>snd_stream := stream\<rparr>)) (\<lambda>s.
               Inr (send_segment_with_info (c\<lparr>conn_sender := s\<rparr>), send_successfully))))"

definition TCPConnection_tick :: "tcp_connection \<Rightarrow> size_t \<Rightarrow> tcp_connection res" where
  "TCPConnection_tick c ms_since_last_tick =
     (let c = c\<lparr>conn_time_passed := u64_add (conn_time_passed c) ms_since_last_tick\<rparr>
      in rbind (TCPSender_tick (conn_sender c) ms_since_last_tick) (\<lambda>s.
           let c = c\<lparr>conn_sender := s\<rparr>;
               c = (if MAX_RETX_ATTEMPTS < snd_consecutive_retransmissions s
                    then dirty_abort (send_rst (c\<lparr>conn_sender := s\<lparr>snd_segments_out := []\<rparr>\<rparr>)) else c);
               c = (if ByteStream_eof (stream_in c) \<and> ByteStream_eof (inbound_stream c) \<and> conn_linger c \<and>
                       10 * unat (cfg_rt_timeout (conn_cfg c)) \<le> conn_time_passed c
                    then conn_abort c else c)
           in Inr (send_segment_with_info c)))"

definition end_input_stream :: "tcp_connection \<Rightarrow> tcp_connection res" where
  "end_input_stream c =
     (if input_ended (stream_in c) then Inr c
      else rbind (fill_window ((conn_sender c)\<lparr>snd_stream := end_input (stream_in c)\<rparr>)) (\<lambda>s.
             Inr (send_segment_with_info (c\<lparr>conn_sender := s\<rparr>))))"

definition conn_connect :: "tcp_connection \<Rightarrow> tcp_connection res" where
  "conn_connect c = rbind (fill_window (conn_sender c)) (\<lambda>s. Inr (send_segment_with_info (c\<lparr>conn_sender := s\<rparr>)))"

definition conn_destroy :: "tcp_connection \<Rightarrow> tcp_connection" where
  "conn_destroy c = (if conn_active c then dirty_abort (send_rst c) else c)"

section \<open>TCPState\<close>

record tcp_state =
  st_sender :: string
  st_receiver :: string
  st_active :: bool
  st_linger :: bool

datatype State =
    LISTEN | SYN_RCVD | SYN_SENT | ESTABLISHED | CLOSE_WAIT | LAST_ACK
  | FIN_WAIT_1 | FIN_WAIT_2 | CLOSING | TIME_WAIT | CLOSED | RESET

definition Receiver_ERROR :: string where
  "Receiver_ERROR = ''error (connection was reset)''"

definition Receiver_LISTEN :: string where
  "Receiver_LISTEN = ''waiting for SYN: ackno is empty''"

definition Receiver_SYN_RECV :: string where
  "Receiver_SYN_RECV = ''SYN received (ackno exists), and input to stream hasn't ended''"

definition Receiver_FIN_RECV :: string where
  "Receiver_FIN_RECV = ''input to stream has ended''"

definition Sender_ERROR :: string where
  "Sender_ERROR = ''error (connection was reset)''"

definition Sender_CLOSED :: string where
  "Sender_CLOSED = ''waiting for stream to begin (no SYN sent)''"

definition Sender_SYN_SENT :: string where
  "Sender_SYN_SENT = ''stream started but nothing acknowledged''"

definition Sender_SYN_ACKED :: string where
  "Sender_SYN_ACKED = ''stream ongoing''"

definition Sender_FIN_SENT :: string where
  "Sender_FIN_SENT = ''stream finished (FIN sent) but not fully acknowledged''"

definition Sender_FIN_ACKED :: string where
  "Sender_FIN_ACKED = ''stream finished and fully acknowledged''"

definition TCPState_eq :: "tcp_state \<Rightarrow> tcp_state \<Rightarrow> bool" where
  "TCPState_eq a b \<longleftrightarrow> st_active a = st_active b \<and> st_linger a = st_linger b \<and>
     st_sender a = st_sender b \<and> st_receiver a = st_receiver b"

definition to_string_bool :: "bool \<Rightarrow> string" where
  "to_string_bool b = (if b then ''1'' else ''0'')"

definition TCPState_name :: "tcp_state \<Rightarrow> string" where
  "TCPState_name s = ''sender=`'' @ st_sender s @ ''`, receiver=`'' @ st_receiver s @ ''`, active='' @
     to_string_bool (st_active s) @ '', linger_after_streams_finish='' @ to_string_bool (st_linger s)"

fun TCPState_of :: "State \<Rightarrow> tcp_state" where
  "TCPState_of LISTEN = \<lparr>st_sender = Sender_CLOSED, st_receiver = Receiver_LISTEN, st_active = True, st_linger = True\<rparr>"
| "TCPState_of SYN_RCVD = \<lparr>st_sender = Sender_SYN_SENT, st_receiver = Receiver_SYN_RECV, st_active = True, st_linger = True\<rparr>"
| "TCPState_of SYN_SENT = \<lparr>st_sender = Sender_SYN_SENT, st_receiver = Receiver_LISTEN, st_active = True, st_linger = True\<rparr>"
| "TCPState_of ESTABLISHED = \<lparr>st_sender = Sender_SYN_ACKED, st_receiver = Receiver_SYN_RECV, st_active = True, st_linger = True\<rparr>"
| "TCPState_of CLOSE_WAIT = \<lparr>st_sender = Sender_SYN_ACKED, st_receiver = Receiver_FIN_RECV, st_active = True, st_linger = False\<rparr>"
| "TCPState_of LAST_ACK = \<lparr>st_sender = Sender_FIN_SENT, st_receiver = Receiver_FIN_RECV, st_active = True, st_linger = False\<rparr>"
| "TCPState_of CLOSING = \<lparr>st_sender = Sender_FIN_SENT, st_receiver = Receiver_FIN_RECV, st_active = True, st_linger = True\<rparr>"
| "TCPState_of FIN_WAIT_1 = \<lparr>st_sender = Sender_FIN_SENT, st_receiver = Receiver_SYN_RECV, st_active = True, st_linger = True\<rparr>"
| "TCPState_of FIN_WAIT_2 = \<lparr>st_sender = Sender_FIN_ACKED, st_receiver = Receiver_SYN_RECV, st_active = True, st_linger = True\<rparr>"
| "TCPState_of TIME_WAIT = \<lparr>st_sender = Sender_FIN_ACKED, st_receiver = Receiver_FIN_RECV, st_active = True, st_linger = True\<rparr>"
| "TCPState_of RESET = \<lparr>st_sender = Sender_ERROR, st_receiver = Receiver_ERROR, st_active = False, st_linger = False\<rparr>"
| "TCPState_of CLOSED = \<lparr>st_sender = Sender_FIN_ACKED, st_receiver = Receiver_FIN_RECV, st_active = False, st_linger = False\<rparr>"

definition receiver_summary :: "tcp_receiver \<Rightarrow> string" where
  "receiver_summary r =
     (if bs_error (stream_out r) then Receiver_ERROR
      else if TCPReceiver_ackno r = None then Receiver_LISTEN
      else if input_ended (stream_out r) then Receiver_FIN_RECV
      else Receiver_SYN_RECV)"

definition sender_summary :: "tcp_sender \<Rightarrow> string" where
  "sender_summary s =
     (if bs_error (snd_stream s) then Sender_ERROR
      else if snd_next_seqno s = 0 then Sender_CLOSED
      else if snd_next_seqno s = bytes_in_flight s then Sender_SYN_SENT
      else if \<not> ByteStream_eof (snd_stream s) then Sender_SYN_ACKED
      else if snd_next_seqno s < u64_add (bytes_written (snd_stream s)) 2 then Sender_SYN_ACKED
      else if bytes_in_flight s \<noteq> 0 then Sender_FIN_SENT
      else Sender_FIN_ACKED)"

definition TCPState :: "tcp_sender \<Rightarrow> tcp_receiver \<Rightarrow> bool \<Rightarrow> bool \<Rightarrow> tcp_state" where
  "TCPState s r active linger =
     \<lparr>st_sender = sender_summary s, st_receiver = receiver_summary r, st_active = active,
      st_linger = (if active then linger else False)\<rparr>"

definition conn_state :: "tcp_connection \<Rightarrow> tcp_state" where
  "conn_state c = TCPState (conn_sender c) (conn_receiver c) (conn_active c) (conn_linger c)"

section \<open>The invariant of a connection\<close>

text \<open>The peer's stream is shorter than 2^31 - 2 bytes, so that every segment of it, however old, is
  nearer to the receiver's acknowledgment number than half the sequence space.\<close>

abbreviation max_transfer :: nat where
  "max_transfer \<equiv> 2147483645"

definition peer_seg :: "bytes \<Rightarrow> WrappingInt32 \<Rightarrow> TCPSegment \<Rightarrow> bool" where
  "peer_seg s isn seg \<longleftrightarrow> seg_pure_ack seg \<or> (\<exists>idx. seg_carries s isn idx seg)"

definition conn_inv ::
  "WrappingInt32 \<Rightarrow> size_t \<Rightarrow> bytes \<Rightarrow> bytes \<Rightarrow> bytes \<Rightarrow> tcp_connection \<Rightarrow> bool" where
  "conn_inv isn k w s del c \<longleftrightarrow> snd_inv w (conn_sender c) \<and> snd_segments_out (conn_sender c) = [] \<and>
     (\<exists>h. rcv_inv s isn k h del (conn_receiver c)) \<and>
     (\<forall>seg \<in> set (conn_segments_out c). sent_ok w (snd_isn (conn_sender c)) (snd_sent_fin (conn_sender c)) seg)"

text \<open>How the sending side moves on: the stream only grows, and only before its end.\<close>

definition snd_grow :: "bytes \<Rightarrow> tcp_sender \<Rightarrow> bytes \<Rightarrow> tcp_sender \<Rightarrow> bool" where
  "snd_grow w s w' s' \<longleftrightarrow> snd_isn s' = snd_isn s \<and> (\<exists>d. w' = w @ d \<and> (d \<noteq> [] \<longrightarrow> \<not> input_ended (snd_stream s))) \<and>
     (input_ended (snd_stream s) \<longrightarrow> input_ended (snd_stream s')) \<and> (snd_sent_fin s \<longrightarrow> snd_sent_fin s')"

lemma snd_grow_refl [simp]: "snd_grow w s w s"
  by (simp add: snd_grow_def)

lemma snd_grow_trans: "snd_grow w s w' s' \<Longrightarrow> snd_grow w' s' w'' s'' \<Longrightarrow> snd_grow w s w'' s''"
  by (auto simp: snd_grow_def)

lemma sent_ok_grow:
  assumes "snd_inv w s" and "snd_grow w s w' s'" and "sent_ok w isn (snd_sent_fin s) seg"
  shows "sent_ok w' isn (snd_sent_fin s') seg"
proof -
  from assms(2) obtain d where d: "w' = w @ d" "d \<noteq> [] \<longrightarrow> \<not> input_ended (snd_stream s)"
    "snd_sent_fin s \<longrightarrow> snd_sent_fin s'" by (auto simp: snd_grow_def)
  show ?thesis
  proof (cases "snd_sent_fin s")
    case True
    then have "d = []" using assms(1) d(2) by (auto simp: snd_inv_def snd_core_def)
    with True assms(3) d show ?thesis by simp
  next
    case False
    then show ?thesis using assms(3) d(1) by (simp add: sent_ok_append sent_ok_fin)
  qed
qed

text \<open>A sender's segment, seen by the peer: it carries a part of every stream that the application may
  still make of what it has written.\<close>

lemma sent_ok_peer:
  assumes "sent_ok w isn fin seg" and "fin \<longrightarrow> d = []"
  shows "peer_seg (w @ d) isn seg"
proof (cases "d = []")
  case True
  then show ?thesis using assms(1) by (auto simp: sent_ok_def peer_seg_def seg_at_def)
next
  case False
  then show ?thesis using assms by (auto simp: sent_ok_def peer_seg_def seg_at_def dest: seg_carries_append)
qed

lemma segment_with_info_fields [simp]:
  "seg_payload (segment_with_info r seg) = seg_payload seg"
  "th_seqno (seg_header (segment_with_info r seg)) = th_seqno (seg_header seg)"
  "th_syn (seg_header (segment_with_info r seg)) = th_syn (seg_header seg)"
  "th_fin (seg_header (segment_with_info r seg)) = th_fin (seg_header seg)"
  "th_rst (seg_header (segment_with_info r seg)) = th_rst (seg_header seg)"
  by (simp_all add: segment_with_info_def Let_def split: option.split)

lemma sent_ok_info [simp]: "sent_ok w isn fin (segment_with_info r seg) = sent_ok w isn fin seg"
  by (simp add: sent_ok_def seg_at_def seg_carries_def seg_pure_ack_def)

lemma snd_core_drained: "snd_core w s \<Longrightarrow> snd_core w (s\<lparr>snd_segments_out := []\<rparr>)"
  by (rule snd_core_out(2)) simp_all

lemma snd_inv_drained: "snd_inv w s \<Longrightarrow> snd_inv w (s\<lparr>snd_segments_out := []\<rparr>)"
  by (simp add: snd_inv_def snd_core_drained)

lemma snd_inv_set_error: "snd_inv w s \<Longrightarrow> snd_inv w (s\<lparr>snd_stream := set_error (snd_stream s)\<rparr>)"
  by (auto simp: snd_inv_def snd_core_def snd_taken_def)

lemma sr_hist_set_error:
  "sr_hist s k h (r, del) \<Longrightarrow> sr_hist s k h (r\<lparr>sr_output := set_error (sr_output r)\<rparr>, del)"
  by (auto simp: sr_hist_def sr_inv_def sr_upper_def) (auto simp: set_error_def)

lemma rcv_inv_set_error: "rcv_inv s isn k h del r \<Longrightarrow> rcv_inv s isn k h del (receiver_set_error r)"
  by (simp add: rcv_inv_def receiver_set_error_def sr_hist_set_error)

text \<open>\<open>conn_part\<close> is the invariant between the steps of an operation, when the sender's queue is not yet drained.\<close>

definition conn_part ::
  "WrappingInt32 \<Rightarrow> size_t \<Rightarrow> bytes \<Rightarrow> bytes \<Rightarrow> bytes \<Rightarrow> tcp_connection \<Rightarrow> bool" where
  "conn_part isn k w s del c \<longleftrightarrow> snd_inv w (conn_sender c) \<and> (\<exists>h. rcv_inv s isn k h del (conn_receiver c)) \<and>
     (\<forall>seg \<in> set (conn_segments_out c). sent_ok w (snd_isn (conn_sender c)) (snd_sent_fin (conn_sender c)) seg)"

lemma conn_inv_part: "conn_inv isn k w s del c \<longleftrightarrow> conn_part isn k w s del c \<and> snd_segments_out (conn_sender c) = []"
  by (auto simp: conn_inv_def conn_part_def)

lemma conn_part_flags [simp]:
  "conn_part isn k w s del (c\<lparr>conn_linger := b\<rparr>) = conn_part isn k w s del c"
  "conn_part isn k w s del (c\<lparr>conn_time_passed := t\<rparr>) = conn_part isn k w s del c"
  by (simp_all add: conn_part_def)

lemma conn_part_sender:
  assumes "conn_part isn k w s del c" and "snd_inv w' sd" and "snd_grow w (conn_sender c) w' sd"
  shows "conn_part isn k w' s del (c\<lparr>conn_sender := sd\<rparr>)"
  using assms sent_ok_grow [of w "conn_sender c" w' sd] by (auto simp: conn_part_def snd_grow_def)

lemma conn_part_receiver:
  "conn_part isn k w s del c \<Longrightarrow> rcv_inv s isn k h del' r \<Longrightarrow> conn_part isn k w s del' (c\<lparr>conn_receiver := r\<rparr>)"
  by (auto simp: conn_part_def)

lemma send_segment_inv:
  assumes "conn_part isn k w s del c"
  shows "conn_inv isn k w s del (send_segment_with_info c)"
  using assms by (auto simp: conn_part_def conn_inv_def send_segment_with_info_def snd_inv_drained)
    (auto simp: snd_inv_def snd_core_def)

lemma send_segment_same [simp]:
  "snd_isn (conn_sender (send_segment_with_info c)) = snd_isn (conn_sender c)"
  "snd_stream (conn_sender (send_segment_with_info c)) = snd_stream (conn_sender c)"
  "snd_sent_fin (conn_sender (send_segment_with_info c)) = snd_sent_fin (conn_sender c)"
  "snd_next_seqno (conn_sender (send_segment_with_info c)) = snd_next_seqno (conn_sender c)"
  "snd_seqno_acked (conn_sender (send_segment_with_info c)) = snd_seqno_acked (conn_sender c)"
  "conn_receiver (send_segment_with_info c) = conn_receiver c"
  "conn_linger (send_segment_with_info c) = conn_linger c"
  "conn_cfg (send_segment_with_info c) = conn_cfg c"
  "conn_time_passed (send_segment_with_info c) = conn_time_passed c"
  "snd_segments_out (conn_sender (send_segment_with_info c)) = []"
  by (simp_all add: send_segment_with_info_def)

section \<open>The operations keep the invariant\<close>

lemma fill_window_grow:
  assumes "snd_inv w s"
  shows "returns (fill_window s) (\<lambda>s'. snd_inv w s' \<and> snd_grow w s w s')"
  using fill_window_returns [OF assms] by (rule returns_mono) (simp add: snd_grow_def filled_def)

lemma ack_received_grow: "snd_inv w s \<Longrightarrow> snd_grow w s w (ack_received s a win)"
  using ack_received_eq [of w s] by (simp add: snd_inv_def Let_def acked_to_def snd_grow_def)

lemma send_empty_grow [simp]: "snd_grow w s w (send_empty_segment s)"
  by (simp add: send_empty_segment_def Let_def snd_grow_def)

lemma conn_part_empty: "conn_part isn k w s del c \<Longrightarrow> conn_part isn k w s del (c\<lparr>conn_sender := send_empty_segment (conn_sender c)\<rparr>)"
  by (rule conn_part_sender [where w = w]) (simp_all add: conn_part_def send_empty_segment_inv)

lemma dirty_abort_part: "conn_part isn k w s del c \<Longrightarrow> conn_part isn k w s del (dirty_abort c)"
  by (auto simp: conn_part_def dirty_abort_def snd_inv_set_error intro: rcv_inv_set_error)

lemma send_rst_inv:
  assumes "conn_part isn k w s del c"
  shows "conn_inv isn k w s del (send_rst c)"
proof -
  let ?s = "conn_sender c"
  have inv: "snd_inv w ?s" and core: "snd_core w ?s" using assms by (simp_all add: conn_part_def snd_inv_def)
  define sg where "sg = TCPSegment_default\<lparr>seg_header := TCPHeader_default\<lparr>th_seqno := wrap (snd_next_seqno ?s) (snd_isn ?s), th_rst := True\<rparr>\<rparr>"
  let ?t = "?s\<lparr>snd_segments_out := snd_segments_out ?s @ [sg]\<rparr>"
  have e: "send_rst c = send_segment_with_info (c\<lparr>conn_sender := ?t\<rparr>)"
    by (simp add: send_rst_def Let_def send_empty_segment_def sg_def)
  have "sent_ok w (snd_isn ?s) (snd_sent_fin ?s) sg"
    by (simp add: sg_def sent_ok_def seg_pure_ack_def TCPSegment_default_def)
  then have "snd_core w ?t" using core by (intro snd_core_out(2)) (auto simp: snd_core_def)
  then have "conn_part isn k w s del (c\<lparr>conn_sender := ?t\<rparr>)"
    using inv by (intro conn_part_sender [OF assms]) (auto simp: snd_inv_def snd_grow_def)
  then show ?thesis unfolding e by (rule send_segment_inv)
qed

lemma send_rst_grow [simp]: "snd_grow w (conn_sender c) w (conn_sender (send_rst c))"
  by (simp add: send_rst_def Let_def snd_grow_def) (simp add: send_empty_segment_def Let_def)

lemma dirty_abort_grow [simp]: "snd_grow w s w (conn_sender (dirty_abort c)) = snd_grow w s w (conn_sender c)"
  by (simp add: dirty_abort_def snd_grow_def)

lemma rcv_peer_returns:
  assumes inv: "rcv_inv s isn k h del r" and seg: "peer_seg s isn seg" and len: "length s \<le> max_transfer"
  shows "returns (TCPReceiver_segment_received r seg) (\<lambda>r'. \<exists>h'. rcv_inv s isn k h' del r')"
  using seg unfolding peer_seg_def
proof (elim disjE exE)
  assume "seg_pure_ack seg"
  then show ?thesis using rcv_pure_ack_id [OF inv] inv by auto
next
  fix idx assume c: "seg_carries s isn idx seg"
  have "sr_next (rcv_reassembler r) \<le> length s" using inv sr_hist_bounds(1) by (auto simp: rcv_inv_def)
  moreover have "idx \<le> length s" using c by (simp add: seg_carries_def)
  ultimately have near: "seq_dist (idx + 1) (rcv_ackno r) < 2 ^ 31"
    using inv len by (auto simp: rcv_inv_def seq_dist_def)
  show ?thesis
  proof (cases "rcv_has_isn r \<or> th_syn (seg_header seg)")
    case True
    from rcv_segment_returns [OF inv c near this] show ?thesis by (rule returns_mono) blast
  next
    case False
    then show ?thesis using rcv_before_syn_id [of r seg] inv by auto
  qed
qed

definition conn_keeps :: "WrappingInt32 \<Rightarrow> size_t \<Rightarrow> bytes \<Rightarrow> bytes \<Rightarrow> bytes \<Rightarrow> tcp_connection \<Rightarrow> tcp_connection \<Rightarrow> bool" where
  "conn_keeps isn k w s del c c' \<longleftrightarrow> conn_inv isn k w s del c' \<and> snd_grow w (conn_sender c) w (conn_sender c')"

lemma conn_segment_returns:
  assumes inv: "conn_inv isn k w s del c" and seg: "th_rst (seg_header seg) \<or> peer_seg s isn seg" and len: "length s \<le> max_transfer"
  shows "returns (TCPConnection_segment_received c seg) (conn_keeps isn k w s del c)"
proof (cases "th_rst (seg_header seg)")
  case True
  have "conn_inv isn k w s del (dirty_abort c)"
    using inv dirty_abort_part by (auto simp: conn_inv_part dirty_abort_def)
  then show ?thesis using True by (simp add: TCPConnection_segment_received_def conn_keeps_def)
next
  case False
  have part: "conn_part isn k w s del c" using inv by (simp add: conn_inv_part)
  then obtain h where r: "rcv_inv s isn k h del (conn_receiver c)" by (auto simp: conn_part_def)
  have sinv: "snd_inv w (conn_sender c)" using part by (simp add: conn_part_def)
  have "peer_seg s isn seg" using seg False by simp
  from rcv_peer_returns [OF r this len] obtain r' h' where
    r': "TCPReceiver_segment_received (conn_receiver c) seg = Inr r'" "rcv_inv s isn k h' del r'"
    by (auto simp: returns_iff)
  let ?h = "seg_header seg"
  define m where "m = (if th_ack ?h then fill_window (ack_received (conn_sender c) (th_ackno ?h) (th_win ?h))
    else if th_syn ?h then fill_window (conn_sender c) else Inr (conn_sender c))"
  have "returns m (\<lambda>s'. snd_inv w s' \<and> snd_grow w (conn_sender c) w s')"
    unfolding m_def
    using fill_window_grow [OF sinv] fill_window_grow [OF ack_received_inv [OF sinv], of "th_ackno ?h" "th_win ?h"]
      ack_received_grow [OF sinv]
    by (auto simp: sinv returns_iff intro: snd_grow_trans)
  then obtain sd where sd: "m = Inr sd" "snd_inv w sd" "snd_grow w (conn_sender c) w sd" by (auto simp: returns_iff)
  have p: "conn_part isn k w s del (c\<lparr>conn_receiver := r', conn_sender := sd\<rparr>)"
    using conn_part_sender [OF conn_part_receiver [OF part r'(2)] sd(2)] sd(3) by simp
  show ?thesis
  proof (cases "TCPReceiver_ackno r'")
    case None
    then show ?thesis
      using False r' conn_part_receiver [OF part r'(2)] inv
      by (simp add: TCPConnection_segment_received_def conn_keeps_def conn_inv_part)
  next
    case (Some ackno)
    define cr where "cr = c\<lparr>conn_receiver := r'\<rparr>"
    have scr: "conn_sender cr = conn_sender c" by (simp add: cr_def)
    define c1 where "c1 = cr\<lparr>conn_sender := sd\<rparr>"
    define c2 where "c2 = (if th_fin ?h \<and> \<not> ByteStream_eof (stream_in c1) then c1\<lparr>conn_linger := False\<rparr> else c1)"
    define c3 where "c3 = (if length_in_sequence_space seg = 0 \<and> th_seqno ?h = WrappingInt32_minus ackno 1
      then c2\<lparr>conn_sender := send_empty_segment (conn_sender c2)\<rparr> else c2)"
    define c4 where "c4 = (if length_in_sequence_space seg \<noteq> 0 \<and> snd_segments_out (conn_sender c3) = []
      then c3\<lparr>conn_sender := send_empty_segment (conn_sender c3)\<rparr> else c3)"
    have "conn_part isn k w s del c4" using p by (simp add: cr_def c1_def c2_def c3_def c4_def conn_part_empty)
    moreover have "snd_grow w (conn_sender c) w (conn_sender c4)"
      using sd(3) by (auto simp: cr_def c1_def c2_def c3_def c4_def intro: snd_grow_trans)
    ultimately have "conn_keeps isn k w s del c ((send_segment_with_info c4)\<lparr>conn_time_passed := 0\<rparr>)"
      using send_segment_inv [of isn k w s del c4] by (simp add: conn_keeps_def conn_inv_part snd_grow_def)
    moreover have "TCPConnection_segment_received c seg = Inr ((send_segment_with_info c4)\<lparr>conn_time_passed := 0\<rparr>)"
      unfolding TCPConnection_segment_received_def Let_def if_not_P [OF False] r'(1) rbind.simps Some option.case
      unfolding cr_def [symmetric] unfolding scr m_def [symmetric] unfolding sd(1) rbind.simps
      unfolding c1_def [symmetric] unfolding c2_def [symmetric] unfolding c3_def [symmetric] unfolding c4_def [symmetric]
      by (rule refl)
    ultimately show ?thesis by simp
  qed
qed

lemma conn_fill_returns:
  assumes part: "conn_part isn k w s del c"
  shows "returns (conn_connect c) (conn_keeps isn k w s del c)"
proof -
  have "snd_inv w (conn_sender c)" using part by (simp add: conn_part_def)
  from fill_window_grow [OF this] show ?thesis
    using send_segment_inv [OF conn_part_sender [OF part]]
    by (auto simp: conn_connect_def returns_iff conn_keeps_def) (simp add: snd_grow_def)
qed

lemma conn_connect_returns: "conn_inv isn k w s del c \<Longrightarrow> returns (conn_connect c) (conn_keeps isn k w s del c)"
  by (rule conn_fill_returns) (simp add: conn_inv_part)

lemma conn_end_returns:
  assumes inv: "conn_inv isn k w s del c"
  shows "returns (end_input_stream c) (\<lambda>c'. conn_keeps isn k w s del c c' \<and> input_ended (stream_in c'))"
proof (cases "input_ended (stream_in c)")
  case True
  then show ?thesis using inv by (simp add: end_input_stream_def conn_keeps_def)
next
  case False
  let ?c = "c\<lparr>conn_sender := (conn_sender c)\<lparr>snd_stream := end_input (stream_in c)\<rparr>\<rparr>"
  have g: "snd_grow w (conn_sender c) w (conn_sender ?c)" by (simp add: snd_grow_def)
  have "conn_part isn k w s del ?c"
    using inv g by (intro conn_part_sender [where w = w]) (simp_all add: conn_inv_part conn_part_def snd_end_inv)
  from conn_fill_returns [OF this] obtain c' where c': "conn_connect ?c = Inr c'" "conn_keeps isn k w s del ?c c'"
    by (auto simp: returns_iff)
  have "end_input_stream c = Inr c'" using c'(1) False by (simp add: end_input_stream_def conn_connect_def)
  moreover have "conn_keeps isn k w s del c c'" using c'(2) snd_grow_trans [OF g] by (auto simp: conn_keeps_def)
  moreover have "input_ended (stream_in c')" using c'(2) by (simp add: conn_keeps_def snd_grow_def)
  ultimately show ?thesis by simp
qed

lemma conn_write_returns:
  assumes inv: "conn_inv isn k w s del c" and len: "length w + length d \<le> max_stream"
  shows "returns (TCPConnection_write c d) (\<lambda>(c', n).
    n = (if input_ended (stream_in c) then 0 else min (remaining_outbound_capacity c) (length d)) \<and>
    conn_inv isn k (w @ take n d) s del c' \<and> snd_grow w (conn_sender c) (w @ take n d) (conn_sender c'))"
proof (cases "input_ended (stream_in c)")
  case True
  then show ?thesis using inv by (simp add: TCPConnection_write_def)
next
  case False
  have part: "conn_part isn k w s del c" and sinv: "snd_inv w (conn_sender c)"
    using inv by (simp_all add: conn_inv_part conn_part_def)
  from snd_write_returns [OF sinv False len] obtain st n where
    st: "ByteStream_write (stream_in c) d = Inr (st, n)" "n = min (length d) (remaining_capacity (stream_in c))"
      "\<not> input_ended st" "snd_inv (w @ take n d) ((conn_sender c)\<lparr>snd_stream := st\<rparr>)" by (auto simp: returns_iff)
  let ?c = "c\<lparr>conn_sender := (conn_sender c)\<lparr>snd_stream := st\<rparr>\<rparr>"
  have g: "snd_grow w (conn_sender c) (w @ take n d) (conn_sender ?c)" using False by (simp add: snd_grow_def)
  from conn_fill_returns [OF conn_part_sender [OF part st(4)]] g obtain c' where
    c': "conn_connect ?c = Inr c'" "conn_keeps isn k (w @ take n d) s del ?c c'" by (auto simp: returns_iff)
  have "TCPConnection_write c d = Inr (c', n)"
    using c'(1) st(1,2) False by (auto simp: TCPConnection_write_def conn_connect_def Let_def rbind_Inr_iff min.commute)
  then show ?thesis
    using c'(2) snd_grow_trans [OF g] st(2) False by (auto simp: conn_keeps_def remaining_outbound_capacity_def min.commute)
qed

lemma conn_tick_returns:
  assumes inv: "conn_inv isn k w s del c"
  shows "returns (TCPConnection_tick c ms) (conn_keeps isn k w s del c)"
proof -
  have part: "conn_part isn k w s del c" and sinv: "snd_inv w (conn_sender c)"
    using inv by (simp_all add: conn_inv_part conn_part_def)
  from TCPSender_tick_returns [OF sinv, of ms] obtain sd where
    sd: "TCPSender_tick (conn_sender c) ms = Inr sd" "snd_inv w sd" "snd_grow w (conn_sender c) w sd"
    by (auto simp: returns_iff snd_grow_def split: if_splits)
  define c0 where "c0 = c\<lparr>conn_time_passed := u64_add (conn_time_passed c) ms\<rparr>"
  define c1 where "c1 = c0\<lparr>conn_sender := sd\<rparr>"
  define c2 where "c2 = (if MAX_RETX_ATTEMPTS < snd_consecutive_retransmissions sd
    then dirty_abort (send_rst (c1\<lparr>conn_sender := sd\<lparr>snd_segments_out := []\<rparr>\<rparr>)) else c1)"
  define c3 where "c3 = (if ByteStream_eof (stream_in c2) \<and> ByteStream_eof (inbound_stream c2) \<and> conn_linger c2 \<and>
    10 * unat (cfg_rt_timeout (conn_cfg c2)) \<le> conn_time_passed c2 then conn_abort c2 else c2)"
  have s0: "conn_sender c0 = conn_sender c" by (simp add: c0_def)
  have p0: "conn_part isn k w s del c0" using part by (simp add: c0_def)
  have p1: "conn_part isn k w s del c1" "conn_part isn k w s del (c1\<lparr>conn_sender := sd\<lparr>snd_segments_out := []\<rparr>\<rparr>)"
    using conn_part_sender [OF p0, of w] sd(2,3) snd_inv_drained [OF sd(2)]
    by (simp_all add: c0_def c1_def snd_grow_def)
  have "conn_part isn k w s del c2"
    using p1(1) dirty_abort_part send_rst_inv [OF p1(2)] by (simp add: c2_def conn_inv_part)
  then have p3: "conn_part isn k w s del c3" by (simp add: c3_def conn_abort_def)
  have "snd_grow w (conn_sender c) w (conn_sender (c1\<lparr>conn_sender := sd\<lparr>snd_segments_out := []\<rparr>\<rparr>))"
    using sd(3) by (simp add: snd_grow_def)
  from snd_grow_trans [OF this send_rst_grow] have "snd_grow w (conn_sender c) w (conn_sender c2)"
    using sd(3) by (simp add: c2_def c1_def)
  then have "snd_grow w (conn_sender c) w (conn_sender (send_segment_with_info c3))"
    by (simp add: c3_def conn_abort_def snd_grow_def)
  moreover have "TCPConnection_tick c ms = Inr (send_segment_with_info c3)"
    unfolding TCPConnection_tick_def Let_def c0_def [symmetric] unfolding s0 sd(1) rbind.simps
    unfolding c1_def [symmetric] unfolding c2_def [symmetric] unfolding c3_def [symmetric] by (rule refl)
  ultimately show ?thesis using send_segment_inv [OF p3] by (simp add: conn_keeps_def)
qed

lemma conn_destroy_inv: "conn_inv isn k w s del c \<Longrightarrow> conn_inv isn k w s del (conn_destroy c)"
  using send_rst_inv [of isn k w s del c] dirty_abort_part [of isn k w s del "send_rst c"]
  by (auto simp: conn_destroy_def conn_inv_part) (simp add: dirty_abort_def)

text \<open>The application reads from the inbound stream, as \<open>TCPSpongeSocket\<close> does: no more than is buffered.\<close>

definition conn_read :: "tcp_connection \<Rightarrow> size_t \<Rightarrow> (tcp_connection \<times> bytes) res" where
  "conn_read c n = rbind (ByteStream_read (inbound_stream c) (min n (buffer_size (inbound_stream c)))) (\<lambda>(out, ans).
     Inr (c\<lparr>conn_receiver := (conn_receiver c)\<lparr>rcv_reassembler := (rcv_reassembler (conn_receiver c))\<lparr>sr_output := out\<rparr>\<rparr>\<rparr>, ans))"

lemma conn_read_returns:
  assumes inv: "conn_inv isn k w s del c"
  shows "returns (conn_read c n) (\<lambda>(c', ans). conn_inv isn k w s (del @ ans) c' \<and> conn_sender c' = conn_sender c \<and>
    ans = take n (bs_contents (inbound_stream c)))"
proof -
  from inv obtain h where r: "rcv_inv s isn k h del (conn_receiver c)" by (auto simp: conn_inv_def)
  then have "bs_inv (inbound_stream c)" using sr_hist_bounds(5) [of s k h] by (auto simp: rcv_inv_def sr_inv_def)
  from ByteStream_read_returns [OF this, of "min n (buffer_size (inbound_stream c))"] obtain out ans where
    o: "ByteStream_read (inbound_stream c) (min n (buffer_size (inbound_stream c))) = Inr (out, ans)"
      "ans = take (min n (buffer_size (inbound_stream c))) (bs_contents (inbound_stream c))" by (auto simp: returns_iff)
  then have "ans = take n (bs_contents (inbound_stream c))" by (simp add: min_def)
  with rcv_read_inv [OF r o(1)] o(1) inv show ?thesis by (auto simp: conn_read_def conn_inv_def)
qed

lemma TCPConnection_inv:
  assumes "0 < cfg_send_capacity cfg" "cfg_send_capacity cfg \<le> max_string" "0 < cfg_recv_capacity cfg"
    and "length s + cfg_recv_capacity cfg \<le> max_string"
  shows "conn_inv isn (cfg_recv_capacity cfg) [] s [] (TCPConnection rnd cfg)"
  using TCPSender_inv [OF assms(1,2)] rcv_inv_init [OF assms(3,4), of isn]
  by (auto simp: conn_inv_def TCPConnection_def TCPSender_def)

section \<open>Opening a connection\<close>

text \<open>Filling the window when there is nothing to send but the SYN.\<close>

definition syn_segment :: "tcp_sender \<Rightarrow> TCPSegment" where
  "syn_segment s = \<lparr>seg_header = TCPHeader_default\<lparr>th_seqno := wrap 0 (snd_isn s), th_syn := True\<rparr>, seg_payload = Buffer []\<rparr>"

lemma fill_idle:
  assumes inv: "snd_inv w s" and empty: "buffer_size (snd_stream s) = 0" and open_in: "\<not> input_ended (snd_stream s)"
  shows "returns (fill_window s) (\<lambda>s'. snd_inv w s' \<and> snd_next_seqno s' = max 1 (snd_next_seqno s) \<and>
    snd_seqno_acked s' = snd_seqno_acked s \<and> snd_isn s' = snd_isn s \<and>
    snd_segments_out s' = snd_segments_out s @ (if snd_next_seqno s = 0 then [syn_segment s] else []) \<and>
    buffer_size (snd_stream s') = 0 \<and> \<not> input_ended (snd_stream s') \<and> bs_error (snd_stream s') = bs_error (snd_stream s))"
proof -
  have core: "snd_core w s" using inv by (simp add: snd_inv_def)
  have b: "seg_bytes s = 0" "\<not> seg_fin s" using seg_bytes_le(1) [of s] empty open_in by (auto simp: seg_fin_def)
  have n: "length_in_sequence_space (seg_assembled s) = of_bool (snd_next_seqno s = 0)"
    using b by (simp add: seg_assembled_length [OF core])
  have seg: "snd_next_seqno s = 0 \<Longrightarrow> seg_assembled s = syn_segment s"
    using b by (simp add: seg_assembled_def syn_segment_def TCPHeader_default_def)
  have loop: "\<exists>s'. fill_loop (window_right s) s = Some (Inr s') \<and> snd_next_seqno s' = max 1 (snd_next_seqno s) \<and>
      snd_segments_out s' = snd_segments_out s @ (if snd_next_seqno s = 0 then [syn_segment s] else []) \<and>
      buffer_size (snd_stream s') = 0"
  proof (cases "snd_next_seqno s < window_right s")
    case True
    from assemble_segment_returns [OF core True] obtain s1 m stream where
      a: "assemble_segment s (snd_next_seqno s) = Inr (s1, m)"
      and s1: "s1\<lparr>snd_next_seqno := m\<rparr> = seg_pushed s stream" "snd_stream s1 = stream"
      and st: "same_flags stream (snd_stream s)" "buffer_size stream = buffer_size (snd_stream s) - seg_bytes s"
      by (auto simp: returns_iff)
    have "fill_loop (window_right s) s = Some (Inr (seg_pushed s stream))"
      using True a s1 st(2) empty by (subst fill_loop.simps) (simp add: buffer_empty_iff)
    then show ?thesis using seg_pushed_fields [OF st(1)] st(2) empty seg n by auto
  next
    case False
    then show ?thesis using empty by (subst fill_loop.simps) auto
  qed
  have "unat (snd_window_size s) < 65536" by (rule unat_lt)
  then have "u64_add (snd_seqno_acked s) (max 1 (unat (snd_window_size s))) = window_right s"
    using snd_core_bounds(1,2) [OF core] by (intro u64_add_small) linarith
  then have "returns (fill_window s) (\<lambda>s'. snd_next_seqno s' = max 1 (snd_next_seqno s) \<and>
      snd_segments_out s' = snd_segments_out s @ (if snd_next_seqno s = 0 then [syn_segment s] else []) \<and>
      buffer_size (snd_stream s') = 0)"
    using loop by (auto simp: fill_window_def Let_def)
  from returns_conj [OF this fill_window_returns [OF inv]] show ?thesis
    by (rule returns_mono) (simp add: open_in)
qed

lemma rcv_syn:
  assumes "0 < k" and "k \<le> max_string" and "th_syn (seg_header seg)" and "\<not> th_fin (seg_header seg)"
    and "buf_str (seg_payload seg) = []"
  shows "TCPReceiver_segment_received (TCPReceiver k) seg =
    Inr ((TCPReceiver k)\<lparr>rcv_isn := th_seqno (seg_header seg), rcv_has_isn := True\<rparr>)"
proof -
  have "sr_hist [] k [] (StreamReassembler k, [])" using assms(1,2) by (intro sr_hist_init) simp_all
  from push_empty [OF this] show ?thesis
    using assms(3-5) by (simp add: TCPReceiver_segment_received_def TCPReceiver_def buf_copy_def Let_def)
qed

text \<open>A sender that has sent nothing but its SYN, and one whose SYN has been acknowledged.\<close>

definition syn_sent :: "WrappingInt32 \<Rightarrow> tcp_sender \<Rightarrow> bool" where
  "syn_sent isn s \<longleftrightarrow> snd_inv [] s \<and> snd_isn s = isn \<and> snd_next_seqno s = 1 \<and> snd_seqno_acked s = 0 \<and>
     snd_segments_out s = [] \<and> \<not> input_ended (snd_stream s) \<and> \<not> bs_error (snd_stream s)"

definition syn_acked :: "WrappingInt32 \<Rightarrow> tcp_sender \<Rightarrow> bool" where
  "syn_acked isn s \<longleftrightarrow> snd_inv [] s \<and> snd_isn s = isn \<and> snd_next_seqno s = 1 \<and> snd_seqno_acked s = 1 \<and>
     snd_segments_out s = [] \<and> \<not> input_ended (snd_stream s) \<and> \<not> bs_error (snd_stream s)"

lemma empty_stream: "snd_inv [] s \<Longrightarrow> buffer_size (snd_stream s) = 0"
  by (simp add: snd_inv_def snd_core_def)

lemma fill_fresh:
  assumes "0 < k" and "k \<le> max_string" and "s = TCPSender r k t i"
  shows "returns (fill_window s) (\<lambda>s'. snd_segments_out s' = [syn_segment s] \<and> syn_sent (snd_isn s) (s'\<lparr>snd_segments_out := []\<rparr>))"
proof -
  have inv: "snd_inv [] s" unfolding assms(3) using assms(1,2) by (rule TCPSender_inv)
  have f: "snd_next_seqno s = 0" "snd_seqno_acked s = 0" "snd_segments_out s = []" "\<not> bs_error (snd_stream s)"
    "\<not> input_ended (snd_stream s)"
    by (simp_all add: assms(3) TCPSender_def ByteStream_def input_ended_def)
  from fill_idle [OF inv empty_stream [OF inv] f(5)] show ?thesis
    by (rule returns_mono) (simp add: f syn_sent_def snd_inv_drained)
qed

lemma ack_syn:
  assumes s: "syn_sent isn s"
  shows "returns (fill_window (ack_received s (wrap 1 isn) win)) (syn_acked isn)"
proof -
  have f: "snd_inv [] s" "snd_core [] s" "snd_isn s = isn" "snd_next_seqno s = 1" "snd_seqno_acked s = 0"
    "snd_segments_out s = []" "\<not> input_ended (snd_stream s)" "\<not> bs_error (snd_stream s)"
    using s by (simp_all add: syn_sent_def snd_inv_def)
  have u: "unwrap (wrap 1 isn) isn 0 = 1" by (rule seq.dec_enc) (simp_all add: seq_dist_def)
  let ?t = "ack_received s (wrap 1 isn) win"
  have inv: "snd_inv [] ?t" using f(1) by (rule ack_received_inv)
  have t: "snd_next_seqno ?t = 1" "snd_seqno_acked ?t = 1" "snd_stream ?t = snd_stream s"
    "snd_segments_out ?t = []" "snd_isn ?t = isn"
    using f u by (simp_all add: ack_received_eq [OF f(2)] Let_def acked_to_def)
  from fill_idle [OF inv empty_stream [OF inv]] show ?thesis
    using t f by (auto simp: returns_iff syn_acked_def)
qed

text \<open>The receiver that has seen the SYN, and the states these senders and receivers make up.\<close>

definition syn_rcvd :: "WrappingInt32 \<Rightarrow> size_t \<Rightarrow> tcp_receiver" where
  "syn_rcvd isn k = (TCPReceiver k)\<lparr>rcv_isn := isn, rcv_has_isn := True\<rparr>"

lemma syn_rcvd_fields [simp]:
  "TCPReceiver_ackno (syn_rcvd isn k) = Some (wrap 1 isn)" "bs_error (stream_out (syn_rcvd isn k)) = False"
  "input_ended (stream_out (syn_rcvd isn k)) = False" "TCPReceiver_ackno (TCPReceiver k) = None"
  "bs_error (stream_out (TCPReceiver k)) = False" "rcv_has_isn (syn_rcvd isn k)"
  by (simp_all add: syn_rcvd_def TCPReceiver_def TCPReceiver_ackno_def StreamReassembler_def ByteStream_def input_ended_def)

lemma sender_summaries:
  assumes "snd_next_seqno s = 1" and "\<not> bs_error (snd_stream s)" and "\<not> input_ended (snd_stream s)"
  shows "snd_seqno_acked s = 0 \<Longrightarrow> sender_summary s = Sender_SYN_SENT"
    "snd_seqno_acked s = 1 \<Longrightarrow> sender_summary s = Sender_SYN_ACKED"
  using assms by (simp_all add: sender_summary_def bytes_in_flight_def ByteStream_eof_def)

lemma syn_rcvd_pure:
  assumes "0 < k" and "k \<le> max_string" and "seg_pure_ack seg"
  shows "TCPReceiver_segment_received (syn_rcvd isn k) seg = Inr (syn_rcvd isn k)"
proof (rule rcv_pure_ack_id [OF _ assms(3)])
  have "rcv_inv [] isn k [] [] (TCPReceiver k)" using assms(1,2) by (intro rcv_inv_init) simp_all
  then show "rcv_inv [] isn k [] [] (syn_rcvd isn k)" by (simp add: rcv_inv_def syn_rcvd_def)
qed

lemma wrap_1_minus: "wrap (Suc 0) isn \<noteq> WrappingInt32_minus (wrap (Suc 0) isn) 1"
  by (simp add: WrappingInt32_minus_def WrappingInt32_plus_def wrap_def)

definition cfg_ok :: "TCPConfig \<Rightarrow> bool" where
  "cfg_ok cfg \<longleftrightarrow> 0 < cfg_send_capacity cfg \<and> cfg_send_capacity cfg \<le> max_string \<and>
     0 < cfg_recv_capacity cfg \<and> cfg_recv_capacity cfg \<le> max_string"

lemma conn_connect_fresh:
  assumes "cfg_ok cfg" and c: "c = TCPConnection rnd cfg"
  shows "\<exists>c' s. conn_connect c = Inr c' \<and> conn_segments_out c' = [segment_with_info (conn_receiver c) (syn_segment (conn_sender c))] \<and>
    conn_receiver c' = TCPReceiver (cfg_recv_capacity cfg) \<and> conn_linger c' \<and>
    conn_sender c' = s \<and> syn_sent (snd_isn (conn_sender c)) s"
proof -
  have "0 < cfg_send_capacity cfg" "cfg_send_capacity cfg \<le> max_string" using assms(1) by (simp_all add: cfg_ok_def)
  from fill_fresh [OF this] obtain s' where s':
    "fill_window (conn_sender c) = Inr s'" "snd_segments_out s' = [syn_segment (conn_sender c)]"
    "syn_sent (snd_isn (conn_sender c)) (s'\<lparr>snd_segments_out := []\<rparr>)"
    by (fastforce simp: returns_iff c TCPConnection_def)
  then show ?thesis
    by (simp add: conn_connect_def send_segment_with_info_def) (simp add: c TCPConnection_def)
qed

lemma conn_accept:
  assumes "cfg_ok cfg" and c: "c = TCPConnection rnd cfg"
    and seg: "th_syn (seg_header seg)" "\<not> th_fin (seg_header seg)" "\<not> th_rst (seg_header seg)" "\<not> th_ack (seg_header seg)"
      "buf_str (seg_payload seg) = []"
  shows "\<exists>c' s. TCPConnection_segment_received c seg = Inr c' \<and>
    conn_receiver c' = syn_rcvd (th_seqno (seg_header seg)) (cfg_recv_capacity cfg) \<and>
    conn_segments_out c' = [segment_with_info (conn_receiver c') (syn_segment (conn_sender c))] \<and> conn_linger c' \<and>
    conn_sender c' = s \<and> syn_sent (snd_isn (conn_sender c)) s"
proof -
  have cap: "0 < cfg_send_capacity cfg" "cfg_send_capacity cfg \<le> max_string" "0 < cfg_recv_capacity cfg"
    "cfg_recv_capacity cfg \<le> max_string" using assms(1) by (simp_all add: cfg_ok_def)
  from fill_fresh [OF cap(1,2)] obtain s' where s':
    "fill_window (conn_sender c) = Inr s'" "snd_segments_out s' = [syn_segment (conn_sender c)]"
    "syn_sent (snd_isn (conn_sender c)) (s'\<lparr>snd_segments_out := []\<rparr>)"
    by (fastforce simp: returns_iff c TCPConnection_def)
  have r: "TCPReceiver_segment_received (conn_receiver c) seg = Inr (syn_rcvd (th_seqno (seg_header seg)) (cfg_recv_capacity cfg))"
    using rcv_syn [OF cap(3,4) seg(1,2,5)] by (simp add: c TCPConnection_def syn_rcvd_def)
  have len: "length_in_sequence_space seg = 1" using seg by (simp add: length_in_sequence_space_eq)
  have fields: "conn_segments_out c = []" "conn_linger c" by (simp_all add: c TCPConnection_def)
  show ?thesis
    using seg s' r len fields by (simp add: TCPConnection_segment_received_def Let_def send_segment_with_info_def)
qed

lemma conn_acked:
  assumes sd: "syn_sent isn (conn_sender c)" and seg: "th_ack (seg_header seg)" "th_ackno (seg_header seg) = wrap 1 isn"
      "\<not> th_fin (seg_header seg)" "\<not> th_rst (seg_header seg)" "buf_str (seg_payload seg) = []"
    and r: "TCPReceiver_segment_received (conn_receiver c) seg = Inr (syn_rcvd isn' k)"
    and sq: "th_syn (seg_header seg) \<or> th_seqno (seg_header seg) = wrap 1 isn'"
  shows "\<exists>c'. TCPConnection_segment_received c seg = Inr c' \<and> conn_receiver c' = syn_rcvd isn' k \<and>
    syn_acked isn (conn_sender c') \<and> conn_linger c' = conn_linger c \<and>
    conn_segments_out c' = conn_segments_out c @ (if th_syn (seg_header seg)
      then [segment_with_info (syn_rcvd isn' k) (TCPSegment_default\<lparr>seg_header := TCPHeader_default\<lparr>th_seqno := wrap 1 isn\<rparr>\<rparr>)] else [])"
proof -
  from ack_syn [OF sd] obtain s' where s':
    "fill_window (ack_received (conn_sender c) (wrap 1 isn) (th_win (seg_header seg))) = Inr s'" "syn_acked isn s'"
    by (auto simp: returns_iff)
  then have f: "snd_segments_out s' = []" "snd_next_seqno s' = 1" "snd_isn s' = isn" by (simp_all add: syn_acked_def)
  have len: "length_in_sequence_space seg = of_bool (th_syn (seg_header seg))"
    using seg by (simp add: length_in_sequence_space_eq)
  have acked: "syn_acked isn (s'\<lparr>snd_segments_out := []\<rparr>)" using s'(2) f(1) by (simp add: syn_acked_def snd_inv_drained)
  show ?thesis
  proof (cases "th_syn (seg_header seg)")
    case True
    then show ?thesis
      using seg s'(1) f r len acked
      by (simp add: TCPConnection_segment_received_def Let_def send_segment_with_info_def send_empty_segment_def)
  next
    case False
    then show ?thesis
      using seg s'(1) f r len acked sq wrap_1_minus [of isn']
      by (simp add: TCPConnection_segment_received_def Let_def send_segment_with_info_def)
  qed
qed

lemma conn_states:
  "syn_sent isn (conn_sender c) \<Longrightarrow> conn_linger c \<Longrightarrow> conn_receiver c = TCPReceiver k \<Longrightarrow> conn_state c = TCPState_of SYN_SENT"
  "syn_sent isn (conn_sender c) \<Longrightarrow> conn_linger c \<Longrightarrow> conn_receiver c = syn_rcvd isn' k \<Longrightarrow> conn_state c = TCPState_of SYN_RCVD"
  "syn_acked isn (conn_sender c) \<Longrightarrow> conn_linger c \<Longrightarrow> conn_receiver c = syn_rcvd isn' k \<Longrightarrow> conn_state c = TCPState_of ESTABLISHED"
  using sender_summaries [of "conn_sender c"]
  by (simp_all add: conn_state_def TCPState_def conn_active_def syn_sent_def syn_acked_def receiver_summary_def)

lemma aborted_state: "conn_state (dirty_abort c) = TCPState_of RESET \<and> \<not> conn_active (dirty_abort c)"
  by (simp add: conn_state_def TCPState_def dirty_abort_def receiver_set_error_def conn_active_def
      sender_summary_def receiver_summary_def)

lemma send_segment_idle: "snd_segments_out (conn_sender c) = [] \<Longrightarrow> send_segment_with_info c = c"
  by (simp add: send_segment_with_info_def)

text \<open>Up to eight expiries in a row with nothing acknowledged.\<close>

lemma conn_backoff_run:
  assumes "conn_inv isn k w s del c" and "snd_buffer (conn_sender c) \<noteq> []" and "snd_window_size (conn_sender c) \<noteq> 0"
    and "rt_time_waited (snd_timer (conn_sender c)) = 0" and "snd_consecutive_retransmissions (conn_sender c) = 0"
    and "\<not> bs_error (stream_in c)" and "rto = rt_rto (snd_timer (conn_sender c))" and "rto * 2 ^ n < U64" and "n \<le> 8"
  shows "returns (rfold TCPConnection_tick c (map (\<lambda>j. rto * 2 ^ j) [0..<n])) (\<lambda>c'. conn_inv isn k w s del c' \<and>
    snd_buffer (conn_sender c') = snd_buffer (conn_sender c) \<and> snd_window_size (conn_sender c') = snd_window_size (conn_sender c) \<and>
    rt_time_waited (snd_timer (conn_sender c')) = 0 \<and> snd_consecutive_retransmissions (conn_sender c') = of_nat n \<and>
    \<not> bs_error (stream_in c') \<and> rt_rto (snd_timer (conn_sender c')) = rto * 2 ^ n)"
  (is "returns (rfold _ _ (map ?ms _)) (?P n)")
  using assms(8,9)
proof (induction n)
  case 0
  then show ?case using assms by simp
next
  case (Suc n)
  then have lt: "rto * 2 ^ n < U64" and n: "n \<le> 8" "n < 8" by simp_all
  have step: "returns (TCPConnection_tick c1 (?ms n)) (?P (Suc n))" if P: "?P n c1" for c1
  proof -
    have inv: "conn_inv isn k w s del c1" and sinv: "snd_inv w (conn_sender c1)" using P by (simp_all add: conn_inv_def)
    have "u64_mul (?ms n) 2 = ?ms n * 2" using Suc.prems(1) by (intro u64_mul_small) simp
    then obtain sd where sd: "TCPSender_tick (conn_sender c1) (?ms n) = Inr sd" "snd_buffer sd = snd_buffer (conn_sender c)"
      "snd_window_size sd = snd_window_size (conn_sender c)" "rt_time_waited (snd_timer sd) = 0"
      "snd_consecutive_retransmissions sd = of_nat (Suc n)" "snd_stream sd = stream_in c1" "rt_rto (snd_timer sd) = rto * 2 ^ Suc n"
      using TCPSender_tick_returns [OF sinv, of "?ms n"] P assms(2,3) lt
      by (auto simp: returns_iff rt_twice_def)
    have "unat (of_nat (Suc n) :: 32 word) \<le> Suc n" by (simp only: unat_of_nat mod_less_eq_dividend)
    then have "unat (of_nat (Suc n) :: 32 word) \<le> 8" using n(2) by linarith
    then have "\<not> MAX_RETX_ATTEMPTS < snd_consecutive_retransmissions sd"
      by (simp add: sd(5) MAX_RETX_ATTEMPTS_def word_less_nat_alt del: of_nat_Suc)
    then show ?thesis
      using sd P conn_tick_returns [OF inv, of "?ms n"]
      by (simp add: returns_iff conn_keeps_def TCPConnection_tick_def Let_def conn_abort_def send_segment_with_info_def)
  qed
  have "rfold TCPConnection_tick c (map ?ms [0..<Suc n]) =
      rbind (rfold TCPConnection_tick c (map ?ms [0..<n])) (\<lambda>c1. TCPConnection_tick c1 (?ms n))"
    by (simp add: rfold_append rbind_unit)
  then show ?case using returns_bind [OF Suc.IH [OF lt n(1)] step] by simp
qed

section \<open>Properties\<close>

text \<open>C7: The three-way handshake. A client that connects sends one SYN and is in SYN_SENT. A server that
  receives it answers with one SYN/ACK and is in SYN_RCVD. The client that receives that answers
  with one ACK, and both ends are then in ESTABLISHED. This holds for all initial sequence
  numbers and all capacities.\<close>

theorem three_way_handshake:
  assumes "cfg_ok cfga" and "cfg_ok cfgb" and "a = TCPConnection rnda cfga" and "b = TCPConnection rndb cfgb"
  shows "\<exists>a1 syn b1 synack a2 ack b2.
    conn_connect a = Inr a1 \<and> conn_segments_out a1 = [syn] \<and> conn_state a1 = TCPState_of SYN_SENT \<and>
    TCPConnection_segment_received b syn = Inr b1 \<and> conn_segments_out b1 = [synack] \<and> conn_state b1 = TCPState_of SYN_RCVD \<and>
    TCPConnection_segment_received a1 synack = Inr a2 \<and> conn_segments_out a2 = [syn, ack] \<and> conn_state a2 = TCPState_of ESTABLISHED \<and>
    TCPConnection_segment_received b1 ack = Inr b2 \<and> conn_segments_out b2 = [synack] \<and> conn_state b2 = TCPState_of ESTABLISHED"
proof -
  let ?ia = "snd_isn (conn_sender a)" and ?ib = "snd_isn (conn_sender b)"
  let ?ka = "cfg_recv_capacity cfga" and ?kb = "cfg_recv_capacity cfgb"
  have cap: "0 < ?ka" "?ka \<le> max_string" "0 < ?kb" "?kb \<le> max_string" using assms(1,2) by (simp_all add: cfg_ok_def)
  define syn where "syn = segment_with_info (conn_receiver a) (syn_segment (conn_sender a))"
  from conn_connect_fresh [OF assms(1,3)] obtain a1 where a1:
    "conn_connect a = Inr a1" "conn_segments_out a1 = [syn]" "conn_receiver a1 = TCPReceiver ?ka" "conn_linger a1"
    "syn_sent ?ia (conn_sender a1)" by (auto simp: syn_def)
  have "conn_receiver a = TCPReceiver ?ka" by (simp add: assms(3) TCPConnection_def)
  then have syn: "th_syn (seg_header syn)" "\<not> th_fin (seg_header syn)" "\<not> th_rst (seg_header syn)" "\<not> th_ack (seg_header syn)"
    "buf_str (seg_payload syn) = []" "th_seqno (seg_header syn) = ?ia"
    by (simp_all add: syn_def syn_segment_def) (simp_all add: segment_with_info_def Let_def TCPHeader_default_def)
  define synack where "synack = segment_with_info (syn_rcvd ?ia ?kb) (syn_segment (conn_sender b))"
  from conn_accept [OF assms(2,4) syn(1-5)] obtain b1 where b1:
    "TCPConnection_segment_received b syn = Inr b1" "conn_segments_out b1 = [synack]" "conn_receiver b1 = syn_rcvd ?ia ?kb"
    "conn_linger b1" "syn_sent ?ib (conn_sender b1)" by (auto simp: synack_def syn(6))
  have sa: "th_syn (seg_header synack)" "\<not> th_fin (seg_header synack)" "\<not> th_rst (seg_header synack)"
    "buf_str (seg_payload synack) = []" "th_seqno (seg_header synack) = ?ib" "th_ack (seg_header synack)"
    "th_ackno (seg_header synack) = wrap 1 ?ia"
    by (simp_all add: synack_def syn_segment_def) (simp_all add: segment_with_info_def Let_def TCPHeader_default_def)
  have r1: "TCPReceiver_segment_received (conn_receiver a1) synack = Inr (syn_rcvd ?ib ?ka)"
    using rcv_syn [OF cap(1,2) sa(1,2,4)] a1(3) by (simp add: sa(5) syn_rcvd_def)
  define ack where "ack = segment_with_info (syn_rcvd ?ib ?ka) (TCPSegment_default\<lparr>seg_header := TCPHeader_default\<lparr>th_seqno := wrap 1 ?ia\<rparr>\<rparr>)"
  from conn_acked [OF a1(5) sa(6,7,2,3,4) r1] sa(1) a1(2,4) obtain a2 where a2:
    "TCPConnection_segment_received a1 synack = Inr a2" "conn_segments_out a2 = [syn, ack]" "conn_receiver a2 = syn_rcvd ?ib ?ka"
    "conn_linger a2" "syn_acked ?ia (conn_sender a2)" by (auto simp: ack_def)
  have ak: "\<not> th_syn (seg_header ack)" "\<not> th_fin (seg_header ack)" "\<not> th_rst (seg_header ack)"
    "buf_str (seg_payload ack) = []" "th_seqno (seg_header ack) = wrap 1 ?ia" "th_ack (seg_header ack)"
    "th_ackno (seg_header ack) = wrap 1 ?ib"
    by (simp_all add: ack_def TCPSegment_default_def) (simp_all add: segment_with_info_def Let_def TCPHeader_default_def)
  have r2: "TCPReceiver_segment_received (conn_receiver b1) ack = Inr (syn_rcvd ?ia ?kb)"
    unfolding b1(3) using cap(3,4) ak by (intro syn_rcvd_pure) (simp_all add: seg_pure_ack_def)
  from conn_acked [OF b1(5) ak(6,7,2,3,4) r2] ak(1,5) b1(2,4) obtain b2 where b2:
    "TCPConnection_segment_received b1 ack = Inr b2" "conn_segments_out b2 = [synack]" "conn_receiver b2 = syn_rcvd ?ia ?kb"
    "conn_linger b2" "syn_acked ?ib (conn_sender b2)" by auto
  show ?thesis
    using a1 b1 a2 b2 conn_states(1) [OF a1(5,4,3)] conn_states(2) [OF b1(5,4,3)]
      conn_states(3) [OF a2(5,4,3)] conn_states(3) [OF b2(5,4,3)] by blast
qed

theorem three_way_handshake_witness:
  "\<exists>a1 syn b1 synack a2 ack b2. conn_connect (TCPConnection 5 TCPConfig_default) = Inr a1 \<and> conn_segments_out a1 = [syn] \<and>
     TCPConnection_segment_received (TCPConnection 9 TCPConfig_default) syn = Inr b1 \<and> conn_segments_out b1 = [synack] \<and>
     TCPConnection_segment_received a1 synack = Inr a2 \<and> conn_segments_out a2 = [syn, ack] \<and> conn_state a2 = TCPState_of ESTABLISHED \<and>
     TCPConnection_segment_received b1 ack = Inr b2 \<and> conn_state b2 = TCPState_of ESTABLISHED"
proof -
  have "cfg_ok TCPConfig_default" by (simp add: cfg_ok_def TCPConfig_default_def DEFAULT_CAPACITY_def)
  from three_way_handshake [OF this this refl refl, of 5 9] show ?thesis by blast
qed

text \<open>C17: A connection gives up after more than eight retransmissions in a row: the tick that counts the ninth
  sends exactly one segment, a RST, in place of whatever the sender had queued, and leaves the
  connection inactive in state RESET. A tick that does not reach that count does not reset it: it
  passes on what the sender queued, at most one segment and no RST, and marks no stream as failed.\<close>

theorem connection_gives_up:
  assumes "conn_inv isn k w s del c" and "TCPSender_tick (conn_sender c) ms = Inr sd"
    and "\<not> bs_error (stream_in c)"
  shows "returns (TCPConnection_tick c ms) (\<lambda>c'.
    if 8 < unat (snd_consecutive_retransmissions sd)
    then conn_state c' = TCPState_of RESET \<and> \<not> conn_active c' \<and>
      (\<exists>rst. conn_segments_out c' = conn_segments_out c @ [rst] \<and> th_rst (seg_header rst) \<and> seg_pure_ack rst)
    else \<not> bs_error (stream_in c') \<and> inbound_stream c' = inbound_stream c \<and>
      conn_segments_out c' = conn_segments_out c @ map (segment_with_info (conn_receiver c)) (snd_segments_out sd) \<and>
      length (snd_segments_out sd) \<le> 1 \<and> (\<forall>seg \<in> set (snd_segments_out sd). \<not> th_rst (seg_header seg)))"
proof -
  have inv: "snd_inv w (conn_sender c)" and out: "snd_segments_out (conn_sender c) = []"
    using assms(1) by (simp_all add: conn_inv_def)
  have "\<not> th_rst (seg_header (snd (hd (snd_buffer (conn_sender c)))))" if "snd_buffer (conn_sender c) \<noteq> []"
    using inv that by (cases "snd_buffer (conn_sender c)") (auto simp: snd_inv_def snd_core_def seg_at_def)
  then have sd: "snd_stream sd = stream_in c" "length (snd_segments_out sd) \<le> 1"
    "\<forall>seg \<in> set (snd_segments_out sd). \<not> th_rst (seg_header seg)"
    using TCPSender_tick_returns [OF inv, of ms] assms(2) out by (auto split: if_splits)
  have max: "MAX_RETX_ATTEMPTS < snd_consecutive_retransmissions sd \<longleftrightarrow> 8 < unat (snd_consecutive_retransmissions sd)"
    by (simp add: MAX_RETX_ATTEMPTS_def word_less_nat_alt)
  show ?thesis
  proof (cases "8 < unat (snd_consecutive_retransmissions sd)")
    case True
    let ?c = "c\<lparr>conn_time_passed := u64_add (conn_time_passed c) ms, conn_sender := sd\<lparr>snd_segments_out := []\<rparr>\<rparr>"
    let ?a = "dirty_abort (send_rst ?c)"
    have a: "snd_segments_out (conn_sender ?a) = []" "\<not> conn_linger ?a"
      by (simp_all add: dirty_abort_def send_rst_def Let_def)
    have "\<exists>rst. conn_segments_out ?a = conn_segments_out c @ [rst] \<and> th_rst (seg_header rst) \<and> seg_pure_ack rst"
      by (simp add: dirty_abort_def send_rst_def Let_def send_empty_segment_def send_segment_with_info_def
          seg_pure_ack_def TCPSegment_default_def)
    moreover have "TCPConnection_tick c ms = Inr (send_segment_with_info ?a)"
      using assms(2) True max a(2) by (simp add: TCPConnection_tick_def Let_def)
    moreover have "send_segment_with_info ?a = ?a" using a(1) by (rule send_segment_idle)
    ultimately show ?thesis using True aborted_state [of "send_rst ?c"] by simp
  next
    case False
    then show ?thesis
      using assms(2,3) max sd by (simp add: TCPConnection_tick_def Let_def conn_abort_def send_segment_with_info_def)
  qed
qed

theorem connection_gives_up_witness:
  "\<exists>c c0 c8 c9. conn_connect (TCPConnection 5 TCPConfig_default) = Inr c \<and>
     TCPConnection_tick c 1000 = Inr c0 \<and> \<not> bs_error (stream_in c0) \<and>
     rfold TCPConnection_tick c (map (\<lambda>j. 1000 * 2 ^ j) [0..<8]) = Inr c8 \<and> \<not> bs_error (stream_in c8) \<and>
     TCPConnection_tick c8 256000 = Inr c9 \<and> conn_state c9 = TCPState_of RESET"
proof -
  let ?n = "TCPConnection 5 TCPConfig_default"
  have inv: "conn_inv (WrappingInt32 0) (cfg_recv_capacity TCPConfig_default) [] [] [] ?n"
    by (rule TCPConnection_inv) (simp_all add: TCPConfig_default_def DEFAULT_CAPACITY_def)
  then have sinv: "snd_inv [] (conn_sender ?n)" by (simp add: conn_inv_def)
  from conn_connect_returns [OF inv] obtain c where c: "conn_connect ?n = Inr c"
    "conn_inv (WrappingInt32 0) (cfg_recv_capacity TCPConfig_default) [] [] [] c" unfolding returns_iff conn_keeps_def by blast
  obtain s1 where s1: "fill_window (conn_sender ?n) = Inr s1" using fill_window_returns [OF sinv] unfolding returns_iff by blast
  have cs: "conn_sender c = s1\<lparr>snd_segments_out := []\<rparr>"
    using c(1) s1 by (auto simp: conn_connect_def send_segment_with_info_def)
  have n: "snd_window_size (conn_sender ?n) = 1" "snd_seqno_acked (conn_sender ?n) = 0" "snd_timer (conn_sender ?n) = RetransmissionTimer 1000"
    "snd_consecutive_retransmissions (conn_sender ?n) = 0" "\<not> bs_error (snd_stream (conn_sender ?n))"
    "snd_buffer (conn_sender ?n) = []"
    by (simp_all add: TCPConnection_def TCPSender_def TCPConfig_default_def TIMEOUT_DFLT_def ByteStream_def)
  from fill_window_returns [OF sinv] have f: "snd_window_size (conn_sender c) = 1" "0 < snd_next_seqno (conn_sender c)"
    "snd_seqno_acked (conn_sender c) = 0" "snd_consecutive_retransmissions (conn_sender c) = 0" "\<not> bs_error (stream_in c)"
    "snd_buffer (conn_sender c) \<noteq> [] \<longrightarrow> snd_timer (conn_sender c) = rt_start (rt_reset (RetransmissionTimer 1000))"
    unfolding s1 cs using n by (simp_all add: filled_def)
  have csinv: "snd_inv [] (conn_sender c)" using c(2) by (simp add: conn_inv_def)
  then have b: "snd_buffer (conn_sender c) \<noteq> []" using snd_buffer_empty_iff [of "[]" "conn_sender c"] f by (simp add: snd_inv_def)
  with f have t: "rt_time_waited (snd_timer (conn_sender c)) = 0" "1000 = rt_rto (snd_timer (conn_sender c))"
    by (simp_all add: RetransmissionTimer_def)
  obtain sd where sd: "TCPSender_tick (conn_sender c) 1000 = Inr sd" "snd_consecutive_retransmissions sd = 1"
    using TCPSender_tick_returns [OF csinv, of 1000] b t f by (auto simp: returns_iff)
  obtain c0 where c0: "TCPConnection_tick c 1000 = Inr c0" "\<not> bs_error (stream_in c0)"
    using connection_gives_up [OF c(2) sd(1) f(5)] sd(2) by (auto simp: returns_iff)
  from conn_backoff_run [OF c(2) b _ t(1) f(4,5) t(2), of 8] f(1) obtain c8 where c8:
    "rfold TCPConnection_tick c (map (\<lambda>j. 1000 * 2 ^ j) [0..<8]) = Inr c8"
    "conn_inv (WrappingInt32 0) (cfg_recv_capacity TCPConfig_default) [] [] [] c8" "\<not> bs_error (stream_in c8)"
    "snd_buffer (conn_sender c8) \<noteq> []" "snd_window_size (conn_sender c8) = 1" "rt_time_waited (snd_timer (conn_sender c8)) = 0"
    "snd_consecutive_retransmissions (conn_sender c8) = 8" "rt_rto (snd_timer (conn_sender c8)) = 256000"
    using b by (auto simp: returns_iff)
  have "snd_inv [] (conn_sender c8)" using c8(2) by (simp add: conn_inv_def)
  from TCPSender_tick_returns [OF this, of 256000] c8 obtain s9 where
    "TCPSender_tick (conn_sender c8) 256000 = Inr s9" "snd_consecutive_retransmissions s9 = 9" by (auto simp: returns_iff)
  with connection_gives_up [OF c8(2) _ c8(3)] have "returns (TCPConnection_tick c8 256000) (\<lambda>c9. conn_state c9 = TCPState_of RESET)"
    by (fastforce elim: returns_mono)
  with c(1) c0 c8(1,3) show ?thesis by (auto simp: returns_iff)
qed

text \<open>A RST from the peer ends the connection at once: both streams are marked as failed, nothing is sent,
  and the connection is inactive in state RESET whatever it was doing.\<close>

theorem connection_reset:
  assumes "th_rst (seg_header seg)"
  shows "returns (TCPConnection_segment_received c seg) (\<lambda>c'. conn_state c' = TCPState_of RESET \<and> \<not> conn_active c' \<and>
    conn_segments_out c' = conn_segments_out c \<and> bs_error (stream_in c') \<and> bs_error (inbound_stream c'))"
  using assms by (simp add: TCPConnection_segment_received_def aborted_state) (simp add: dirty_abort_def receiver_set_error_def)

theorem connection_reset_witness:
  "\<exists>c'. TCPConnection_segment_received (TCPConnection 5 TCPConfig_default)
     (TCPSegment_default\<lparr>seg_header := TCPHeader_default\<lparr>th_rst := True\<rparr>\<rparr>) = Inr c' \<and> conn_state c' = TCPState_of RESET"
  using connection_reset [of "TCPSegment_default\<lparr>seg_header := TCPHeader_default\<lparr>th_rst := True\<rparr>\<rparr>" "TCPConnection 5 TCPConfig_default"]
  by (auto simp: returns_iff)

text \<open>C18: TIME_WAIT. When both streams have ended without an error, everything sent is acknowledged and the
  connection lingers, a tick closes it exactly when ten times the initial timeout has passed
  since the last segment; until then it stays active.\<close>

theorem connection_time_wait:
  assumes "conn_inv isn k w s del c" and "ByteStream_eof (stream_in c)" and "ByteStream_eof (inbound_stream c)"
    and "bytes_in_flight (conn_sender c) = 0" and "conn_linger c"
    and "snd_consecutive_retransmissions (conn_sender c) \<le> MAX_RETX_ATTEMPTS"
    and "conn_time_passed c + ms < U64"
  shows "returns (TCPConnection_tick c ms) (\<lambda>c'.
    conn_active c' \<longleftrightarrow> conn_time_passed c + ms < 10 * unat (cfg_rt_timeout (conn_cfg c)))"
proof -
  have inv: "snd_inv w (conn_sender c)" and core: "snd_core w (conn_sender c)" using assms(1) by (simp_all add: conn_inv_def snd_inv_def)
  have "snd_seqno_acked (conn_sender c) = snd_next_seqno (conn_sender c)"
    using assms(4) snd_core_bounds(2) [OF core] by (simp add: bytes_in_flight_def)
  then have "snd_buffer (conn_sender c) = []" by (simp add: snd_buffer_empty_iff [OF core])
  then have t: "TCPSender_tick (conn_sender c) ms = Inr ((conn_sender c)\<lparr>snd_timer := rt_tick (snd_timer (conn_sender c)) ms\<rparr>)"
    using TCPSender_tick_returns [OF inv, of ms] by (auto simp: returns_iff)
  have "bytes_in_flight ((conn_sender c)\<lparr>snd_timer := x, snd_segments_out := []\<rparr>) = 0" for x
    using assms(4) by (simp add: bytes_in_flight_def)
  moreover have few: "(MAX_RETX_ATTEMPTS < snd_consecutive_retransmissions (conn_sender c)) = False" using assms(6) by simp
  ultimately show ?thesis
    using t assms(2,3,5,7) by (simp add: few TCPConnection_tick_def Let_def conn_abort_def conn_active_def send_segment_with_info_def not_less)
qed

theorem connection_time_wait_witness:
  "\<exists>c c'. conn_state c = TCPState_of TIME_WAIT \<and> TCPConnection_tick c 10000 = Inr c' \<and> \<not> conn_active c'"
proof -
  define sd where "sd = (TCPSender 5 4 1000 None)\<lparr>snd_stream := end_input (ByteStream 4), snd_next_seqno := 2,
    snd_seqno_acked := 2, snd_sent_fin := True\<rparr>"
  define rc where "rc = (TCPReceiver 4)\<lparr>rcv_has_isn := True, rcv_has_fin := True, rcv_sent_fin := True, rcv_ackno := 2,
    rcv_reassembler := (StreamReassembler 4)\<lparr>sr_eof := True, sr_eof_num := 0, sr_output := end_input (ByteStream 4)\<rparr>\<rparr>"
  define c where "c = (TCPConnection 5 TCPConfig_default)\<lparr>conn_sender := sd, conn_receiver := rc\<rparr>"
  note D = TCPSender_def TCPReceiver_def StreamReassembler_def ByteStream_def RingBuffer_def end_input_def input_ended_def
    ByteStream_eof_def bytes_written_def buffer_size_def
  have size0: "buffer_size (ByteStream 4) = 0" by (simp add: D)
  have "bs_inv (end_input (ByteStream 4))" using ByteStream_inv [of 4] by simp
  then have "snd_inv [] sd"
    by (simp add: sd_def snd_inv_def snd_core_def snd_taken_def size0) (simp add: TCPSender_def RetransmissionTimer_def)
  moreover have "sr_hist [] 4 [] (StreamReassembler 4, [])" by (rule sr_hist_init) simp_all
  then have "rcv_inv [] (WrappingInt32 0) 4 [Push 0 [] True] [] rc"
    by (simp add: rc_def rcv_inv_def sr_hist_def sr_inv_def sr_upper_def size0) (simp add: D)
  ultimately have inv: "conn_inv (WrappingInt32 0) 4 [] [] [] c"
    by (auto simp: conn_inv_def c_def) (simp_all add: sd_def TCPSender_def TCPConnection_def)
  have f: "ByteStream_eof (stream_in c)" "ByteStream_eof (inbound_stream c)" "bytes_in_flight (conn_sender c) = 0"
    "conn_linger c" "snd_consecutive_retransmissions (conn_sender c) \<le> MAX_RETX_ATTEMPTS"
    "conn_time_passed c + 10000 < U64" "cfg_rt_timeout (conn_cfg c) = 1000"
    by (simp_all add: c_def sd_def rc_def D TCPConnection_def TCPConfig_default_def TIMEOUT_DFLT_def bytes_in_flight_def)
  have "conn_state c = TCPState_of TIME_WAIT"
    using f(1-4) by (simp add: conn_state_def TCPState_def sender_summary_def receiver_summary_def conn_active_def)
      (simp add: c_def sd_def rc_def D TCPReceiver_ackno_def)
  with connection_time_wait [OF inv f(1-6)] show ?thesis
    using f(7) by (auto simp: returns_iff c_def TCPConnection_def)
qed

text \<open>C19: \<open>write\<close> accepts what fits into the outbound stream, returns how much that was, and sends as much as the
  window allows; after \<open>end_input_stream\<close> it accepts nothing and changes nothing, unlike the byte
  stream below it.\<close>

theorem connection_write_correct:
  assumes "conn_inv isn k w s del c" and "length w + length d \<le> max_stream"
  shows "returns (TCPConnection_write c d) (\<lambda>(c', n).
    (input_ended (stream_in c) \<longrightarrow> c' = c \<and> n = 0) \<and>
    (\<not> input_ended (stream_in c) \<longrightarrow> n = min (remaining_outbound_capacity c) (length d)) \<and>
    conn_inv isn k (w @ take n d) s del c')"
proof -
  have "TCPConnection_write c d = Inr (c, 0)" if "input_ended (stream_in c)" using that by (simp add: TCPConnection_write_def)
  with conn_write_returns [OF assms] show ?thesis by (auto simp: returns_iff)
qed

theorem connection_write_correct_witness:
  "\<exists>c'. TCPConnection_write (TCPConnection 5 TCPConfig_default) [1, 2] = Inr (c', 2)"
proof -
  have inv: "conn_inv (WrappingInt32 0) (cfg_recv_capacity TCPConfig_default) [] [] [] (TCPConnection 5 TCPConfig_default)"
    by (rule TCPConnection_inv) (simp_all add: TCPConfig_default_def DEFAULT_CAPACITY_def)
  have "remaining_outbound_capacity (TCPConnection 5 TCPConfig_default) = 64000" "\<not> input_ended (stream_in (TCPConnection 5 TCPConfig_default))"
    by (simp_all add: remaining_outbound_capacity_def TCPConnection_def TCPConfig_default_def DEFAULT_CAPACITY_def
        TCPSender_def ByteStream_def remaining_capacity_def RingBuffer_def rb_remaining_capacity_def input_ended_def)
  with connection_write_correct [OF inv, of "[1, 2]"] show ?thesis by (auto simp: returns_iff)
qed

text \<open>C21: The window a connection advertises is its receive capacity modulo 2^16: the conversion to the header's
  16-bit field drops the upper bits. A connection configured with a capacity of 65536 bytes
  announces a window of 0.\<close>

theorem connection_window_truncated:
  assumes "cfg_ok cfg"
  shows "returns (conn_connect (TCPConnection rnd cfg)) (\<lambda>c. \<exists>syn. conn_segments_out c = [syn] \<and>
    unat (th_win (seg_header syn)) = cfg_recv_capacity cfg mod 65536)"
proof -
  let ?c = "TCPConnection rnd cfg"
  have "window_size (conn_receiver ?c) = cfg_recv_capacity cfg"
    by (simp add: TCPConnection_def TCPReceiver_def window_size_def StreamReassembler_def ByteStream_def buffer_size_def RingBuffer_def)
  then have "unat (th_win (seg_header (segment_with_info (conn_receiver ?c) seg))) = cfg_recv_capacity cfg mod 65536" for seg
    by (simp add: segment_with_info_def Let_def unat_of_nat)
  then show ?thesis using conn_connect_fresh [OF assms refl, of rnd] by (auto simp: returns_iff)
qed

theorem connection_window_truncated_witness:
  "\<exists>c syn. conn_connect (TCPConnection 5 (TCPConfig_default\<lparr>cfg_recv_capacity := 65536\<rparr>)) = Inr c \<and>
     conn_segments_out c = [syn] \<and> th_win (seg_header syn) = 0"
proof -
  have "cfg_ok (TCPConfig_default\<lparr>cfg_recv_capacity := 65536\<rparr>)" by (simp add: cfg_ok_def TCPConfig_default_def DEFAULT_CAPACITY_def)
  from connection_window_truncated [OF this, of 5] show ?thesis by (auto simp: returns_iff unat_eq_0)
qed

end
