(* ===== verification/TCP_Transfer.thy ===== *)
theory TCP_Transfer
  imports TCP_Connection
begin

text \<open>
  TCP end to end: two connections and the network between them, and a sender and a receiver.

  The network may lose, duplicate, delay and reorder segments: \<open>NDeliver b i\<close> hands the \<open>i\<close>th segment that
  one end has ever sent to the other end, any number of times and in any order. The operations
  of the two ends are interleaved arbitrarily. The invariant \<open>net_inv\<close> says that each end keeps its
  \<open>conn_inv\<close> for every stream that the other end's application may still make of what it has written so
  far. Each application writes fewer than 2^31 - 3 bytes, so that a segment that was delayed for
  however long is not taken for one of the next round of sequence numbers.
\<close>

section \<open>Two connections and a network\<close>

record tcp_host =
  h_conn :: tcp_connection
  h_written :: bytes
  h_read :: bytes

record tcp_net =
  n_host :: "bool \<Rightarrow> tcp_host"
  n_sent :: "bool \<Rightarrow> TCPSegment list"

datatype net_op =
    NConnect bool
  | NWrite bool bytes
  | NEnd bool
  | NRead bool size_t
  | NTick bool size_t
  | NSend bool
  | NDeliver bool nat

definition net_init :: "(bool \<Rightarrow> u32) \<Rightarrow> (bool \<Rightarrow> TCPConfig) \<Rightarrow> tcp_net" where
  "net_init rnd cfg = \<lparr>n_host = (\<lambda>b. \<lparr>h_conn = TCPConnection (rnd b) (cfg b), h_written = [], h_read = []\<rparr>), n_sent = (\<lambda>b. [])\<rparr>"

definition upd_host :: "tcp_net \<Rightarrow> bool \<Rightarrow> tcp_connection \<Rightarrow> bytes \<Rightarrow> bytes \<Rightarrow> tcp_net" where
  "upd_host N b c w del = N\<lparr>n_host := (n_host N)(b := \<lparr>h_conn = c, h_written = w, h_read = del\<rparr>)\<rparr>"

abbreviation upd_conn :: "tcp_net \<Rightarrow> bool \<Rightarrow> tcp_connection \<Rightarrow> tcp_net" where
  "upd_conn N b c \<equiv> upd_host N b c (h_written (n_host N b)) (h_read (n_host N b))"

fun net_step :: "tcp_net \<Rightarrow> net_op \<Rightarrow> tcp_net res" where
  "net_step N (NConnect b) = rbind (conn_connect (h_conn (n_host N b))) (\<lambda>c. Inr (upd_conn N b c))"
| "net_step N (NWrite b d) = rbind (TCPConnection_write (h_conn (n_host N b)) d) (\<lambda>(c, n).
     Inr (upd_host N b c (h_written (n_host N b) @ take n d) (h_read (n_host N b))))"
| "net_step N (NEnd b) = rbind (end_input_stream (h_conn (n_host N b))) (\<lambda>c. Inr (upd_conn N b c))"
| "net_step N (NRead b n) = rbind (conn_read (h_conn (n_host N b)) n) (\<lambda>(c, ans).
     Inr (upd_host N b c (h_written (n_host N b)) (h_read (n_host N b) @ ans)))"
| "net_step N (NTick b ms) = rbind (TCPConnection_tick (h_conn (n_host N b)) ms) (\<lambda>c. Inr (upd_conn N b c))"
| "net_step N (NSend b) =
     (let c = h_conn (n_host N b)
      in Inr ((upd_conn N b (c\<lparr>conn_segments_out := []\<rparr>))\<lparr>n_sent := (n_sent N)(b := n_sent N b @ conn_segments_out c)\<rparr>))"
| "net_step N (NDeliver b i) =
     (if i < length (n_sent N (\<not> b))
      then rbind (TCPConnection_segment_received (h_conn (n_host N b)) (n_sent N (\<not> b) ! i)) (\<lambda>c. Inr (upd_conn N b c))
      else Inr N)"

fun write_len :: "bool \<Rightarrow> net_op \<Rightarrow> nat" where
  "write_len b (NWrite b' d) = (if b = b' then length d else 0)"
| "write_len b _ = 0"

definition net_ok :: "net_op list \<Rightarrow> bool" where
  "net_ok ops \<longleftrightarrow> sum_list (map (write_len True) ops) < max_transfer \<and> sum_list (map (write_len False) ops) < max_transfer"

definition net_cfg_ok :: "TCPConfig \<Rightarrow> bool" where
  "net_cfg_ok cfg \<longleftrightarrow> cfg_ok cfg \<and> cfg_recv_capacity cfg \<le> max_stream"

section \<open>The invariant\<close>

abbreviation conn_of :: "tcp_net \<Rightarrow> bool \<Rightarrow> tcp_connection" where
  "conn_of N b \<equiv> h_conn (n_host N b)"

text \<open>The streams that an application may still make of what it has written.\<close>

definition may_become :: "tcp_net \<Rightarrow> bool \<Rightarrow> bytes set" where
  "may_become N b = {h_written (n_host N b) @ d |d. (input_ended (stream_in (conn_of N b)) \<longrightarrow> d = []) \<and>
     length (h_written (n_host N b) @ d) \<le> max_transfer}"

definition net_inv :: "(bool \<Rightarrow> WrappingInt32) \<Rightarrow> (bool \<Rightarrow> size_t) \<Rightarrow> net_op list \<Rightarrow> tcp_net \<Rightarrow> bool" where
  "net_inv isn k h N \<longleftrightarrow> (\<forall>b. snd_isn (conn_sender (conn_of N b)) = isn b \<and>
     length (h_written (n_host N b)) \<le> sum_list (map (write_len b) h) \<and>
     (\<forall>s \<in> may_become N (\<not> b). conn_inv (isn (\<not> b)) (k b) (h_written (n_host N b)) s (h_read (n_host N b)) (conn_of N b)) \<and>
     (\<forall>seg \<in> set (n_sent N b). sent_ok (h_written (n_host N b)) (isn b) (snd_sent_fin (conn_sender (conn_of N b))) seg))"

lemma may_become_self:
  assumes "length (h_written (n_host N b)) \<le> max_transfer"
  shows "h_written (n_host N b) \<in> may_become N b"
  using assms by (auto simp: may_become_def intro: exI [where x = "[]"])

lemma net_ok_len: "net_ok h \<Longrightarrow> sum_list (map (write_len b) h) < max_transfer"
  by (cases b) (simp_all add: net_ok_def)

lemma net_inv_len: "net_inv isn k h N \<Longrightarrow> net_ok h \<Longrightarrow> length (h_written (n_host N b)) < max_transfer"
  using net_ok_len [of h b] unfolding net_inv_def by (meson le_less_trans)

lemma may_become_grow:
  assumes "snd_grow (h_written (n_host N b)) (conn_sender (conn_of N b)) w' (conn_sender c')"
    and "s \<in> may_become (upd_host N b c' w' del) b"
  shows "s \<in> may_become N b"
proof -
  from assms(1) obtain e where e: "w' = h_written (n_host N b) @ e" "e \<noteq> [] \<longrightarrow> \<not> input_ended (stream_in (conn_of N b))"
    "input_ended (stream_in (conn_of N b)) \<longrightarrow> input_ended (stream_in c')" by (auto simp: snd_grow_def)
  from assms(2) obtain d where "s = h_written (n_host N b) @ e @ d" "input_ended (stream_in c') \<longrightarrow> d = []" "length s \<le> max_transfer"
    by (auto simp: may_become_def upd_host_def e(1))
  then show ?thesis using e(2,3) by (auto simp: may_become_def)
qed

lemma upd_host_fields [simp]:
  "n_host (upd_host N b c w del) b = \<lparr>h_conn = c, h_written = w, h_read = del\<rparr>"
  "b' \<noteq> b \<Longrightarrow> n_host (upd_host N b c w del) b' = n_host N b'" "n_sent (upd_host N b c w del) = n_sent N"
  by (simp_all add: upd_host_def)

text \<open>A step of one end: its own invariant has to be kept for every stream of the peer; the other end's
  follows, since the streams that may still come have only become fewer.\<close>

lemma net_local:
  assumes N: "net_inv isn k h N"
    and inv: "\<And>s. s \<in> may_become N (\<not> b) \<Longrightarrow> conn_inv (isn (\<not> b)) (k b) w' s del' c'"
    and grow: "snd_grow (h_written (n_host N b)) (conn_sender (conn_of N b)) w' (conn_sender c')"
    and len: "length w' \<le> length (h_written (n_host N b)) + write_len b op" and op: "write_len (\<not> b) op = 0"
    and ok: "length (h_written (n_host N (\<not> b))) \<le> max_transfer"
  shows "net_inv isn k (h @ [op]) (upd_host N b c' w' del')"
  unfolding net_inv_def
proof (intro allI)
  fix b'
  have old: "conn_inv (isn (\<not> b)) (k b) (h_written (n_host N b)) (h_written (n_host N (\<not> b))) (h_read (n_host N b)) (conn_of N b)"
    using N may_become_self [OF ok] unfolding net_inv_def by blast
  then have sinv: "snd_inv (h_written (n_host N b)) (conn_sender (conn_of N b))" by (simp add: conn_inv_def)
  let ?N = "upd_host N b c' w' del'"
  show "snd_isn (conn_sender (conn_of ?N b')) = isn b' \<and>
     length (h_written (n_host ?N b')) \<le> sum_list (map (write_len b') (h @ [op])) \<and>
     (\<forall>s \<in> may_become ?N (\<not> b'). conn_inv (isn (\<not> b')) (k b') (h_written (n_host ?N b')) s (h_read (n_host ?N b')) (conn_of ?N b')) \<and>
     (\<forall>seg \<in> set (n_sent ?N b'). sent_ok (h_written (n_host ?N b')) (isn b') (snd_sent_fin (conn_sender (conn_of ?N b'))) seg)"
  proof (cases "b' = b")
    case True
    have "may_become ?N (\<not> b) = may_become N (\<not> b)" by (simp add: may_become_def)
    moreover have "length (h_written (n_host N b)) \<le> sum_list (map (write_len b) h)" "snd_isn (conn_sender (conn_of N b)) = isn b"
      "\<forall>seg \<in> set (n_sent N b). sent_ok (h_written (n_host N b)) (isn b) (snd_sent_fin (conn_sender (conn_of N b))) seg"
      using N by (simp_all add: net_inv_def)
    ultimately show ?thesis
      using True inv grow len sent_ok_grow [OF sinv grow] by (auto simp: snd_grow_def)
  next
    case False
    then have b': "(\<not> b') = b" and host: "n_host ?N b' = n_host N b'" and z: "write_len b' op = 0"
      using op by (auto simp: upd_host_def)
    have "\<forall>s \<in> may_become ?N (\<not> b'). s \<in> may_become N (\<not> b')" using may_become_grow [OF grow] unfolding b' by blast
    then show ?thesis
      using spec [OF N [unfolded net_inv_def], of b'] z unfolding host by auto
  qed
qed

text \<open>The operations that move neither the stream written nor the stream read.\<close>

lemma net_local_op:
  assumes N: "net_inv isn k h N" and len: "length (h_written (n_host N (\<not> b))) \<le> max_transfer"
    and m: "\<And>s. s \<in> may_become N (\<not> b) \<Longrightarrow>
      returns m (conn_keeps (isn (\<not> b)) (k b) (h_written (n_host N b)) s (h_read (n_host N b)) (conn_of N b))"
    and op: "write_len b op = 0" "write_len (\<not> b) op = 0"
  shows "returns (rbind m (\<lambda>c. Inr (upd_conn N b c))) (net_inv isn k (h @ [op]))"
proof -
  from m [OF may_become_self [OF len]] obtain c' where c': "m = Inr c'"
    "snd_grow (h_written (n_host N b)) (conn_sender (conn_of N b)) (h_written (n_host N b)) (conn_sender c')"
    by (auto simp: returns_iff conn_keeps_def)
  then have "conn_inv (isn (\<not> b)) (k b) (h_written (n_host N b)) s (h_read (n_host N b)) c'"
    if "s \<in> may_become N (\<not> b)" for s using m [OF that] by (simp add: conn_keeps_def)
  then have "net_inv isn k (h @ [op]) (upd_conn N b c')"
    using c'(2) op len by (intro net_local [OF N]) simp_all
  then show ?thesis using c'(1) by simp
qed

lemma net_send:
  assumes N: "net_inv isn k h N" and ok: "length (h_written (n_host N (\<not> b))) \<le> max_transfer"
  shows "returns (net_step N (NSend b)) (net_inv isn k (h @ [NSend b]))"
proof -
  let ?c = "conn_of N b" and ?w = "h_written (n_host N b)" and ?del = "h_read (n_host N b)"
  define N1 where "N1 = upd_conn N b (?c\<lparr>conn_segments_out := []\<rparr>)"
  define N2 where "N2 = N1\<lparr>n_sent := (n_sent N)(b := n_sent N b @ conn_segments_out ?c)\<rparr>"
  have inv: "conn_inv (isn (\<not> b)) (k b) ?w s ?del ?c" if "s \<in> may_become N (\<not> b)" for s
    using N that by (simp add: net_inv_def)
  have I: "net_inv isn k (h @ [NSend b]) N1"
    unfolding N1_def using inv ok by (intro net_local [OF N]) (simp_all add: conn_inv_def)
  have queued: "\<forall>seg \<in> set (conn_segments_out ?c). sent_ok ?w (isn b) (snd_sent_fin (conn_sender ?c)) seg"
    using inv [OF may_become_self [OF ok]] N by (simp add: conn_inv_def net_inv_def)
  have may: "may_become N2 b' = may_become N1 b'" for b' by (simp add: may_become_def N2_def)
  have host: "n_host N2 = n_host N1" by (simp add: N2_def)
  have "\<forall>seg \<in> set (n_sent N2 b'). sent_ok (h_written (n_host N1 b')) (isn b') (snd_sent_fin (conn_sender (conn_of N1 b'))) seg" for b'
    using queued spec [OF I [unfolded net_inv_def], of b'] by (auto simp: N2_def N1_def)
  then have "net_inv isn k (h @ [NSend b]) N2" using I unfolding net_inv_def may host by blast
  then show ?thesis by (simp add: N2_def N1_def Let_def)
qed

lemma net_deliver:
  assumes N: "net_inv isn k h N" and len: "\<And>b. length (h_written (n_host N b)) \<le> max_transfer"
    and i: "i < length (n_sent N (\<not> b))"
  shows "returns (rbind (TCPConnection_segment_received (conn_of N b) (n_sent N (\<not> b) ! i)) (\<lambda>c. Inr (upd_conn N b c)))
    (net_inv isn k (h @ [NDeliver b i]))"
proof (rule net_local_op [OF N len])
  fix s assume s: "s \<in> may_become N (\<not> b)"
  let ?seg = "n_sent N (\<not> b) ! i" and ?c = "conn_of N (\<not> b)" and ?w = "h_written (n_host N (\<not> b))"
  have ok: "sent_ok ?w (isn (\<not> b)) (snd_sent_fin (conn_sender ?c)) ?seg"
    using N i by (simp add: net_inv_def)
  have "conn_inv (isn b) (k (\<not> b)) ?w (h_written (n_host N b)) (h_read (n_host N (\<not> b))) ?c"
    using spec [OF N [unfolded net_inv_def], of "\<not> b"] may_become_self [OF len] by simp
  then have "snd_sent_fin (conn_sender ?c) \<longrightarrow> input_ended (stream_in ?c)" by (simp add: conn_inv_def snd_inv_def snd_core_def)
  then have seg: "peer_seg s (isn (\<not> b)) ?seg" "length s \<le> max_transfer"
    using s sent_ok_peer [OF ok] by (auto simp: may_become_def)
  have "conn_inv (isn (\<not> b)) (k b) (h_written (n_host N b)) s (h_read (n_host N b)) (conn_of N b)"
    using N s by (simp add: net_inv_def)
  from conn_segment_returns [OF this] seg
  show "returns (TCPConnection_segment_received (conn_of N b) ?seg)
      (conn_keeps (isn (\<not> b)) (k b) (h_written (n_host N b)) s (h_read (n_host N b)) (conn_of N b))" by blast
qed simp_all

lemma net_step_law:
  assumes N: "net_inv isn k h N" and okh: "net_ok (h @ [op])"
  shows "returns (net_step N op) (net_inv isn k (h @ [op]))"
proof -
  have ok: "net_ok h" using okh by (auto simp: net_ok_def)
  have len: "length (h_written (n_host N b)) \<le> max_transfer" for b using net_inv_len [OF N ok, of b] by simp
  have inv: "conn_inv (isn (\<not> b)) (k b) (h_written (n_host N b)) s (h_read (n_host N b)) (conn_of N b)"
    if "s \<in> may_become N (\<not> b)" for s b using N that by (simp add: net_inv_def)
  note self = inv [OF may_become_self [OF len]]
  show ?thesis
  proof (cases op)
    case (NConnect b)
    show ?thesis unfolding NConnect net_step.simps
      by (rule net_local_op [OF N len]) (auto intro: conn_connect_returns inv)
  next
    case (NEnd b)
    show ?thesis unfolding NEnd net_step.simps
      by (rule net_local_op [OF N len]) (auto intro: returns_mono [OF conn_end_returns] inv)
  next
    case (NTick b ms)
    show ?thesis unfolding NTick net_step.simps
      by (rule net_local_op [OF N len]) (auto intro: conn_tick_returns inv)
  next
    case (NWrite b d)
    have d: "length (h_written (n_host N b)) + length d \<le> max_stream"
      using len [of b] net_ok_len [OF okh, of b] NWrite by simp
    from conn_write_returns [OF self d] obtain c' n where c': "TCPConnection_write (conn_of N b) d = Inr (c', n)"
      "snd_grow (h_written (n_host N b)) (conn_sender (conn_of N b)) (h_written (n_host N b) @ take n d) (conn_sender c')"
      by (auto simp: returns_iff)
    have "conn_inv (isn (\<not> b)) (k b) (h_written (n_host N b) @ take n d) s (h_read (n_host N b)) c'"
      if "s \<in> may_become N (\<not> b)" for s
      using conn_write_returns [OF inv [OF that] d] unfolding c'(1) returns.simps prod.case by (elim conjE)
    then have "net_inv isn k (h @ [op]) (upd_host N b c' (h_written (n_host N b) @ take n d) (h_read (n_host N b)))"
      using c'(2) len by (intro net_local [OF N]) (simp_all add: NWrite)
    then show ?thesis using c' NWrite by simp
  next
    case (NRead b n)
    from conn_read_returns [OF self, of b n] obtain c' ans where c': "conn_read (conn_of N b) n = Inr (c', ans)"
      "conn_sender c' = conn_sender (conn_of N b)" by (auto simp: returns_iff)
    have "conn_inv (isn (\<not> b)) (k b) (h_written (n_host N b)) s (h_read (n_host N b) @ ans) c'"
      if "s \<in> may_become N (\<not> b)" for s
      using conn_read_returns [OF inv [OF that], of n] unfolding c'(1) returns.simps prod.case by (elim conjE)
    then have "net_inv isn k (h @ [op]) (upd_host N b c' (h_written (n_host N b)) (h_read (n_host N b) @ ans))"
      using c'(2) len by (intro net_local [OF N]) (simp_all add: NRead)
    then show ?thesis using c' NRead by simp
  next
    case (NSend b)
    then show ?thesis using net_send [OF N len] by simp
  next
    case (NDeliver b i)
    then show ?thesis
      using net_deliver [OF N len, of i b] N by (cases "i < length (n_sent N (\<not> b))") (simp_all add: net_inv_def)
  qed
qed

interpretation net: history_invariant net_step "net_inv isn k" net_ok for isn k
  by unfold_locales (auto intro: net_step_law simp: net_ok_def)

lemma net_init_inv:
  assumes "\<And>b. net_cfg_ok (cfg b)" and N: "N = net_init rnd cfg"
  shows "net_inv (\<lambda>b. snd_isn (conn_sender (conn_of N b))) (\<lambda>b. cfg_recv_capacity (cfg b)) [] N"
proof -
  have "conn_inv isn (cfg_recv_capacity (cfg b)) [] s [] (TCPConnection (rnd b) (cfg b))" if "length s \<le> max_transfer" for isn s b
    using assms(1) [of b] that by (intro TCPConnection_inv) (simp_all add: net_cfg_ok_def cfg_ok_def)
  then show ?thesis by (auto simp: net_inv_def N net_init_def may_become_def)
qed

section \<open>A sender and a receiver\<close>

lemma seg_carries_unique:
  assumes "seg_carries w isn i seg" and "seg_carries w isn j seg" and "length w \<le> max_transfer"
  shows "i = j"
proof (cases "th_syn (seg_header seg)")
  case False
  then have "wrap (i + 1) isn = wrap (j + 1) isn" "i \<le> length w" "j \<le> length w" using assms by (auto simp: seg_carries_def)
  then have "i + 1 = j + 1" using assms(3) by (intro seq.enc_inj_near) (auto simp: seq_dist_def)
  then show ?thesis by simp
qed (use assms in \<open>auto simp: seg_carries_def\<close>)

text \<open>A receiver that has seen the SYN takes in every segment it is given.\<close>

definition took :: "bytes \<Rightarrow> WrappingInt32 \<Rightarrow> reassembler_op list \<Rightarrow> TCPSegment \<Rightarrow> bool" where
  "took w isn h seg \<longleftrightarrow> (\<forall>idx. seg_carries w isn idx seg \<longrightarrow>
     {idx..<idx + length (buf_str (seg_payload seg))} \<subseteq> pushed h \<and> (th_fin (seg_header seg) \<longrightarrow> eof_seen h))"

lemma took_append: "took w isn h seg \<Longrightarrow> took w isn (h @ h') seg"
  by (auto simp: took_def eof_seen_append)

lemma rcv_takes:
  assumes inv: "rcv_inv w isn k h del r" and seg: "peer_seg w isn seg" and len: "length w \<le> max_transfer"
    and syn: "rcv_has_isn r \<or> th_syn (seg_header seg)"
  shows "returns (TCPReceiver_segment_received r seg) (\<lambda>r'. rcv_has_isn r' \<and>
    (\<exists>h'. rcv_inv w isn k (h @ h') del r' \<and> took w isn (h @ h') seg))"
proof (cases "seg_pure_ack seg")
  case True
  then have "took w isn (h @ []) seg" by (auto simp: took_def seg_pure_ack_def)
  then show ?thesis using rcv_pure_ack_id [OF inv True] inv syn True by (auto simp: seg_pure_ack_def intro!: exI [where x = "[]"])
next
  case False
  then obtain idx where c: "seg_carries w isn idx seg" using seg by (auto simp: peer_seg_def)
  have "sr_next (rcv_reassembler r) \<le> length w" using inv sr_hist_bounds(1) by (auto simp: rcv_inv_def)
  moreover have "idx \<le> length w" using c by (simp add: seg_carries_def)
  ultimately have near: "seq_dist (idx + 1) (rcv_ackno r) < 2 ^ 31"
    using inv len by (auto simp: rcv_inv_def seq_dist_def)
  let ?p = "[Push idx (buf_str (seg_payload seg)) (th_fin (seg_header seg))]"
  from rcv_segment_returns [OF inv c near syn] obtain r' where
    r': "TCPReceiver_segment_received r seg = Inr r'" "rcv_inv w isn k (h @ ?p) del r'" by (auto simp: returns_iff)
  have "took w isn (h @ ?p) seg"
    using seg_carries_unique [OF c _ len] by (auto simp: took_def eof_seen_append)
  moreover have "rcv_has_isn r'" using rcv_has_isn_kept [OF r'(1)] syn by simp
  ultimately show ?thesis using r' by auto
qed

lemma rcv_takes_all:
  assumes "rcv_inv w isn k h del r" and "\<forall>seg \<in> set segs. peer_seg w isn seg" and len: "length w \<le> max_transfer"
    and "rcv_has_isn r"
  shows "returns (rfold TCPReceiver_segment_received r segs) (\<lambda>r'. rcv_has_isn r' \<and>
    (\<exists>h'. rcv_inv w isn k (h @ h') del r' \<and> (\<forall>seg \<in> set segs. took w isn (h @ h') seg)))"
  using assms(1,2,4)
proof (induction segs arbitrary: h r)
  case Nil
  then show ?case by (auto intro!: exI [where x = "[]"])
next
  case (Cons seg segs)
  from rcv_takes [OF Cons.prems(1) _ len, of seg] Cons.prems(2,3) obtain r1 h1 where
    r1: "TCPReceiver_segment_received r seg = Inr r1" "rcv_has_isn r1" "rcv_inv w isn k (h @ h1) del r1" "took w isn (h @ h1) seg"
    by (auto simp: returns_iff)
  from Cons.IH [OF r1(3) _ r1(2)] Cons.prems(2) obtain r2 h2 where
    "rfold TCPReceiver_segment_received r1 segs = Inr r2" "rcv_has_isn r2" "rcv_inv w isn k ((h @ h1) @ h2) del r2"
    "\<forall>seg \<in> set segs. took w isn ((h @ h1) @ h2) seg" by (auto simp: returns_iff)
  then show ?case using r1(1) took_append [OF r1(4), of h2] by (auto intro!: exI [where x = "h1 @ h2"])
qed

text \<open>What a sender that has sent its FIN covers is the whole stream.\<close>

lemma covers_took:
  assumes cov: "covers segs w isn fin (length w + 2)" and took: "\<forall>seg \<in> segs. took w isn h seg"
  shows "{..<length w} \<subseteq> pushed h \<and> eof_seen h"
proof
  have bound: "length (buf_str (seg_payload seg)) \<le> max_string" if "seg_at w isn fin start seg" for start seg
    using that by (simp add: seg_at_def MAX_PAYLOAD_SIZE_def)
  show "{..<length w} \<subseteq> pushed h"
  proof
    fix i assume "i \<in> {..<length w}"
    then have i: "i < length w" by simp
    then obtain start seg where seg: "seg \<in> segs" "seg_at w isn fin start seg" "start \<le> i + 1"
      "i + 1 < start + length_in_sequence_space seg" using cov unfolding covers_def by (metis add_less_cancel_right add.commute less_Suc_eq add_2_eq_Suc' Suc_eq_plus1 less_SucI)
    have c: "seg_carries w isn (start - 1) seg" "th_syn (seg_header seg) \<longleftrightarrow> start = 0" using seg(2) by (simp_all add: seg_at_def)
    have "i \<in> {start - 1..<start - 1 + length (buf_str (seg_payload seg))}"
      using seg(3,4) c i unfolding length_in_sequence_space_eq [OF bound [OF seg(2)]]
      by (auto simp: seg_carries_def split: if_splits)
    then show "i \<in> pushed h" using took seg(1) c(1) unfolding took_def by blast
  qed
  obtain start seg where seg: "seg \<in> segs" "seg_at w isn fin start seg" "start \<le> length w + 1"
    "length w + 1 < start + length_in_sequence_space seg" using cov unfolding covers_def by (metis lessI add_2_eq_Suc' Suc_eq_plus1)
  have c: "seg_carries w isn (start - 1) seg" "th_syn (seg_header seg) \<longleftrightarrow> start = 0" using seg(2) by (simp_all add: seg_at_def)
  have "th_fin (seg_header seg)"
    using seg(4) c unfolding length_in_sequence_space_eq [OF bound [OF seg(2)]]
    by (auto simp: seg_carries_def split: if_splits)
  then show "eof_seen h" using took seg(1) c(1) by (auto simp: took_def)
qed

section \<open>Properties\<close>

text \<open>C1: TCP end to end. Two connections exchange segments over a network that loses, duplicates, delays and
  reorders them, while both applications write, read, close and let time pass in any order.
  Nothing ever throws or loops, and on each side the bytes read and the bytes waiting to be read
  are a prefix of what the other application has written; when one side sees the end of its
  inbound stream, the other application has ended its stream and all of it has arrived.\<close>

theorem tcp_end_to_end:
  assumes "net_cfg_ok (cfg True)" and "net_cfg_ok (cfg False)" and "net_ok ops"
  shows "returns (rfold net_step (net_init rnd cfg) ops) (\<lambda>N. \<forall>b.
    \<exists>rest. h_written (n_host N (\<not> b)) = h_read (n_host N b) @ bs_contents (inbound_stream (conn_of N b)) @ rest \<and>
      (input_ended (inbound_stream (conn_of N b)) \<longrightarrow> rest = [] \<and> input_ended (stream_in (conn_of N (\<not> b)))))"
proof -
  have cfg: "net_cfg_ok (cfg b)" for b using assms(1,2) by (cases b) simp_all
  let ?isn = "\<lambda>b. snd_isn (conn_sender (conn_of (net_init rnd cfg) b))" and ?k = "\<lambda>b. cfg_recv_capacity (cfg b)"
  have "returns (rfold net_step (net_init rnd cfg) ops) (net_inv ?isn ?k ops)"
    using net_init_inv [OF cfg refl] assms(3) by (rule net.run)
  then show ?thesis
  proof (rule returns_mono, intro allI)
    fix N b assume N: "net_inv ?isn ?k ops N"
    let ?got = "h_read (n_host N b) @ bs_contents (inbound_stream (conn_of N b))" and ?w = "h_written (n_host N (\<not> b))"
    have len: "length ?w < max_transfer" using net_inv_len [OF N assms(3)] .
    have got: "\<exists>n. ?got = take n s \<and> (input_ended (inbound_stream (conn_of N b)) \<longrightarrow> ?got = s)"
      if "s \<in> may_become N (\<not> b)" for s
    proof -
      have "conn_inv (?isn (\<not> b)) (?k b) (h_written (n_host N b)) s (h_read (n_host N b)) (conn_of N b)"
        using N that by (simp add: net_inv_def)
      then obtain h where "sr_hist s (?k b) h (rcv_reassembler (conn_receiver (conn_of N b)), h_read (n_host N b))"
        by (auto simp: conn_inv_def rcv_inv_def)
      then show ?thesis using sr_hist_stream [of s] sr_hist_bounds(6) [of s] by (fastforce simp: input_ended_def)
    qed
    have "?w \<in> may_become N (\<not> b)" using len by (intro may_become_self) simp
    from got [OF this] obtain n where n: "?got = take n ?w" "input_ended (inbound_stream (conn_of N b)) \<longrightarrow> ?got = ?w" by blast
    have "input_ended (stream_in (conn_of N (\<not> b)))" if e: "input_ended (inbound_stream (conn_of N b))"
    proof (rule ccontr)
      assume "\<not> ?thesis"
      then have "?w @ [0] \<in> may_become N (\<not> b)" using len unfolding may_become_def by fastforce
      from got [OF this] e n(2) show False by auto
    qed
    then show "\<exists>rest. ?w = h_read (n_host N b) @ bs_contents (inbound_stream (conn_of N b)) @ rest \<and>
        (input_ended (inbound_stream (conn_of N b)) \<longrightarrow> rest = [] \<and> input_ended (stream_in (conn_of N (\<not> b))))"
      using n by (intro exI [where x = "drop n ?w"]) (metis append.assoc append_Nil2 append_take_drop_id same_append_eq)
  qed
qed

theorem tcp_end_to_end_witness:
  "\<exists>N rest. rfold net_step (net_init (\<lambda>_. 5) (\<lambda>_. TCPConfig_default))
       [NConnect True, NWrite True [1, 2], NSend True, NDeliver False 0, NSend False, NDeliver True 0] = Inr N \<and>
     h_written (n_host N True) = h_read (n_host N False) @ bs_contents (inbound_stream (conn_of N False)) @ rest"
proof -
  have "net_cfg_ok TCPConfig_default" by (simp add: net_cfg_ok_def cfg_ok_def TCPConfig_default_def DEFAULT_CAPACITY_def)
  moreover have "net_ok [NConnect True, NWrite True [1, 2], NSend True, NDeliver False 0, NSend False, NDeliver True 0]"
    by (simp add: net_ok_def)
  ultimately show ?thesis
    using tcp_end_to_end [of "\<lambda>_. TCPConfig_default" _ "\<lambda>_. 5"] unfolding returns_iff by (metis (full_types))
qed

text \<open>C5: A transfer completes. When a sender has sent everything including its FIN, and a receiver with room for
  the stream gets all the segments it has sent, in any order and any number of times as long as
  the SYN comes first, then the receiver holds exactly the stream and its end, and its
  acknowledgment, given back to the sender, leaves nothing in flight.\<close>

theorem transfer_complete:
  assumes "0 < k" and "k \<le> max_string" and "snd_ok ops" and "snd_run (TCPSender r k t i) ops = Inr x"
    and "s = sw_sender x" and "w = sw_written x" and "snd_sent_fin s"
    and "length w \<le> max_transfer" and "length w \<le> kr" and "0 < kr" and "kr \<le> max_stream"
    and "set (syn # segs) = set (sw_sent x @ snd_segments_out s)" and "th_syn (seg_header syn)"
  shows "returns (rfold TCPReceiver_segment_received (TCPReceiver kr) (syn # segs)) (\<lambda>rc.
    bs_contents (stream_out rc) = w \<and> input_ended (stream_out rc) \<and>
    (\<exists>ackno. TCPReceiver_ackno rc = Some ackno \<and> bytes_in_flight (ack_received s ackno win) = 0))"
proof -
  let ?isn = "snd_isn s"
  have isn: "snd_isn (TCPSender r k t i) = ?isn" and H: "snd_hist ?isn ops x"
    using snd_run_hist [OF assms(1-3) refl, of r t i] assms(4,5) by (auto simp: snd_hist_def)
  have inv: "snd_inv w s" and core: "snd_core w s" using H assms(5,6) by (auto simp: snd_hist_def snd_inv_def)
  have next_no: "snd_next_seqno s = length w + 2"
    using core assms(7) unfolding snd_core_def by auto
  have "\<forall>seg \<in> set (syn # segs). sent_ok w ?isn (snd_sent_fin s) seg"
    unfolding assms(12) using H core assms(5,6) by (auto simp: snd_hist_def snd_core_def)
  then have peer: "\<forall>seg \<in> set (syn # segs). peer_seg w ?isn seg"
    using sent_ok_peer [of w ?isn _ _ "[]"] by (metis append_Nil2)
  have "rcv_inv w ?isn kr [] [] (TCPReceiver kr)" using assms(8,10,11) by (intro rcv_inv_init) simp_all
  from rcv_takes [OF this _ assms(8), of syn] peer assms(13) obtain r1 h1 where
    r1: "TCPReceiver_segment_received (TCPReceiver kr) syn = Inr r1" "rcv_has_isn r1" "rcv_inv w ?isn kr h1 [] r1" "took w ?isn h1 syn"
    by (auto simp: returns_iff)
  from rcv_takes_all [OF r1(3) _ assms(8) r1(2), of segs] peer obtain rc h2 where
    rc: "rfold TCPReceiver_segment_received r1 segs = Inr rc" "rcv_has_isn rc" "rcv_inv w ?isn kr (h1 @ h2) [] rc"
      "\<forall>seg \<in> set segs. took w ?isn (h1 @ h2) seg" by (auto simp: returns_iff)
  have all: "\<forall>seg \<in> set (syn # segs). took w ?isn (h1 @ h2) seg" using rc(4) took_append [OF r1(4)] by simp
  have "covers (set (syn # segs)) w ?isn (snd_sent_fin s) (length w + 2)"
    unfolding assms(12) using H next_no assms(5,6) by (simp add: snd_hist_def)
  from covers_took [OF this all] have cov: "{..<length w} \<subseteq> pushed (h1 @ h2)" "eof_seen (h1 @ h2)" by blast+
  have hist: "sr_hist w kr (h1 @ h2) (rcv_reassembler rc, [])" using rc(3) by (simp add: rcv_inv_def)
  then have "{..<sr_next (rcv_reassembler rc)} \<union> cov (sr_data (rcv_reassembler rc)) = pushed (h1 @ h2)"
    "sr_next (rcv_reassembler rc) \<le> length w" "cov (sr_data (rcv_reassembler rc)) \<subseteq> {..<length w}"
    using assms(9) by (simp_all add: sr_hist_def)
  then have "pushed (h1 @ h2) \<subseteq> {..<length w}" by (metis Un_least lessThan_subset_iff)
  with cov sr_hist_complete [OF hist assms(9)] have done_all: "sr_next (rcv_reassembler rc) = length w" "input_ended (stream_out rc)"
    by (auto simp: input_ended_def)
  have "bs_contents (stream_out rc) = w" using sr_hist_stream [OF hist] done_all(1) by simp
  moreover have ack: "TCPReceiver_ackno rc = Some (wrap (length w + 2) ?isn)"
    using rc(2,3) done_all by (simp add: TCPReceiver_ackno_def rcv_inv_def)
  moreover have "unwrap (wrap (length w + 2) ?isn) ?isn (snd_seqno_acked s) = length w + 2"
    using snd_core_bounds(2) [OF core] next_no assms(8) by (intro seq.dec_enc) (auto simp: seq_dist_def)
  then have "bytes_in_flight (ack_received s (wrap (length w + 2) ?isn) win) = 0"
    using next_no snd_core_bounds(2) [OF core] by (simp add: ack_received_eq [OF core] acked_to_def bytes_in_flight_def Let_def)
  ultimately show ?thesis using r1(1) rc(1) done_all(2) by simp
qed

theorem transfer_complete_witness:
  "\<exists>x syn rc. snd_run (TCPSender 7 4 1000 None) [SWrite [1, 2], SEnd, SFill] = Inr x \<and>
     rfold TCPReceiver_segment_received (TCPReceiver 4) (syn # all_segments x) = Inr rc \<and>
     bs_contents (stream_out rc) = sw_written x \<and> input_ended (stream_out rc)"
proof -
  let ?ops = "[SWrite [1, 2], SEnd, SFill]" and ?s = "TCPSender 7 4 1000 None"
  have ok: "snd_ok ?ops" by (simp add: snd_ok_def)
  have "returns (snd_run ?s ?ops) (\<lambda>x. snd_hist (snd_isn ?s) ?ops x \<and> bytes_in_flight (sw_sender x) = length [1 :: u8, 2] + 2)"
    using returns_conj [OF snd_run_hist [OF _ _ ok refl, of 4 7 1000 None] overrun_run [of 4 "[1, 2]" 7 1000 None]]
    by (simp add: MAX_PAYLOAD_SIZE_def returns_iff) blast
  then obtain x where x: "snd_run ?s ?ops = Inr x" "snd_hist (snd_isn ?s) ?ops x" "bytes_in_flight (sw_sender x) = 4"
    by (auto simp: returns_iff)
  have core: "snd_core (sw_written x) (sw_sender x)" and len: "length (sw_written x) \<le> 2"
    using x(2) by (simp_all add: snd_hist_def snd_inv_def)
  have n: "4 \<le> snd_next_seqno (sw_sender x)" using x(3) snd_core_bounds(2) [OF core] by (simp add: bytes_in_flight_def)
  moreover have "snd_next_seqno (sw_sender x) = 1 + snd_taken (sw_written x) (sw_sender x) + of_bool (snd_sent_fin (sw_sender x))"
    using core n unfolding snd_core_def by auto
  ultimately have fin: "snd_sent_fin (sw_sender x)" using snd_core_bounds(4) [OF core] len by (cases "snd_sent_fin (sw_sender x)") auto
  have "covers (set (all_segments x)) (sw_written x) (snd_isn ?s) True (snd_next_seqno (sw_sender x))"
    using x(2) fin by (simp add: snd_hist_def)
  then have "\<exists>start. \<exists>seg \<in> set (all_segments x). seg_at (sw_written x) (snd_isn ?s) True start seg \<and> start \<le> 0"
    using n unfolding covers_def by (meson le_trans less_le_trans zero_less_numeral)
  then obtain syn where syn: "syn \<in> set (all_segments x)" "th_syn (seg_header syn)"
    by (auto simp: seg_at_def)
  then have "set (syn # all_segments x) = set (all_segments x)" by auto
  from transfer_complete [where kr = 4 and win = 0, OF _ _ ok x(1) refl refl fin _ _ _ _ this syn(2)] len show ?thesis
    using x(1) by (simp add: returns_iff) blast
qed

end
