(* ===== verification/Net_Address.thy ===== *)
theory Net_Address
  imports Net_Parser
begin

text \<open>
  \<^verbatim>\<open>libsponge/util/address.hh\<close> and \<^verbatim>\<open>.cc\<close>: socket addresses, with the decimal conversions of the
  C++ library that they use.

  A \<open>sockaddr_storage\<close> is its 128 bytes; on the little-endian targets the family is in the first two of
  them, the port and the IPv4 address follow in network byte order. The resolver, \<open>getaddrinfo\<close> and
  \<open>getnameinfo\<close>, is not part of the program: it is the argument \<open>gai\<close> or \<open>gni\<close> of the definitions that call
  it. \<open>numeric_resolver gai gni\<close> states what POSIX documents of the two for numeric hosts and services,
  and \<open>quad_gai\<close> and \<open>quad_gni\<close> are functions that behave that way.
\<close>

unbundle bit_operations_syntax

section \<open>Decimal numbers\<close>

definition digit :: "nat \<Rightarrow> char" where
  "digit d = char_of (48 + d)"

definition digit_val :: "char \<Rightarrow> nat" where
  "digit_val c = of_char c - 48"

definition is_digit :: "char \<Rightarrow> bool" where
  "is_digit c \<longleftrightarrow> 48 \<le> (of_char c :: nat) \<and> (of_char c :: nat) \<le> 57"

fun to_string :: "nat \<Rightarrow> string" where
  "to_string n = (if n < 10 then [digit n] else to_string (n div 10) @ [digit (n mod 10)])"

declare to_string.simps [simp del]

definition read_digits :: "string \<Rightarrow> nat" where
  "read_digits s = foldl (\<lambda>n c. 10 * n + digit_val c) 0 s"

text \<open>\<open>std::stoi\<close>: leading white space, an optional sign and the longest run of digits.\<close>

definition is_space :: "char \<Rightarrow> bool" where
  "is_space c \<longleftrightarrow> (of_char c :: nat) = 32 \<or> 9 \<le> (of_char c :: nat) \<and> (of_char c :: nat) \<le> 13"

definition stoi :: "string \<Rightarrow> int res" where
  "stoi s =
     (let t = dropWhile is_space s;
          (neg, t) = (case t of c # u \<Rightarrow> if c = CHR ''-'' then (True, u) else if c = CHR ''+'' then (False, u) else (False, t)
                       | [] \<Rightarrow> (False, t));
          d = takeWhile is_digit t;
          v = (if neg then - int (read_digits d) else int (read_digits d))
      in if d = [] then Inl (InvalidArgument ''stoi'')
         else if v < - 2147483648 \<or> 2147483647 < v then Inl (OutOfRange ''stoi'')
         else Inr v)"

section \<open>Address\<close>

definition sizeof_storage :: size_t where
  "sizeof_storage = 128"

definition sizeof_sockaddr_in :: size_t where
  "sizeof_sockaddr_in = 16"

definition AF_INET :: u16 where
  "AF_INET = 2"

record Address =
  addr_size :: size_t
  addr_storage :: bytes

definition ss_family :: "bytes \<Rightarrow> u16" where
  "ss_family st = ucast (st ! 0) OR push_bit 8 (ucast (st ! 1))"

definition be32toh :: "bytes \<Rightarrow> u32" where
  "be32toh b = push_bit 24 (ucast (b ! 0)) OR push_bit 16 (ucast (b ! 1)) OR push_bit 8 (ucast (b ! 2)) OR ucast (b ! 3)"

definition sockaddr_in :: "u32 \<Rightarrow> u16 \<Rightarrow> bytes" where
  "sockaddr_in ip port = [2, 0] @ be16 port @ be32 ip @ replicate 8 0"

definition Address_of_sockaddr :: "bytes \<Rightarrow> size_t \<Rightarrow> Address res" where
  "Address_of_sockaddr addr len =
     (if len > sizeof_storage then Inl (RuntimeError ''invalid sockaddr size'')
      else if length addr < len then Inl OutOfBounds
      else Inr \<lparr>addr_size = len, addr_storage = take len addr @ replicate (sizeof_storage - len) 0\<rparr>)"

record addrinfo =
  ai_flags :: int
  ai_family :: int

definition AI_NUMERICHOST :: int where
  "AI_NUMERICHOST = 4"

definition AI_ALL :: int where
  "AI_ALL = 16"

definition AI_NUMERICSERV :: int where
  "AI_NUMERICSERV = 1024"

type_synonym getaddrinfo_fn = "string \<Rightarrow> string \<Rightarrow> addrinfo \<Rightarrow> int \<times> (bytes \<times> size_t) option"
type_synonym getnameinfo_fn = "bytes \<Rightarrow> size_t \<Rightarrow> int \<times> string \<times> string"

definition make_hints :: "int \<Rightarrow> int \<Rightarrow> addrinfo" where
  "make_hints flags family = \<lparr>ai_flags = flags, ai_family = family\<rparr>"

definition Address_resolve :: "getaddrinfo_fn \<Rightarrow> string \<Rightarrow> string \<Rightarrow> addrinfo \<Rightarrow> Address res" where
  "Address_resolve gai node service hints =
     (let (gai_ret, resolved) = gai node service hints
      in if gai_ret \<noteq> 0 then Inl (TaggedError (''getaddrinfo('' @ node @ '', '' @ service @ '')'') gai_ret)
         else case resolved of
                None \<Rightarrow> Inl (RuntimeError ''getaddrinfo returned successfully but with no results'')
              | Some (ai_addr, ai_addrlen) \<Rightarrow> Address_of_sockaddr ai_addr ai_addrlen)"

definition Address_hostname :: "getaddrinfo_fn \<Rightarrow> string \<Rightarrow> string \<Rightarrow> Address res" where
  "Address_hostname gai hostname service = Address_resolve gai hostname service (make_hints AI_ALL (uint AF_INET))"

definition numeric_hints :: addrinfo where
  "numeric_hints = make_hints (AI_NUMERICHOST + AI_NUMERICSERV) (uint AF_INET)"

definition Address_ip :: "getaddrinfo_fn \<Rightarrow> string \<Rightarrow> u16 \<Rightarrow> Address res" where
  "Address_ip gai ip port = Address_resolve gai ip (to_string (unat port)) numeric_hints"

definition ip_port :: "getnameinfo_fn \<Rightarrow> Address \<Rightarrow> (string \<times> u16) res" where
  "ip_port gni a =
     (let (gni_ret, ip, port) = gni (addr_storage a) (addr_size a)
      in if gni_ret \<noteq> 0 then Inl (TaggedError ''getnameinfo'' gni_ret)
         else rbind (stoi port) (\<lambda>p. Inr (ip, word_of_int p)))"

definition addr_port :: "getnameinfo_fn \<Rightarrow> Address \<Rightarrow> u16 res" where
  "addr_port gni a = rbind (ip_port gni a) (\<lambda>(ip, port). Inr port)"

definition addr_to_string :: "getnameinfo_fn \<Rightarrow> Address \<Rightarrow> string res" where
  "addr_to_string gni a = rbind (ip_port gni a) (\<lambda>(ip, port). Inr (ip @ '':'' @ to_string (unat port)))"

definition ipv4_numeric :: "Address \<Rightarrow> u32 res" where
  "ipv4_numeric a =
     (if ss_family (addr_storage a) \<noteq> AF_INET \<or> addr_size a \<noteq> sizeof_sockaddr_in
      then Inl (RuntimeError ''ipv4_numeric called on non-IPV4 address'')
      else Inr (be32toh (take 4 (drop 4 (addr_storage a)))))"

definition from_ipv4_numeric :: "u32 \<Rightarrow> Address res" where
  "from_ipv4_numeric ip_address = Address_of_sockaddr (sockaddr_in ip_address 0) sizeof_sockaddr_in"

definition Address_eq :: "Address \<Rightarrow> Address \<Rightarrow> bool" where
  "Address_eq a b \<longleftrightarrow> addr_size a = addr_size b \<and> take (addr_size a) (addr_storage a) = take (addr_size a) (addr_storage b)"

section \<open>Numeric addresses\<close>

text \<open>The address made from an IPv4 address and a port.\<close>

definition ipv4_address :: "u32 \<Rightarrow> u16 \<Rightarrow> Address" where
  "ipv4_address ip port = \<lparr>addr_size = 16, addr_storage = sockaddr_in ip port @ replicate 112 0\<rparr>"

lemma length_sockaddr_in [simp]: "length (sockaddr_in ip port) = 16"
  by (simp add: sockaddr_in_def)

lemma Address_of_sockaddr_in [simp]: "Address_of_sockaddr (sockaddr_in ip port) 16 = Inr (ipv4_address ip port)"
  by (simp add: Address_of_sockaddr_def sizeof_storage_def ipv4_address_def)

lemma be32toh_be32 [simp]: "be32toh (be32 ip) = ip"
proof (rule bit_word_eqI)
  fix n assume "n < LENGTH(32)"
  then show "bit (be32toh (be32 ip)) n = bit ip n"
    by (cases "n < 8"; cases "n < 16"; cases "n < 24") (auto simp: be32toh_def be32_def bit_simps)
qed

lemma ipv4_numeric_address [simp]: "ipv4_numeric (ipv4_address ip port) = Inr ip"
  by (simp add: ipv4_numeric_def ipv4_address_def sockaddr_in_def ss_family_def AF_INET_def sizeof_sockaddr_in_def)

lemma from_ipv4_numeric_eq [simp]: "from_ipv4_numeric ip = Inr (ipv4_address ip 0)"
  by (simp add: from_ipv4_numeric_def sizeof_sockaddr_in_def)

lemma to_string_digits: "to_string n \<noteq> [] \<and> (\<forall>c \<in> set (to_string n). is_digit c)"
proof (induction n rule: to_string.induct)
  case (1 n)
  have d: "is_digit (digit d)" if "d < 10" for d using that by (simp add: is_digit_def digit_def)
  show ?case using 1 d by (subst (1 2) to_string.simps) auto
qed

lemma read_digits_snoc: "read_digits (s @ [c]) = 10 * read_digits s + digit_val c"
  by (simp add: read_digits_def)

lemma read_to_string [simp]: "read_digits (to_string n) = n"
proof (induction n rule: to_string.induct)
  case (1 n)
  have d: "digit_val (digit d) = d" if "d < 10" for d using that by (simp add: digit_val_def digit_def)
  show ?case
    using 1 d by (subst to_string.simps) (auto simp: read_digits_snoc, simp add: read_digits_def)
qed

lemma stoi_to_string:
  assumes "n \<le> 2147483647"
  shows "stoi (to_string n) = Inr (int n)"
proof -
  have s: "to_string n \<noteq> []" "\<forall>c \<in> set (to_string n). is_digit c" using to_string_digits by blast+
  have dg: "is_digit c \<Longrightarrow> \<not> is_space c \<and> c \<noteq> CHR ''-'' \<and> c \<noteq> CHR ''+''" for c
    by (auto simp: is_digit_def is_space_def)
  obtain c u where c: "to_string n = c # u" "is_digit c" using s by (cases "to_string n") auto
  have r: "read_digits (c # u) = n" using read_to_string [of n] c(1) by simp
  have tw: "takeWhile is_digit (c # u) = c # u" using s(2) c(1) by (auto intro!: takeWhile_eq_all_conv [THEN iffD2])
  have dw: "dropWhile is_space (c # u) = c # u" using dg [OF c(2)] by simp
  show ?thesis
    unfolding c(1) stoi_def using assms dg [OF c(2)] by (simp add: tw dw r Let_def del: takeWhile.simps dropWhile.simps)
qed

text \<open>The dotted quad, as \<open>inet_ntoa\<close> prints it, and its reader.\<close>

definition ip_byte :: "u32 \<Rightarrow> nat \<Rightarrow> nat" where
  "ip_byte ip i = unat (be32 ip ! i)"

definition inet_ntoa :: "u32 \<Rightarrow> string" where
  "inet_ntoa ip = to_string (ip_byte ip 0) @ ''.'' @ to_string (ip_byte ip 1) @ ''.'' @
     to_string (ip_byte ip 2) @ ''.'' @ to_string (ip_byte ip 3)"

definition next_dot :: "string \<Rightarrow> string \<times> string" where
  "next_dot s = (takeWhile is_digit s, drop 1 (dropWhile is_digit s))"

definition read_quad :: "string \<Rightarrow> u32" where
  "read_quad s =
     (let (a, s) = next_dot s; (b, s) = next_dot s; (c, s) = next_dot s; (d, s) = next_dot s
      in be32toh (map (\<lambda>x. of_nat (read_digits x)) [a, b, c, d]))"

lemma next_dot_to_string [simp]: "next_dot (to_string n @ CHR ''.'' # s) = (to_string n, s)" "next_dot (to_string n) = (to_string n, [])"
proof -
  have d: "\<forall>c \<in> set (to_string n). is_digit c" using to_string_digits by blast
  have dot: "\<not> is_digit (CHR ''.'')" by (simp add: is_digit_def)
  have "takeWhile is_digit (to_string n @ x) = to_string n @ takeWhile is_digit x"
    "dropWhile is_digit (to_string n @ x) = dropWhile is_digit x" for x
    using d by (simp_all add: takeWhile_append2 dropWhile_append2)
  moreover have e: "dropWhile is_digit (to_string n) = []" using d by simp
  ultimately
  show "next_dot (to_string n @ CHR ''.'' # s) = (to_string n, s)" "next_dot (to_string n) = (to_string n, [])"
    using dot d by (simp_all add: next_dot_def e)
qed

lemma read_quad_ntoa [simp]: "read_quad (inet_ntoa ip) = ip"
proof -
  have "map (\<lambda>i. of_nat (ip_byte ip i)) [0, 1, 2, 3] = be32 ip" by (simp add: ip_byte_def be32_def)
  then show ?thesis by (simp add: read_quad_def inet_ntoa_def Let_def)
qed

text \<open>What the manual pages of \<open>getaddrinfo\<close> and \<open>getnameinfo\<close> say of numeric hosts and services.\<close>

definition numeric_resolver :: "getaddrinfo_fn \<Rightarrow> getnameinfo_fn \<Rightarrow> bool" where
  "numeric_resolver gai gni \<longleftrightarrow> (\<forall>ip port.
     gai (inet_ntoa ip) (to_string (unat port)) numeric_hints = (0, Some (sockaddr_in ip port, 16)) \<and>
     gni (sockaddr_in ip port @ replicate 112 0) 16 = (0, inet_ntoa ip, to_string (unat port)))"

definition quad_gai :: getaddrinfo_fn where
  "quad_gai node service hints = (0, Some (sockaddr_in (read_quad node) (of_nat (read_digits service)), 16))"

definition quad_gni :: getnameinfo_fn where
  "quad_gni st len = (0, inet_ntoa (be32toh (take 4 (drop 4 st))),
     to_string (unat (push_bit 8 (ucast (st ! 2)) OR ucast (st ! 3) :: u16)))"

lemma quad_resolver: "numeric_resolver quad_gai quad_gni"
proof -
  have p: "push_bit 8 (ucast (be16 port ! 0)) OR ucast (be16 port ! Suc 0) = port" for port :: u16
    by (rule bit_word_eqI) (auto simp: be16_def bit_simps)
  have s: "sockaddr_in ip port ! 2 = be16 port ! 0" "sockaddr_in ip port ! 3 = be16 port ! Suc 0"
    "take 4 (drop 4 (sockaddr_in ip port)) = be32 ip" for ip port
    by (simp_all add: sockaddr_in_def be16_def)
  show ?thesis by (simp add: numeric_resolver_def quad_gai_def quad_gni_def s p nth_append)
qed

lemma ip_port_ipv4:
  assumes "numeric_resolver gai gni"
  shows "ip_port gni (ipv4_address ip port) = Inr (inet_ntoa ip, port)"
proof -
  have "unat port \<le> 2147483647" using unat_lt(2) [of port] by linarith
  then show ?thesis
    using assms by (simp add: ip_port_def ipv4_address_def numeric_resolver_def stoi_to_string)
qed

lemma Address_ip_ipv4:
  assumes "numeric_resolver gai gni"
  shows "Address_ip gai (inet_ntoa ip) port = Inr (ipv4_address ip port)"
  using assms by (simp add: Address_ip_def Address_resolve_def numeric_resolver_def)

section \<open>Properties\<close>

text \<open>C23: Numeric addresses survive both conversions, when the resolver treats numeric hosts and services as
  documented: an address made from a dotted quad and a port gives back the number of the host
  and the port, prints as quad, colon and port, and equals the one made from the number when
  the port is 0.\<close>

theorem address_numeric_roundtrip:
  assumes "numeric_resolver gai gni"
  shows "returns (Address_ip gai (inet_ntoa ip) port) (\<lambda>a.
    ipv4_numeric a = Inr ip \<and> addr_port gni a = Inr port \<and>
    addr_to_string gni a = Inr (inet_ntoa ip @ '':'' @ to_string (unat port)) \<and>
    returns (from_ipv4_numeric ip) (\<lambda>b. Address_eq a b \<longleftrightarrow> port = 0))"
  by (simp add: Address_ip_ipv4 [OF assms] ip_port_ipv4 [OF assms] addr_port_def addr_to_string_def Address_eq_def)
    (simp add: ipv4_address_def sockaddr_in_def)

theorem address_numeric_roundtrip_witness:
  "\<exists>a. Address_ip quad_gai (inet_ntoa 0x12F30001) 80 = Inr a \<and> ipv4_numeric a = Inr 0x12F30001 \<and> addr_port quad_gni a = Inr 80"
  using address_numeric_roundtrip [OF quad_resolver, of "0x12F30001" 80] by (auto simp: returns_iff)

end
