(* ===== verification/IPv4_Datagram.thy ===== *)
theory IPv4_Datagram
  imports Net_Parser
begin

unbundle bit_operations_syntax

text \<open>
  \<^verbatim>\<open>libsponge/tcp_helpers/ipv4_header.{hh,cc}\<close> and \<^verbatim>\<open>ipv4_datagram.{hh,cc}\<close>: the IPv4 header, whose
  checksum covers the header only, the pseudo-header sum that enters the TCP checksum, and the
  datagram.

  \<open>IPv4Header\<close> is an instance of \<open>header_codec\<close> for the headers whose length field and checksum are
  right for what follows them, which is what \<open>IPv4Datagram::serialize\<close> arranges.
\<close>

section \<open>IPv4Header\<close>

record IPv4Header =
  ih_ver :: u8
  ih_hlen :: u8
  ih_tos :: u8
  ih_len :: u16
  ih_id :: u16
  ih_df :: bool
  ih_mf :: bool
  ih_offset :: u16
  ih_ttl :: u8
  ih_proto :: u8
  ih_cksum :: u16
  ih_src :: u32
  ih_dst :: u32

definition IPv4Header_LENGTH :: size_t where
  "IPv4Header_LENGTH = 20"

definition DEFAULT_TTL :: u8 where
  "DEFAULT_TTL = 128"

definition PROTO_TCP :: u8 where
  "PROTO_TCP = 6"

definition IPv4Header_default :: IPv4Header where
  "IPv4Header_default =
     \<lparr>ih_ver = 4, ih_hlen = of_nat (IPv4Header_LENGTH div 4), ih_tos = 0, ih_len = 0, ih_id = 0,
      ih_df = True, ih_mf = False, ih_offset = 0, ih_ttl = DEFAULT_TTL, ih_proto = PROTO_TCP,
      ih_cksum = 0, ih_src = 0, ih_dst = 0\<rparr>"

definition IPv4Header_parse :: "IPv4Header \<Rightarrow> net_parser \<Rightarrow> (IPv4Header \<times> net_parser \<times> ParseResult) res" where
  "IPv4Header_parse h p =
     (let original_serialized_version = np_buffer p;
          data_size = buf_size (np_buffer p)
      in if data_size < IPv4Header_LENGTH then Inr (h, p, PacketTooShort)
         else
     rbind (parse_u8 p) (\<lambda>(p, first_byte).
     rbind (parse_u8 p) (\<lambda>(p, tos).
     rbind (parse_u16 p) (\<lambda>(p, len).
     rbind (parse_u16 p) (\<lambda>(p, ident).
     rbind (parse_u16 p) (\<lambda>(p, fo_val).
     rbind (parse_u8 p) (\<lambda>(p, ttl).
     rbind (parse_u8 p) (\<lambda>(p, proto).
     rbind (parse_u16 p) (\<lambda>(p, cksum).
     rbind (parse_u32 p) (\<lambda>(p, src).
     rbind (parse_u32 p) (\<lambda>(p, dst).
       let ver = drop_bit 4 first_byte; hlen = first_byte AND 0x0f;
           h = h\<lparr>ih_ver := ver, ih_hlen := hlen, ih_tos := tos, ih_len := len, ih_id := ident,
                 ih_df := fo_val AND 0x4000 \<noteq> 0, ih_mf := fo_val AND 0x2000 \<noteq> 0,
                 ih_offset := fo_val AND 0x1fff, ih_ttl := ttl, ih_proto := proto,
                 ih_cksum := cksum, ih_src := src, ih_dst := dst\<rparr>
       in if data_size < 4 * unat hlen then Inr (h, p, PacketTooShort)
          else if ver \<noteq> 4 then Inr (h, p, WrongIPVersion)
          else if hlen < 5 then Inr (h, p, HeaderTooShort)
          else if data_size \<noteq> unat len then Inr (h, p, TruncatedPacket)
          else rbind (np_remove_prefix p (u64_sub (unat hlen * 4) IPv4Header_LENGTH)) (\<lambda>p.
            if np_failed p then Inr (h, p, np_error p)
            else if ck_value (ck_add (InternetChecksum 0) (take (4 * unat hlen) (buf_str original_serialized_version))) \<noteq> 0
            then Inr (h, p, BadChecksum) else Inr (h, p, NoError)))))))))))))"

definition ip_first_byte :: "IPv4Header \<Rightarrow> u8" where
  "ip_first_byte h = push_bit 4 (ih_ver h) OR (ih_hlen h AND 0xf)"

definition ip_fo_val :: "IPv4Header \<Rightarrow> u16" where
  "ip_fo_val h = (if ih_df h then 0x4000 else 0) OR (if ih_mf h then 0x2000 else 0) OR (ih_offset h AND 0x1fff)"

definition IPv4Header_serialize :: "IPv4Header \<Rightarrow> bytes res" where
  "IPv4Header_serialize h =
     (if ih_ver h \<noteq> 4 then Inl (RuntimeError ''wrong IP version'')
      else if 4 * unat (ih_hlen h) < IPv4Header_LENGTH then Inl (RuntimeError ''IP header too short'')
      else let ret = [];
               ret = unparse_u8 ret (ip_first_byte h);
               ret = unparse_u8 ret (ih_tos h);
               ret = unparse_u16 ret (ih_len h);
               ret = unparse_u16 ret (ih_id h);
               ret = unparse_u16 ret (ip_fo_val h);
               ret = unparse_u8 ret (ih_ttl h);
               ret = unparse_u8 ret (ih_proto h);
               ret = unparse_u16 ret (ih_cksum h);
               ret = unparse_u32 ret (ih_src h);
               ret = unparse_u32 ret (ih_dst h)
           in Inr (string_resize ret (4 * unat (ih_hlen h))))"

definition payload_length :: "IPv4Header \<Rightarrow> u16" where
  "payload_length h = ih_len h - of_nat (4 * unat (ih_hlen h))"

definition pseudo_cksum :: "IPv4Header \<Rightarrow> u32" where
  "pseudo_cksum h =
     (let pcksum = drop_bit 16 (ih_src h) + (ih_src h AND 0xffff);
          pcksum = pcksum + (drop_bit 16 (ih_dst h) + (ih_dst h AND 0xffff));
          pcksum = pcksum + ucast (ih_proto h)
      in pcksum + ucast (payload_length h))"

section \<open>IPv4Datagram\<close>

record IPv4Datagram =
  dg_header :: IPv4Header
  dg_payload :: buffer_list

definition IPv4Datagram_default :: IPv4Datagram where
  "IPv4Datagram_default = \<lparr>dg_header = IPv4Header_default, dg_payload = []\<rparr>"

definition IPv4Datagram_parse :: "IPv4Datagram \<Rightarrow> buffer \<Rightarrow> (IPv4Datagram \<times> ParseResult) res" where
  "IPv4Datagram_parse dg buf =
     rbind (IPv4Header_parse (dg_header dg) (NetParser buf)) (\<lambda>(h, p, _).
       let dg' = dg\<lparr>dg_header := h, dg_payload := BufferList_of_Buffer (np_buffer p)\<rparr>
       in if BufferList_size (dg_payload dg') \<noteq> unat (payload_length h) then Inr (dg', PacketTooShort)
          else Inr (dg', np_error p))"

definition IPv4Datagram_serialize :: "IPv4Datagram \<Rightarrow> buffer_list res" where
  "IPv4Datagram_serialize dg =
     (if BufferList_size (dg_payload dg) \<noteq> unat (payload_length (dg_header dg))
      then Inl (RuntimeError ''IPv4Datagram::serialize: payload is wrong size'')
      else let header_out = (dg_header dg)\<lparr>ih_cksum := 0\<rparr>
           in rbind (IPv4Header_serialize header_out) (\<lambda>header_zero_checksum.
              let check = ck_add (InternetChecksum 0) header_zero_checksum;
                  header_out = header_out\<lparr>ih_cksum := ck_value check\<rparr>
              in rbind (IPv4Header_serialize header_out) (\<lambda>s.
                 Inr (BufferList_append (BufferList_append [] (BufferList_of_string s)) (dg_payload dg)))))"

section \<open>Header lemmas\<close>

lemma nibble_and: "x AND 0xf = take_bit 4 x" for x :: u8
  by (simp add: take_bit_eq_mask mask_eq_exp_minus_1)

lemma ip_first_byte_fields:
  assumes "ih_ver h = 4" "unat (ih_hlen h) < 16"
  shows "drop_bit 4 (ip_first_byte h) = 4" "ip_first_byte h AND 0x0f = ih_hlen h"
proof -
  have t: "take_bit 4 (ih_hlen h) = ih_hlen h"
    using assms(2) by (simp add: word_unat_eq_iff unat_take_bit)
  then have fb: "ip_first_byte h = 0x40 OR ih_hlen h"
    using assms(1) by (simp add: ip_first_byte_def nibble_and push_bit_eq_mult)
  have "drop_bit 4 (ih_hlen h) = 0" using assms(2) by (simp add: word_unat_eq_iff unat_drop_bit)
  moreover have "drop_bit 4 (0x40 :: u8) = 4" by simp
  ultimately show "drop_bit 4 (ip_first_byte h) = 4" unfolding fb drop_bit_or by simp
  have "take_bit 4 (0x40 :: u8) = 0" by simp
  then show "ip_first_byte h AND 0x0f = ih_hlen h" unfolding nibble_and fb take_bit_or t by simp
qed

lemma ip_fo_val_fields:
  assumes "unat (ih_offset h) < 8192"
  shows "ip_fo_val h AND 0x4000 \<noteq> 0 \<longleftrightarrow> ih_df h" "ip_fo_val h AND 0x2000 \<noteq> 0 \<longleftrightarrow> ih_mf h"
    "ip_fo_val h AND 0x1fff = ih_offset h"
proof -
  define o' where "o' = ih_offset h"
  have o': "unat o' < 8192" using assms by (simp add: o'_def)
  have m: "x AND 0x1fff = take_bit 13 x" for x :: u16 by (simp add: take_bit_eq_mask mask_eq_exp_minus_1)
  have t: "take_bit 13 o' = o'" using o' by (simp add: word_unat_eq_iff unat_take_bit)
  have b: "\<not> bit o' 14" "\<not> bit o' 13" using bit_take_bit_iff [of 13 o' 14] bit_take_bit_iff [of 13 o' 13] t by simp_all
  have n: "x AND 0x4000 \<noteq> 0 \<longleftrightarrow> bit x 14" "x AND 0x2000 \<noteq> 0 \<longleftrightarrow> bit x 13" for x :: u16
    using and_exp_eq_0_iff_not_bit [of x 14] and_exp_eq_0_iff_not_bit [of x 13] by simp_all
  have fo: "ip_fo_val h = (if ih_df h then 0x4000 else 0) OR (if ih_mf h then 0x2000 else 0) OR o'"
    unfolding ip_fo_val_def o'_def [symmetric] m t ..
  have bits: "bit (0x4000 :: u16) 14" "\<not> bit (0x4000 :: u16) 13" "bit (0x2000 :: u16) 13" "\<not> bit (0x2000 :: u16) 14"
    by simp_all
  show "ip_fo_val h AND 0x4000 \<noteq> 0 \<longleftrightarrow> ih_df h" "ip_fo_val h AND 0x2000 \<noteq> 0 \<longleftrightarrow> ih_mf h"
    unfolding n fo bit_or_iff using b bits by auto
  have "take_bit 13 (0x4000 :: u16) = 0" "take_bit 13 (0x2000 :: u16) = 0" by simp_all
  then show "ip_fo_val h AND 0x1fff = ih_offset h"
    unfolding m fo take_bit_or t o'_def [symmetric] by auto
qed

text \<open>The 20 fixed bytes of a header, and the header that fixed fields are parsed to.\<close>

definition ip_fixed :: "IPv4Header \<Rightarrow> bytes" where
  "ip_fixed h = be8 (ip_first_byte h) @ be8 (ih_tos h) @ be16 (ih_len h) @ be16 (ih_id h) @
     be16 (ip_fo_val h) @ be8 (ih_ttl h) @ be8 (ih_proto h) @ be16 (ih_cksum h) @ be32 (ih_src h) @
     be32 (ih_dst h)"

definition ip_fields ::
  "IPv4Header \<Rightarrow> u8 \<Rightarrow> u8 \<Rightarrow> u16 \<Rightarrow> u16 \<Rightarrow> u16 \<Rightarrow> u8 \<Rightarrow> u8 \<Rightarrow> u16 \<Rightarrow> u32 \<Rightarrow> u32 \<Rightarrow> IPv4Header" where
  "ip_fields h a b c d e f g i j k =
     h\<lparr>ih_ver := drop_bit 4 a, ih_hlen := a AND 0x0f, ih_tos := b, ih_len := c, ih_id := d,
       ih_df := e AND 0x4000 \<noteq> 0, ih_mf := e AND 0x2000 \<noteq> 0, ih_offset := e AND 0x1fff,
       ih_ttl := f, ih_proto := g, ih_cksum := i, ih_src := j, ih_dst := k\<rparr>"

lemma length_ip_fixed [simp]: "length (ip_fixed h) = 20"
  by (simp add: ip_fixed_def)

text \<open>The verdict on a string of bytes that starts with the first byte \<open>a\<close> and has the length field \<open>c\<close>, and
  how many bytes the header parser consumes.\<close>

definition ip_verdict :: "u8 \<Rightarrow> u16 \<Rightarrow> bytes \<Rightarrow> ParseResult" where
  "ip_verdict a c s =
     (if length s < 4 * unat (a AND 0x0f) then PacketTooShort
      else if drop_bit 4 a \<noteq> 4 then WrongIPVersion
      else if unat (a AND 0x0f) < 5 then HeaderTooShort
      else if length s \<noteq> unat c then TruncatedPacket
      else if ck_value (ck_add (InternetChecksum 0) (take (4 * unat (a AND 0x0f)) s)) \<noteq> 0 then BadChecksum
      else NoError)"

definition ip_consumed :: "u8 \<Rightarrow> u16 \<Rightarrow> bytes \<Rightarrow> nat" where
  "ip_consumed a c s = (if ip_verdict a c s \<in> {NoError, BadChecksum} then 4 * unat (a AND 0x0f) else 20)"

lemma IPv4Header_parse_fields:
  assumes s: "s = be8 a @ be8 b @ be16 c @ be16 d @ be16 e @ be8 f @ be8 g @ be16 i @ be32 j @ be32 k @ rest"
    and p: "np_at p s"
  shows "returns (IPv4Header_parse h0 p) (\<lambda>(h, p', r). h = ip_fields h0 a b c d e f g i j k \<and>
    r = ip_verdict a c s \<and> np_at p' (drop (ip_consumed a c s) s))"
proof -
  let ?Q = "\<lambda>(h, p', r). h = ip_fields h0 a b c d e f g i j k \<and>
    r = ip_verdict a c s \<and> np_at p' (drop (ip_consumed a c s) s)"
  define hl where "hl = a AND 0x0f"
  define H where "H = ip_fields h0 a b c d e f g i j k"
  define fixed where "fixed = be8 a @ be8 b @ be16 c @ be16 d @ be16 e @ be8 f @ be8 g @ be16 i @ be32 j @ be32 k"
  have sf: "s = fixed @ rest" "length fixed = 20" by (simp_all add: s fixed_def)
  have fin: "returns (if length s < 4 * unat hl then Inr (H, q, PacketTooShort)
          else if drop_bit 4 a \<noteq> 4 then Inr (H, q, WrongIPVersion)
          else if hl < 5 then Inr (H, q, HeaderTooShort)
          else if length s \<noteq> unat c then Inr (H, q, TruncatedPacket)
          else rbind (np_remove_prefix q (u64_sub (unat hl * 4) IPv4Header_LENGTH)) (\<lambda>p.
            if np_failed p then Inr (H, p, np_error p)
            else if ck_value (ck_add (InternetChecksum 0) (take (4 * unat hl) s)) \<noteq> 0
            then Inr (H, p, BadChecksum) else Inr (H, p, NoError))) ?Q"
    if q: "np_at q rest" for q
  proof -
    have lt: "hl < 5 \<longleftrightarrow> unat hl < 5" by (simp add: word_less_nat_alt)
    have early: "np_at q (drop (ip_consumed a c s) s)" if "ip_verdict a c s \<notin> {NoError, BadChecksum}"
      using that q sf by (simp add: ip_consumed_def)
    show ?thesis
    proof (cases "length s < 4 * unat hl \<or> drop_bit 4 a \<noteq> 4 \<or> unat hl < 5 \<or> length s \<noteq> unat c")
      case True
      then show ?thesis using early unfolding lt
        by (auto simp: ip_verdict_def hl_def [symmetric] H_def [symmetric])
    next
      case False
      define n where "n = 4 * unat hl - 20"
      have n: "n \<le> length rest" "u64_sub (unat hl * 4) IPv4Header_LENGTH = n" "drop n rest = drop (4 * unat hl) s"
        using False sf by (auto simp: n_def IPv4Header_LENGTH_def)
      have v: "ip_verdict a c s = (if ck_value (ck_add (InternetChecksum 0) (take (4 * unat hl) s)) \<noteq> 0
          then BadChecksum else NoError)"
        using False by (simp add: ip_verdict_def hl_def)
      then have c: "drop (ip_consumed a c s) s = drop n rest"
        by (simp add: ip_consumed_def hl_def [symmetric] n(3))
      have "returns (rbind (np_remove_prefix q n) (\<lambda>p.
            if np_failed p then Inr (H, p, np_error p)
            else if ck_value (ck_add (InternetChecksum 0) (take (4 * unat hl) s)) \<noteq> 0
            then Inr (H, p, BadChecksum) else Inr (H, p, NoError))) ?Q"
        by (rule returns_bind [OF np_remove_prefix_returns [OF q n(1)]])
          (auto simp: v c H_def dest: np_atD(1))
      then show ?thesis using False unfolding lt n(2) by simp
    qed
  qed
  have sz: "buf_size (np_buffer p) = length s" "buf_str (np_buffer p) = s" "\<not> length s < IPv4Header_LENGTH"
    using p sf by (simp_all add: np_atD(2) IPv4Header_LENGTH_def)
  show ?thesis
    unfolding IPv4Header_parse_def Let_def sz if_not_P [OF sz(3)]
    apply (rule parse_u8_step [OF p [unfolded s]], simp only: prod.case)
    apply (erule parse_steps, simp only: prod.case)+
    apply (drule fin, simp only: H_def hl_def ip_fields_def)
    done
qed







lemma ip_bytes_cases:
  assumes "20 \<le> length s"
  obtains a b c d e f g i j k rest where
    "s = be8 a @ be8 b @ be16 c @ be16 d @ be16 e @ be8 f @ be8 g @ be16 i @ be32 j @ be32 k @ rest"
proof -
  obtain a where a: "s = be8 a @ drop 1 s" using be_cases(1) [of s] assms by auto
  obtain b where b: "drop 1 s = be8 b @ drop 2 s" using be_at(1) [of 1 s] assms by (auto simp: numeral_2_eq_2)
  obtain c where c: "drop 2 s = be16 c @ drop 4 s" using be_at(2) [of 2 s] assms by auto
  obtain d where d: "drop 4 s = be16 d @ drop 6 s" using be_at(2) [of 4 s] assms by auto
  obtain e where e: "drop 6 s = be16 e @ drop 8 s" using be_at(2) [of 6 s] assms by auto
  obtain f where f: "drop 8 s = be8 f @ drop 9 s" using be_at(1) [of 8 s] assms by auto
  obtain g where g: "drop 9 s = be8 g @ drop 10 s" using be_at(1) [of 9 s] assms by auto
  obtain i where i: "drop 10 s = be16 i @ drop 12 s" using be_at(2) [of 10 s] assms by auto
  obtain j where j: "drop 12 s = be32 j @ drop 16 s" using be_at(3) [of 12 s] assms by auto
  obtain k where k: "drop 16 s = be32 k @ drop 20 s" using be_at(3) [of 16 s] assms by auto
  have "s = be8 a @ be8 b @ be16 c @ be16 d @ be16 e @ be8 f @ be8 g @ be16 i @ be32 j @ be32 k @ drop 20 s"
    using a b c d e f g i j k by metis
  then show thesis by (rule that)
qed

lemma IPv4Header_serialize_eq:
  "ih_ver h = 4 \<Longrightarrow> 5 \<le> unat (ih_hlen h) \<Longrightarrow>
   IPv4Header_serialize h = Inr (ip_fixed h @ replicate (4 * unat (ih_hlen h) - 20) 0)"
  by (simp add: IPv4Header_serialize_def string_resize_def IPv4Header_LENGTH_def ip_fixed_def)

definition ip_valid :: "IPv4Header \<Rightarrow> nat \<Rightarrow> bool" where
  "ip_valid h n \<longleftrightarrow> ih_ver h = 4 \<and> 5 \<le> unat (ih_hlen h) \<and> unat (ih_hlen h) < 16 \<and>
     unat (ih_offset h) < 8192 \<and> unat (ih_len h) = 4 * unat (ih_hlen h) + n"

definition ip_fits :: "IPv4Header \<Rightarrow> bytes \<Rightarrow> bool" where
  "ip_fits h rest \<longleftrightarrow> ip_valid h (length rest) \<and>
     ck_value (ck_add (InternetChecksum 0) (ip_fixed h @ replicate (4 * unat (ih_hlen h) - 20) 0)) = 0"

lemma ip_fields_self:
  assumes "ip_valid h n"
  shows "ip_fields h0 (ip_first_byte h) (ih_tos h) (ih_len h) (ih_id h) (ip_fo_val h) (ih_ttl h)
    (ih_proto h) (ih_cksum h) (ih_src h) (ih_dst h) = h"
proof -
  have "ih_ver h = 4" "unat (ih_hlen h) < 16" "unat (ih_offset h) < 8192" using assms by (simp_all add: ip_valid_def)
  then show ?thesis
    unfolding ip_fields_def ip_fo_val_fields [OF \<open>unat (ih_offset h) < 8192\<close>]
      ip_first_byte_fields [OF \<open>ih_ver h = 4\<close> \<open>unat (ih_hlen h) < 16\<close>]
    by (cases h; cases h0) simp
qed

interpretation ip: header_codec ip_fits IPv4Header_serialize IPv4Header_parse
proof (unfold_locales, goal_cases)
  case (1 h rest)
  then show ?case by (auto simp: ip_fits_def ip_valid_def IPv4Header_serialize_eq)
next
  case (2 h rest s p h0)
  then have v: "ip_valid h (length rest)" and
    ck: "ck_value (ck_add (InternetChecksum 0) (ip_fixed h @ replicate (4 * unat (ih_hlen h) - 20) 0)) = 0"
    by (simp_all add: ip_fits_def)
  then have hd: "ih_ver h = 4" "5 \<le> unat (ih_hlen h)" "unat (ih_hlen h) < 16"
    "unat (ih_len h) = 4 * unat (ih_hlen h) + length rest"
    by (simp_all add: ip_valid_def)
  note fb = ip_first_byte_fields [OF hd(1,3)]
  have s: "s = ip_fixed h @ replicate (4 * unat (ih_hlen h) - 20) 0"
    using 2(2) hd by (simp add: IPv4Header_serialize_eq)
  have len: "length s = 4 * unat (ih_hlen h)" using hd by (simp add: s)
  have vd: "ip_verdict (ip_first_byte h) (ih_len h) (s @ rest) = NoError"
    unfolding ip_verdict_def fb using hd ck s len by simp
  then have "drop (ip_consumed (ip_first_byte h) (ih_len h) (s @ rest)) (s @ rest) = rest"
    unfolding ip_consumed_def fb using len by simp
  moreover have "s @ rest = be8 (ip_first_byte h) @ be8 (ih_tos h) @ be16 (ih_len h) @ be16 (ih_id h) @
     be16 (ip_fo_val h) @ be8 (ih_ttl h) @ be8 (ih_proto h) @ be16 (ih_cksum h) @ be32 (ih_src h) @
     be32 (ih_dst h) @ replicate (4 * unat (ih_hlen h) - 20) 0 @ rest"
    by (simp add: s ip_fixed_def)
  from IPv4Header_parse_fields [OF this 2(3), of h0] have "returns (IPv4Header_parse h0 p) (\<lambda>(h', p', r).
      h' = h \<and> r = NoError \<and> np_at p' (drop (ip_consumed (ip_first_byte h) (ih_len h) (s @ rest)) (s @ rest)))"
    unfolding ip_fields_self [OF v] vd .
  ultimately show ?case by simp
qed

section \<open>Datagrams\<close>

lemma payload_length_unat:
  assumes "unat (ih_len h) = 4 * unat (ih_hlen h) + n"
  shows "unat (payload_length h) = n"
proof -
  have "unat (of_nat (4 * unat (ih_hlen h)) :: u16) = 4 * unat (ih_hlen h)"
    using unat_lt(1) [of "ih_hlen h"] by (simp only: unat_of_nat) (simp add: take_bit_eq_mod)
  then show ?thesis
    using assms by (simp add: payload_length_def unat_sub word_le_nat_alt del: of_nat_mult)
qed

lemma pseudo_cksum_le: "unat (pseudo_cksum h) \<le> 0xfffff"
proof -
  have half: "unat (drop_bit 16 x) < 65536" "unat (x AND 0xffff) < 65536" for x :: u32
    using unat_lt(3) [of x] unat_take_bit [of 16 x] unat_drop_bit [of 16 x]
    by (simp_all add: less_mult_imp_div_less take_bit_eq_mask mask_eq_exp_minus_1)
  have p: "unat (ucast (ih_proto h) :: u32) < 256" "unat (ucast (payload_length h) :: u32) < 65536"
    using unat_lt(1) [of "ih_proto h"] unat_lt(2) [of "payload_length h"] by (simp_all add: unat_ucast)
  have plus: "unat (x + y) = unat x + unat y" if "unat x + unat y < 4294967296" for x y :: u32
    using that by (simp add: unat_word_ariths)
  have "unat (pseudo_cksum h) = unat (drop_bit 16 (ih_src h)) + unat (ih_src h AND 0xffff) +
      (unat (drop_bit 16 (ih_dst h)) + unat (ih_dst h AND 0xffff)) + unat (ucast (ih_proto h) :: u32) +
      unat (ucast (payload_length h) :: u32)"
    unfolding pseudo_cksum_def Let_def
    using half [of "ih_src h"] half [of "ih_dst h"] p by (simp add: plus)
  then show ?thesis using half [of "ih_src h"] half [of "ih_dst h"] p by linarith
qed

lemma ip_fixed_cksum: "\<exists>a b. length a = 10 \<and> length b = 8 \<and> (\<forall>v. ip_fixed (h\<lparr>ih_cksum := v\<rparr>) = a @ be16 v @ b)"
  by (rule exI [of _ "be8 (ip_first_byte h) @ be8 (ih_tos h) @ be16 (ih_len h) @ be16 (ih_id h) @
        be16 (ip_fo_val h) @ be8 (ih_ttl h) @ be8 (ih_proto h)"],
      rule exI [of _ "be32 (ih_src h) @ be32 (ih_dst h)"])
    (simp add: ip_fixed_def ip_first_byte_def ip_fo_val_def)

definition dg_out :: "IPv4Header \<Rightarrow> IPv4Header" where
  "dg_out h = h\<lparr>ih_cksum := ck_value (ck_add (InternetChecksum 0)
     (ip_fixed (h\<lparr>ih_cksum := 0\<rparr>) @ replicate (4 * unat (ih_hlen h) - 20) 0))\<rparr>"

lemma dg_out_fits:
  assumes "ip_valid h (length rest)"
  shows "ip_fits (dg_out h) rest"
proof -
  define pad where "pad = replicate (4 * unat (ih_hlen h) - 20) (0 :: u8)"
  obtain a b where ab: "length a = 10" "length b = 8" "\<And>v. ip_fixed (h\<lparr>ih_cksum := v\<rparr>) = a @ be16 v @ b"
    using ip_fixed_cksum [of h] by auto
  define v where "v = ck_value (ck_add (InternetChecksum 0) (a @ be16 0 @ b @ pad))"
  have out: "dg_out h = h\<lparr>ih_cksum := v\<rparr>" by (simp add: dg_out_def ab(3) v_def pad_def)
  have "ck_value (ck_add (InternetChecksum 0) (a @ be16 v @ b @ pad)) = 0"
    using assms ab by (intro ck_insert_verifies) (auto simp: v_def pad_def ip_valid_def)
  then show ?thesis
    using assms by (simp add: ip_fits_def ip_valid_def out ab(3) pad_def)
qed

lemma IPv4Datagram_serialize_eq:
  assumes "ip_valid (dg_header dg) (length (concatenate (dg_payload dg)))"
  shows "IPv4Datagram_serialize dg = Inr (Buffer (ip_fixed (dg_out (dg_header dg)) @
    replicate (4 * unat (ih_hlen (dg_header dg)) - 20) 0) # dg_payload dg)"
proof -
  let ?n = "length (concatenate (dg_payload dg))"
  have v: "ih_ver (dg_header dg) = 4" "5 \<le> unat (ih_hlen (dg_header dg))"
    "unat (ih_len (dg_header dg)) = 4 * unat (ih_hlen (dg_header dg)) + ?n"
    using assms by (simp_all add: ip_valid_def)
  have "BufferList_size (dg_payload dg) = ?n"
    using v(3) unat_lt(2) [of "ih_len (dg_header dg)"] by (intro BufferList_size_eq) simp
  then show ?thesis
    unfolding IPv4Datagram_serialize_def payload_length_unat [OF v(3)]
    using v by (simp add: IPv4Header_serialize_eq dg_out_def)
qed

lemma IPv4Header_parse_short:
  "length (buf_str buf) < 20 \<Longrightarrow> IPv4Header_parse h (NetParser buf) = Inr (h, NetParser buf, PacketTooShort)"
  by (simp add: IPv4Header_parse_def NetParser_def IPv4Header_LENGTH_def)

lemma IPv4Datagram_parse_total: "buf_ok buf \<Longrightarrow> \<exists>dg' r. IPv4Datagram_parse dg buf = Inr (dg', r)"
proof -
  assume ok: "buf_ok buf"
  have "\<exists>h p r. IPv4Header_parse (dg_header dg) (NetParser buf) = Inr (h, p, r)"
  proof (cases "length (buf_str buf) < 20")
    case False
    then have "20 \<le> length (buf_str buf)" by simp
    then obtain a b c d e f g i j k rest where
      "buf_str buf = be8 a @ be8 b @ be16 c @ be16 d @ be16 e @ be8 f @ be8 g @ be16 i @ be32 j @ be32 k @ rest"
      by (rule ip_bytes_cases)
    from IPv4Header_parse_fields [OF this np_at_buffer [OF ok]] show ?thesis by (fastforce simp: returns_iff)
  qed (simp add: IPv4Header_parse_short)
  then show ?thesis by (auto simp: IPv4Datagram_parse_def Let_def)
qed

lemma IPv4Datagram_parse_unchecked:
  assumes "buf_ok buf" and s: "buf_str buf = be8 a @ be8 b @ be16 c @ be16 d @ be16 e @ be8 f @ be8 g @ be16 i @ be32 j @ be32 k @ rest"
    and a: "a AND 0x0f = 5" and c: "unat c = 20 + length rest"
  shows "returns (IPv4Datagram_parse dg buf) (\<lambda>(dg', r). r = NoError \<and>
    dg_header dg' = ip_fields (dg_header dg) a b c d e f g i j k)"
  unfolding IPv4Datagram_parse_def
proof (rule returns_bind [OF IPv4Header_parse_fields [OF s np_at_buffer [OF assms(1)]]], elim case_prodE conjE, goal_cases)
  case (1 x h y p r)
  have n: "ip_consumed a c (buf_str buf) = 20" unfolding ip_consumed_def using a by simp
  have "unat (ih_len h) = 4 * unat (ih_hlen h) + length rest"
    using 1(3) a c by (simp add: ip_fields_def)
  from payload_length_unat [OF this] 1 unat_lt(2) [of c] show ?case
    unfolding n using c by (simp add: BufferList_of_Buffer_def BufferList_size_eq np_at_def s)
qed

lemma IPv4Datagram_parse_one_buffer:
  assumes "ip_valid (dg_header dg) (length (concatenate (dg_payload dg)))"
    and "IPv4Datagram_serialize dg = Inr bl" and "buf_ok buf" and "buf_str buf = concatenate bl"
  shows "returns (IPv4Datagram_parse dg0 buf) (\<lambda>(dg', r). r = NoError \<and> dg_header dg' = dg_out (dg_header dg) \<and>
    (\<exists>b. dg_payload dg' = [b] \<and> buf_ok b \<and> buf_str b = concatenate (dg_payload dg)))"
proof -
  let ?out = "dg_out (dg_header dg)" and ?pay = "concatenate (dg_payload dg)"
  have same: "ih_len ?out = ih_len (dg_header dg)" "ih_hlen ?out = ih_hlen (dg_header dg)" "ih_ver ?out = ih_ver (dg_header dg)"
    by (simp_all add: dg_out_def)
  define s where "s = ip_fixed ?out @ replicate (4 * unat (ih_hlen ?out) - 20) 0"
  have ser: "IPv4Header_serialize ?out = Inr s"
    using assms(1) by (simp add: IPv4Header_serialize_eq same s_def ip_valid_def)
  have len: "unat (ih_len ?out) = 4 * unat (ih_hlen ?out) + length ?pay"
    using assms(1) by (simp add: ip_valid_def same)
  have "buf_str buf = s @ ?pay"
    using assms(2,4) unfolding IPv4Datagram_serialize_eq [OF assms(1)] by (auto simp: s_def same)
  then have at: "np_at (NetParser buf) (s @ ?pay)" using np_at_buffer [OF assms(3)] by simp
  show ?thesis
    unfolding IPv4Datagram_parse_def
  proof (rule returns_bind [OF ip.prs_law [OF dg_out_fits [OF assms(1)] ser at]], elim case_prodE conjE, goal_cases)
    case (1 x h y p r)
    have "length ?pay < U64" using len unat_lt(2) [of "ih_len ?out"] by simp
    then have "BufferList_size (BufferList_of_Buffer (np_buffer p)) = length ?pay"
      using 1(5) by (subst BufferList_size_eq) (simp_all add: BufferList_of_Buffer_def np_at_def)
    then show ?case
      using 1 payload_length_unat [OF len] by (auto simp: BufferList_of_Buffer_def np_at_def)
  qed
qed

lemma IPv4Datagram_parse_serialize:
  assumes "ip_valid (dg_header dg) (length (concatenate (dg_payload dg)))"
    and "IPv4Datagram_serialize dg = Inr bl" and "buf_ok buf" and "buf_str buf = concatenate bl"
  shows "returns (IPv4Datagram_parse dg0 buf) (\<lambda>(dg', r). r = NoError \<and> dg_header dg' = dg_out (dg_header dg) \<and>
    concatenate (dg_payload dg') = concatenate (dg_payload dg))"
  by (rule returns_mono [OF IPv4Datagram_parse_one_buffer [OF assms]]) auto

section \<open>Properties\<close>

text \<open>C27: A datagram survives the trip over the wire: \<open>serialize\<close> computes the header checksum, and \<open>parse\<close>
  gives back every header field and the payload, whatever the receiving object held before and
  in however many pieces the payload was.\<close>

theorem ipv4_datagram_roundtrip:
  assumes "ip_valid (dg_header dg) (length (concatenate (dg_payload dg)))"
  shows "returns (rbind (IPv4Datagram_serialize dg) (\<lambda>bl. IPv4Datagram_parse dg0 (Buffer (concatenate bl))))
    (\<lambda>(dg', r). r = NoError \<and> (\<exists>v. dg_header dg' = (dg_header dg)\<lparr>ih_cksum := v\<rparr>) \<and>
       concatenate (dg_payload dg') = concatenate (dg_payload dg))"
proof -
  have "returns (IPv4Datagram_parse dg0 (Buffer (concatenate bl))) (\<lambda>(dg', r). r = NoError \<and>
      dg_header dg' = dg_out (dg_header dg) \<and> concatenate (dg_payload dg') = concatenate (dg_payload dg))"
    if "IPv4Datagram_serialize dg = Inr bl" for bl
    using assms that by (rule IPv4Datagram_parse_serialize) simp_all
  then show ?thesis
    unfolding IPv4Datagram_serialize_eq [OF assms] by (fastforce simp: returns_iff dg_out_def)
qed

theorem ipv4_datagram_roundtrip_witness:
  "returns (rbind (IPv4Datagram_serialize \<lparr>dg_header = IPv4Header_default\<lparr>ih_len := 23, ih_src := 7\<rparr>, dg_payload = [Buffer [1], Buffer [2, 3]]\<rparr>)
      (\<lambda>bl. IPv4Datagram_parse IPv4Datagram_default (Buffer (concatenate bl))))
    (\<lambda>(dg', r). r = NoError \<and> (\<exists>v. dg_header dg' = IPv4Header_default\<lparr>ih_len := 23, ih_src := 7, ih_cksum := v\<rparr>) \<and>
       concatenate (dg_payload dg') = [1, 2, 3])"
  using ipv4_datagram_roundtrip [of "\<lparr>dg_header = IPv4Header_default\<lparr>ih_len := 23, ih_src := 7\<rparr>, dg_payload = [Buffer [1], Buffer [2, 3]]\<rparr>" IPv4Datagram_default]
  by (simp add: ip_valid_def IPv4Header_default_def IPv4Header_LENGTH_def)



text \<open>C33: \<open>IPv4Datagram::parse\<close> ignores what \<open>IPv4Header::parse\<close> reports. A datagram with a 20-byte header
  and the right total length is accepted with \<open>NoError\<close> whatever its version and its header checksum
  are, although the header parser refuses it as \<open>WrongIPVersion\<close> or \<open>BadChecksum\<close>.\<close>

theorem ipv4_datagram_unchecked:
  assumes "buf_ok buf" and "s = buf_str buf" and "20 \<le> length s" and "length s \<le> 65535"
    and "s ! 0 AND 0x0f = 5" and "be16 (of_nat (length s)) = take 2 (drop 2 s)"
  shows "returns (IPv4Header_parse h0 (NetParser buf)) (\<lambda>(_, _, r). r =
      (if drop_bit 4 (s ! 0) \<noteq> 4 then WrongIPVersion
       else if ck_value (ck_add (InternetChecksum 0) (take 20 s)) \<noteq> 0 then BadChecksum else NoError)) \<and>
    returns (IPv4Datagram_parse dg buf) (\<lambda>(_, r). r = NoError)"
proof -
  define c where "c = (of_nat (length s) :: u16)"
  obtain a b c' d e f g i j k rest where
    s: "s = be8 a @ be8 b @ be16 c' @ be16 d @ be16 e @ be8 f @ be8 g @ be16 i @ be32 j @ be32 k @ rest"
    using assms(3) by (rule ip_bytes_cases)
  have "be16 c' = be16 c" unfolding c_def assms(6) by (simp add: s be8_def be16_def)
  then have c: "c' = c" by simp
  have a: "s ! 0 = a" by (simp add: s be8_def)
  have uc: "unat c = length s" using assms(4) by (simp add: c_def unat_of_nat take_bit_eq_mod)
  have v: "ip_verdict a c s = (if drop_bit 4 a \<noteq> 4 then WrongIPVersion
       else if ck_value (ck_add (InternetChecksum 0) (take 20 s)) \<noteq> 0 then BadChecksum else NoError)"
    unfolding ip_verdict_def using assms(3,5) uc a by simp
  have n: "ip_consumed a c s = 20" unfolding ip_consumed_def using assms(5) a by simp
  have "np_at (NetParser buf) s" using np_at_buffer [OF assms(1)] assms(2) by simp
  note parsed = IPv4Header_parse_fields [OF s this, unfolded c v n]
  have "returns (IPv4Datagram_parse dg buf) (\<lambda>(_, r). r = NoError)"
  proof (rule returns_mono [OF IPv4Datagram_parse_unchecked])
    show "buf_str buf = be8 a @ be8 b @ be16 c @ be16 d @ be16 e @ be8 f @ be8 g @ be16 i @ be32 j @ be32 k @ rest"
      using s assms(2) c by simp
    show "unat c = 20 + length rest" using uc by (simp add: s)
  qed (use assms(1,5) a in auto)
  moreover have "returns (IPv4Header_parse h0 (NetParser buf)) (\<lambda>(_, _, r). r =
      (if drop_bit 4 a \<noteq> 4 then WrongIPVersion
       else if ck_value (ck_add (InternetChecksum 0) (take 20 s)) \<noteq> 0 then BadChecksum else NoError))"
    by (rule returns_mono [OF parsed]) auto
  ultimately show ?thesis unfolding a by blast
qed

theorem ipv4_datagram_unchecked_witness:
  "returns (IPv4Header_parse IPv4Header_default (NetParser (Buffer [0x65, 0, 0, 20, 0, 0, 0, 0, 0, 0, 0, 0, 0, 0, 0, 0, 0, 0, 0, 0])))
     (\<lambda>(_, _, r). r = WrongIPVersion) \<and>
   returns (IPv4Datagram_parse IPv4Datagram_default (Buffer [0x65, 0, 0, 20, 0, 0, 0, 0, 0, 0, 0, 0, 0, 0, 0, 0, 0, 0, 0, 0]))
     (\<lambda>(_, r). r = NoError)"
  using ipv4_datagram_unchecked [of "Buffer [0x65, 0, 0, 20, 0, 0, 0, 0, 0, 0, 0, 0, 0, 0, 0, 0, 0, 0, 0, 0]" _ IPv4Header_default IPv4Datagram_default]
  by (simp add: be16_def)

end
