(* ===== verification/Ethernet_ARP.thy ===== *)
theory Ethernet_ARP
  imports Net_Parser
begin

text \<open>
  \<^verbatim>\<open>libsponge/tcp_helpers/ethernet_header.{hh,cc}\<close>, \<^verbatim>\<open>ethernet_frame.{hh,cc}\<close> and \<^verbatim>\<open>arp_message.{hh,cc}\<close>: the
  Ethernet header and frame, and the ARP messages carried in frames.

  An Ethernet address, a \<open>std::array\<close> of six bytes, is a list of bytes; \<open>eth_ok\<close> says that it has six.
  \<open>EthernetHeader\<close> is an instance of \<open>header_codec\<close>.
\<close>

section \<open>Ethernet\<close>

type_synonym EthernetAddress = "u8 list"

definition eth_ok :: "EthernetAddress \<Rightarrow> bool" where
  "eth_ok a \<longleftrightarrow> length a = 6"

definition ETHERNET_BROADCAST :: EthernetAddress where
  "ETHERNET_BROADCAST = [0xff, 0xff, 0xff, 0xff, 0xff, 0xff]"

record EthernetHeader =
  eh_dst :: EthernetAddress
  eh_src :: EthernetAddress
  eh_type :: u16

definition EthernetHeader_LENGTH :: size_t where
  "EthernetHeader_LENGTH = 14"

definition TYPE_IPv4 :: u16 where
  "TYPE_IPv4 = 0x800"

definition TYPE_ARP :: u16 where
  "TYPE_ARP = 0x806"

definition EthernetHeader_default :: EthernetHeader where
  "EthernetHeader_default = \<lparr>eh_dst = replicate 6 0, eh_src = replicate 6 0, eh_type = 0\<rparr>"

text \<open>\<open>for (auto &byte : array) byte = p.u8();\<close>\<close>

fun parse_array :: "nat \<Rightarrow> net_parser \<Rightarrow> (net_parser \<times> u8 list) res" where
  "parse_array 0 p = Inr (p, [])"
| "parse_array (Suc n) p =
     rbind (parse_u8 p) (\<lambda>(p, b). rbind (parse_array n p) (\<lambda>(p, bs). Inr (p, b # bs)))"

text \<open>\<open>for (auto &byte : array) NetUnparser::u8(ret, byte);\<close>\<close>

definition unparse_array :: "bytes \<Rightarrow> u8 list \<Rightarrow> bytes" where
  "unparse_array ret a = foldl unparse_u8 ret a"

definition EthernetHeader_parse ::
  "EthernetHeader \<Rightarrow> net_parser \<Rightarrow> (EthernetHeader \<times> net_parser \<times> ParseResult) res" where
  "EthernetHeader_parse h p =
     (if buf_size (np_buffer p) < EthernetHeader_LENGTH then Inr (h, p, PacketTooShort)
      else rbind (parse_array 6 p) (\<lambda>(p, dst).
           rbind (parse_array 6 p) (\<lambda>(p, src).
           rbind (parse_u16 p) (\<lambda>(p, type).
             Inr (h\<lparr>eh_dst := dst, eh_src := src, eh_type := type\<rparr>, p, np_error p)))))"

definition EthernetHeader_serialize :: "EthernetHeader \<Rightarrow> bytes" where
  "EthernetHeader_serialize h =
     (let ret = [];
          ret = unparse_array ret (eh_dst h);
          ret = unparse_array ret (eh_src h)
      in unparse_u16 ret (eh_type h))"

record EthernetFrame =
  ef_header :: EthernetHeader
  ef_payload :: buffer_list

definition EthernetFrame_default :: EthernetFrame where
  "EthernetFrame_default = \<lparr>ef_header = EthernetHeader_default, ef_payload = []\<rparr>"

definition EthernetFrame_parse :: "EthernetFrame \<Rightarrow> buffer \<Rightarrow> (EthernetFrame \<times> ParseResult) res" where
  "EthernetFrame_parse f buf =
     rbind (EthernetHeader_parse (ef_header f) (NetParser buf)) (\<lambda>(h, p, _).
       Inr (f\<lparr>ef_header := h, ef_payload := BufferList_of_Buffer (np_buffer p)\<rparr>, np_error p))"

definition EthernetFrame_serialize :: "EthernetFrame \<Rightarrow> buffer_list" where
  "EthernetFrame_serialize f =
     BufferList_append (BufferList_append [] (BufferList_of_string (EthernetHeader_serialize (ef_header f))))
       (ef_payload f)"

section \<open>ARP\<close>

record ARPMessage =
  arp_hardware_type :: u16
  arp_protocol_type :: u16
  arp_hardware_address_size :: u8
  arp_protocol_address_size :: u8
  arp_opcode :: u16
  arp_sender_ethernet_address :: EthernetAddress
  arp_sender_ip_address :: u32
  arp_target_ethernet_address :: EthernetAddress
  arp_target_ip_address :: u32

definition ARPMessage_LENGTH :: size_t where
  "ARPMessage_LENGTH = 28"

definition TYPE_ETHERNET :: u16 where
  "TYPE_ETHERNET = 1"

definition OPCODE_REQUEST :: u16 where
  "OPCODE_REQUEST = 1"

definition OPCODE_REPLY :: u16 where
  "OPCODE_REPLY = 2"

definition ARPMessage_default :: ARPMessage where
  "ARPMessage_default =
     \<lparr>arp_hardware_type = TYPE_ETHERNET, arp_protocol_type = TYPE_IPv4, arp_hardware_address_size = 6,
      arp_protocol_address_size = 4, arp_opcode = 0,
      arp_sender_ethernet_address = replicate 6 0, arp_sender_ip_address = 0,
      arp_target_ethernet_address = replicate 6 0, arp_target_ip_address = 0\<rparr>"

definition arp_supported :: "ARPMessage \<Rightarrow> bool" where
  "arp_supported m \<longleftrightarrow> arp_hardware_type m = TYPE_ETHERNET \<and> arp_protocol_type m = TYPE_IPv4 \<and>
     arp_hardware_address_size m = 6 \<and> arp_protocol_address_size m = 4 \<and>
     (arp_opcode m = OPCODE_REQUEST \<or> arp_opcode m = OPCODE_REPLY)"

definition ARPMessage_parse :: "ARPMessage \<Rightarrow> buffer \<Rightarrow> (ARPMessage \<times> ParseResult) res" where
  "ARPMessage_parse m buf =
     (let p = NetParser buf
      in if buf_size (np_buffer p) < ARPMessage_LENGTH then Inr (m, PacketTooShort)
         else
     rbind (parse_u16 p) (\<lambda>(p, hardware_type).
     rbind (parse_u16 p) (\<lambda>(p, protocol_type).
     rbind (parse_u8 p) (\<lambda>(p, hardware_address_size).
     rbind (parse_u8 p) (\<lambda>(p, protocol_address_size).
     rbind (parse_u16 p) (\<lambda>(p, opcode).
       let m = m\<lparr>arp_hardware_type := hardware_type, arp_protocol_type := protocol_type,
                 arp_hardware_address_size := hardware_address_size,
                 arp_protocol_address_size := protocol_address_size, arp_opcode := opcode\<rparr>
       in if \<not> arp_supported m then Inr (m, Unsupported)
          else
     rbind (parse_array 6 p) (\<lambda>(p, sender_ethernet_address).
     rbind (parse_u32 p) (\<lambda>(p, sender_ip_address).
     rbind (parse_array 6 p) (\<lambda>(p, target_ethernet_address).
     rbind (parse_u32 p) (\<lambda>(p, target_ip_address).
       Inr (m\<lparr>arp_sender_ethernet_address := sender_ethernet_address,
              arp_sender_ip_address := sender_ip_address,
              arp_target_ethernet_address := target_ethernet_address,
              arp_target_ip_address := target_ip_address\<rparr>, np_error p)))))))))))"

definition ARPMessage_serialize :: "ARPMessage \<Rightarrow> bytes res" where
  "ARPMessage_serialize m =
     (if \<not> arp_supported m
      then Inl (RuntimeError ''ARPMessage::serialize(): unsupported field combination (must be Ethernet/IP, and request or reply)'')
      else let ret = [];
               ret = unparse_u16 ret (arp_hardware_type m);
               ret = unparse_u16 ret (arp_protocol_type m);
               ret = unparse_u8 ret (arp_hardware_address_size m);
               ret = unparse_u8 ret (arp_protocol_address_size m);
               ret = unparse_u16 ret (arp_opcode m);
               ret = unparse_array ret (arp_sender_ethernet_address m);
               ret = unparse_u32 ret (arp_sender_ip_address m);
               ret = unparse_array ret (arp_target_ethernet_address m);
               ret = unparse_u32 ret (arp_target_ip_address m)
           in Inr ret)"

section \<open>Lemmas\<close>

lemma unparse_array_eq [simp]: "unparse_array ret a = ret @ a"
  unfolding unparse_array_def by (induction a arbitrary: ret) (simp_all add: be8_def)

lemma parse_array_returns:
  "np_at p (a @ rest) \<Longrightarrow> returns (parse_array (length a) p) (\<lambda>(p', bs). np_at p' rest \<and> bs = a)"
proof (induction a arbitrary: p)
  case (Cons x a)
  then have "np_at p (be8 x @ a @ rest)" by (simp add: be8_def)
  then show ?case
    unfolding list.size parse_array.simps
    by (simp only: add_Suc_right add_0_right parse_array.simps, elim parse_u8_step, simp only: prod.case)
      (rule returns_bind [OF Cons.IH], assumption, auto)
qed simp

lemma parse_array_step:
  assumes "np_at p (a @ rest)" "length a = n" "\<And>p'. np_at p' rest \<Longrightarrow> returns (f (p', a)) Q"
  shows "returns (rbind (parse_array n p) f) Q"
  by (rule returns_bind [OF parse_array_returns [OF assms(1), unfolded assms(2)]]) (use assms(3) in auto)

definition eth_fits :: "EthernetHeader \<Rightarrow> bytes \<Rightarrow> bool" where
  "eth_fits h rest \<longleftrightarrow> eth_ok (eh_dst h) \<and> eth_ok (eh_src h)"

lemma EthernetHeader_serialize_eq: "EthernetHeader_serialize h = eh_dst h @ eh_src h @ be16 (eh_type h)"
  by (simp add: EthernetHeader_serialize_def)

lemma EthernetHeader_parse_fields:
  assumes p: "np_at p (d @ s @ be16 t @ rest)" and len: "length d = 6" "length s = 6"
  shows "returns (EthernetHeader_parse h0 p) (\<lambda>(h, p', r). h = h0\<lparr>eh_dst := d, eh_src := s, eh_type := t\<rparr> \<and>
    r = NoError \<and> np_at p' rest)"
proof -
  have "\<not> buf_size (np_buffer p) < EthernetHeader_LENGTH"
    using p len by (simp add: np_atD(2) EthernetHeader_LENGTH_def)
  then show ?thesis
    unfolding EthernetHeader_parse_def
    apply (simp only: if_False)
    apply (rule parse_array_step [OF p len(1)], simp only: prod.case)
    apply (erule parse_array_step [OF _ len(2)], simp only: prod.case)
    apply (erule parse_u16_step, simp add: np_at_def)
    done
qed

interpretation eth: header_codec eth_fits "\<lambda>h. Inr (EthernetHeader_serialize h)" EthernetHeader_parse
proof (unfold_locales, goal_cases)
  case (2 h rest s p h0)
  then have "np_at p (eh_dst h @ eh_src h @ be16 (eh_type h) @ rest)"
    by (auto simp: EthernetHeader_serialize_eq)
  then show ?case
    using 2(1) by (intro returns_mono [OF EthernetHeader_parse_fields]) (auto simp: eth_fits_def eth_ok_def)
qed simp

lemma EthernetFrame_parse_serialize:
  assumes "eth_ok (eh_dst (ef_header f))" "eth_ok (eh_src (ef_header f))"
  shows "returns (EthernetFrame_parse f0 (Buffer (concatenate (EthernetFrame_serialize f)))) (\<lambda>(f', r).
    r = NoError \<and> ef_header f' = ef_header f \<and> (\<exists>b. ef_payload f' = [b] \<and> buf_ok b) \<and>
    concatenate (ef_payload f') = concatenate (ef_payload f))"
proof -
  have c: "concatenate (EthernetFrame_serialize f) =
      EthernetHeader_serialize (ef_header f) @ concatenate (ef_payload f)"
    by (simp add: EthernetFrame_serialize_def)
  have "eth_fits (ef_header f) (concatenate (ef_payload f))" using assms by (simp add: eth_fits_def)
  then show ?thesis unfolding EthernetFrame_parse_def c
    by (rule returns_bind [OF eth.prs_law [OF _ refl np_at_NetParser]])
      (auto simp: BufferList_of_Buffer_def np_at_def)
qed

lemma ARPMessage_serialize_eq:
  "arp_supported m \<Longrightarrow> ARPMessage_serialize m = Inr (be16 (arp_hardware_type m) @ be16 (arp_protocol_type m) @
     be8 (arp_hardware_address_size m) @ be8 (arp_protocol_address_size m) @ be16 (arp_opcode m) @
     arp_sender_ethernet_address m @ be32 (arp_sender_ip_address m) @
     arp_target_ethernet_address m @ be32 (arp_target_ip_address m))"
  by (simp add: ARPMessage_serialize_def)

definition arp_header :: "ARPMessage \<Rightarrow> u16 \<Rightarrow> u16 \<Rightarrow> u8 \<Rightarrow> u8 \<Rightarrow> u16 \<Rightarrow> ARPMessage" where
  "arp_header m a b c d e = m\<lparr>arp_hardware_type := a, arp_protocol_type := b,
     arp_hardware_address_size := c, arp_protocol_address_size := d, arp_opcode := e\<rparr>"

lemma ARPMessage_parse_fields:
  assumes ok: "buf_ok buf" and
    s: "buf_str buf = be16 a @ be16 b @ be8 c @ be8 d @ be16 e @ sa @ be32 f @ ta @ be32 g @ rest"
    and len: "length sa = 6" "length ta = 6"
  shows "returns (ARPMessage_parse m buf) (\<lambda>(m', r).
    if arp_supported (arp_header m a b c d e)
    then r = NoError \<and> m' = (arp_header m a b c d e)\<lparr>arp_sender_ethernet_address := sa,
       arp_sender_ip_address := f, arp_target_ethernet_address := ta, arp_target_ip_address := g\<rparr>
    else r = Unsupported)"
proof -
  let ?Q = "\<lambda>(m', r).
    if arp_supported (arp_header m a b c d e)
    then r = NoError \<and> m' = (arp_header m a b c d e)\<lparr>arp_sender_ethernet_address := sa,
       arp_sender_ip_address := f, arp_target_ethernet_address := ta, arp_target_ip_address := g\<rparr>
    else r = Unsupported"
  have p: "np_at (NetParser buf) (be16 a @ be16 b @ be8 c @ be8 d @ be16 e @ sa @ be32 f @ ta @ be32 g @ rest)"
    using np_at_buffer [OF ok] unfolding s .
  have big: "\<not> buf_size (np_buffer (NetParser buf)) < ARPMessage_LENGTH"
    using np_atD(2) [OF p] len by (simp add: ARPMessage_LENGTH_def)
  have addresses: "returns (if \<not> arp_supported (arp_header m a b c d e) then Inr (arp_header m a b c d e, Unsupported)
      else rbind (parse_array 6 q) (\<lambda>(p, sender_ethernet_address).
        rbind (parse_u32 p) (\<lambda>(p, sender_ip_address).
        rbind (parse_array 6 p) (\<lambda>(p, target_ethernet_address).
        rbind (parse_u32 p) (\<lambda>(p, target_ip_address).
          Inr ((arp_header m a b c d e)\<lparr>arp_sender_ethernet_address := sender_ethernet_address,
              arp_sender_ip_address := sender_ip_address,
              arp_target_ethernet_address := target_ethernet_address,
              arp_target_ip_address := target_ip_address\<rparr>, np_error p)))))) ?Q"
    if q: "np_at q (sa @ be32 f @ ta @ be32 g @ rest)" for q
  proof (cases "arp_supported (arp_header m a b c d e)")
    case True
    then show ?thesis
      apply (simp only: not_True_eq_False if_False)
      apply (rule parse_array_step [OF q len(1)], simp only: prod.case)
      apply (erule parse_u32_step, simp only: prod.case)
      apply (erule parse_array_step [OF _ len(2)], simp only: prod.case)
      apply (erule parse_u32_step, simp add: np_at_def)
      done
  qed simp
  show ?thesis
    unfolding ARPMessage_parse_def Let_def if_not_P [OF big]
    apply (rule parse_u16_step [OF p], simp only: prod.case)
    apply (erule parse_steps, simp only: prod.case)+
    apply (drule addresses, simp only: arp_header_def)
    done
qed

lemma arp_bytes_cases:
  assumes "28 \<le> length s"
  obtains a b c d e sa f ta g rest where
    "s = be16 a @ be16 b @ be8 c @ be8 d @ be16 e @ sa @ be32 f @ ta @ be32 g @ rest" "length sa = 6" "length ta = 6"
proof -
  obtain a where a: "s = be16 a @ drop 2 s" using be_cases(2) [of s] assms by auto
  obtain b where b: "drop 2 s = be16 b @ drop 4 s" using be_at(2) [of 2 s] assms by auto
  obtain c where c: "drop 4 s = be8 c @ drop 5 s" using be_at(1) [of 4 s] assms by auto
  obtain d where d: "drop 5 s = be8 d @ drop 6 s" using be_at(1) [of 5 s] assms by auto
  obtain e where e: "drop 6 s = be16 e @ drop 8 s" using be_at(2) [of 6 s] assms by auto
  have sa: "drop 8 s = take 6 (drop 8 s) @ drop 14 s" using append_take_drop_id [of 6 "drop 8 s"] by simp
  obtain f where f: "drop 14 s = be32 f @ drop 18 s" using be_at(3) [of 14 s] assms by auto
  have ta: "drop 18 s = take 6 (drop 18 s) @ drop 24 s" using append_take_drop_id [of 6 "drop 18 s"] by simp
  obtain g where g: "drop 24 s = be32 g @ drop 28 s" using be_at(3) [of 24 s] assms by auto
  have "s = be16 a @ be16 b @ be8 c @ be8 d @ be16 e @ take 6 (drop 8 s) @ be32 f @ take 6 (drop 18 s) @ be32 g @ drop 28 s"
    by (subst a, subst b, subst c, subst d, subst e, subst sa, subst f, subst ta, subst g) (rule refl)
  moreover have "length (take 6 (drop 8 s)) = 6" "length (take 6 (drop 18 s)) = 6" using assms by simp_all
  ultimately show thesis by (rule that)
qed

lemma ARPMessage_parse_short:
  "length (buf_str buf) < 28 \<Longrightarrow> ARPMessage_parse m buf = Inr (m, PacketTooShort)"
  by (simp add: ARPMessage_parse_def NetParser_def ARPMessage_LENGTH_def)

lemma ARPMessage_parse_total: "buf_ok buf \<Longrightarrow> \<exists>m' r. ARPMessage_parse m buf = Inr (m', r)"
proof (cases "length (buf_str buf) < 28")
  case False
  assume ok: "buf_ok buf"
  from False have "28 \<le> length (buf_str buf)" by simp
  then obtain a b c d e sa f ta g rest where
    "buf_str buf = be16 a @ be16 b @ be8 c @ be8 d @ be16 e @ sa @ be32 f @ ta @ be32 g @ rest" "length sa = 6" "length ta = 6"
    by (rule arp_bytes_cases)
  from ARPMessage_parse_fields [OF ok this, of m] show ?thesis by (auto simp: returns_iff)
qed (simp add: ARPMessage_parse_short)

lemma ARPMessage_parse_serialize:
  assumes "arp_supported m" "eth_ok (arp_sender_ethernet_address m)" "eth_ok (arp_target_ethernet_address m)"
    and "ARPMessage_serialize m = Inr s" "buf_ok buf" "buf_str buf = s @ rest"
  shows "ARPMessage_parse m0 buf = Inr (m, NoError)"
proof -
  have same: "arp_header m0 (arp_hardware_type m) (arp_protocol_type m) (arp_hardware_address_size m)
      (arp_protocol_address_size m) (arp_opcode m)\<lparr>arp_sender_ethernet_address := arp_sender_ethernet_address m,
       arp_sender_ip_address := arp_sender_ip_address m, arp_target_ethernet_address := arp_target_ethernet_address m,
       arp_target_ip_address := arp_target_ip_address m\<rparr> = m"
    by (cases m; cases m0) (simp add: arp_header_def)
  have "buf_str buf = be16 (arp_hardware_type m) @ be16 (arp_protocol_type m) @
     be8 (arp_hardware_address_size m) @ be8 (arp_protocol_address_size m) @ be16 (arp_opcode m) @
     arp_sender_ethernet_address m @ be32 (arp_sender_ip_address m) @
     arp_target_ethernet_address m @ be32 (arp_target_ip_address m) @ rest"
    using assms(4,6) by (simp add: ARPMessage_serialize_eq [OF assms(1)] flip: append_assoc)
  from ARPMessage_parse_fields [OF assms(5) this, of m0] assms(1-3) show ?thesis
    unfolding same by (auto simp: eth_ok_def returns_iff arp_supported_def arp_header_def)
qed

section \<open>Properties\<close>

text \<open>C28: An Ethernet frame survives the trip over the wire: header and payload come back, in however many
  pieces the payload was sent.\<close>

theorem ethernet_frame_roundtrip:
  assumes "eth_ok (eh_dst (ef_header f))" and "eth_ok (eh_src (ef_header f))"
  shows "returns (EthernetFrame_parse f0 (Buffer (concatenate (EthernetFrame_serialize f)))) (\<lambda>(f', r).
    r = NoError \<and> ef_header f' = ef_header f \<and> concatenate (ef_payload f') = concatenate (ef_payload f))"
  by (rule returns_mono [OF EthernetFrame_parse_serialize [OF assms]]) auto

theorem ethernet_frame_roundtrip_witness:
  "returns (EthernetFrame_parse EthernetFrame_default (Buffer (concatenate (EthernetFrame_serialize
      \<lparr>ef_header = \<lparr>eh_dst = ETHERNET_BROADCAST, eh_src = [1, 2, 3, 4, 5, 6], eh_type = TYPE_ARP\<rparr>, ef_payload = [Buffer [7], Buffer [8, 9]]\<rparr>))))
    (\<lambda>(f', r). r = NoError \<and> ef_header f' = \<lparr>eh_dst = ETHERNET_BROADCAST, eh_src = [1, 2, 3, 4, 5, 6], eh_type = TYPE_ARP\<rparr> \<and>
      concatenate (ef_payload f') = [7, 8, 9])"
  using ethernet_frame_roundtrip [of "\<lparr>ef_header = \<lparr>eh_dst = ETHERNET_BROADCAST, eh_src = [1, 2, 3, 4, 5, 6], eh_type = TYPE_ARP\<rparr>, ef_payload = [Buffer [7], Buffer [8, 9]]\<rparr>" EthernetFrame_default]
  by (simp add: eth_ok_def ETHERNET_BROADCAST_def)

text \<open>C29: An ARP message survives the trip over the wire, also when the frame pads it with further bytes.\<close>

theorem arp_roundtrip:
  assumes "arp_supported m" and "eth_ok (arp_sender_ethernet_address m)" and "eth_ok (arp_target_ethernet_address m)"
  shows "\<exists>s. ARPMessage_serialize m = Inr s \<and> length s = ARPMessage_LENGTH \<and>
    ARPMessage_parse m0 (Buffer (s @ padding)) = Inr (m, NoError)"
proof -
  obtain s where s: "ARPMessage_serialize m = Inr s" "length s = ARPMessage_LENGTH"
    using assms by (simp add: ARPMessage_serialize_eq eth_ok_def ARPMessage_LENGTH_def)
  then show ?thesis using ARPMessage_parse_serialize [OF assms s(1), of "Buffer (s @ padding)"] by simp
qed

theorem arp_roundtrip_witness:
  "\<exists>s. ARPMessage_serialize (ARPMessage_default\<lparr>arp_opcode := OPCODE_REPLY, arp_sender_ip_address := 9\<rparr>) = Inr s \<and>
    length s = ARPMessage_LENGTH \<and>
    ARPMessage_parse ARPMessage_default (Buffer (s @ [0, 0])) =
      Inr (ARPMessage_default\<lparr>arp_opcode := OPCODE_REPLY, arp_sender_ip_address := 9\<rparr>, NoError)"
  by (rule arp_roundtrip) (simp_all add: arp_supported_def ARPMessage_default_def eth_ok_def)

text \<open>\<open>ARPMessage::parse\<close> of any bytes never throws: fewer than 28 bytes are \<open>PacketTooShort\<close>, and otherwise
  it succeeds exactly on IPv4-over-Ethernet requests and replies, with six-byte addresses, and
  reports \<open>Unsupported\<close> on everything else.\<close>

theorem arp_parse_correct:
  assumes "buf_ok buf" and "s = buf_str buf"
  shows "returns (ARPMessage_parse m buf) (\<lambda>(m', r).
    if length s < 28 then r = PacketTooShort \<and> m' = m
    else if take 6 s = [0, 1, 8, 0, 6, 4] \<and> take 2 (drop 6 s) \<in> {[0, 1], [0, 2]}
    then r = NoError \<and> arp_supported m' \<and> arp_sender_ethernet_address m' = take 6 (drop 8 s) \<and>
      arp_target_ethernet_address m' = take 6 (drop 18 s)
    else r = Unsupported)"
proof (cases "length s < 28")
  case True
  then show ?thesis using ARPMessage_parse_short [of buf m] by (simp add: assms(2))
next
  case False
  then have "28 \<le> length s" by simp
  then obtain a b c d e sa f ta g rest where
    s: "s = be16 a @ be16 b @ be8 c @ be8 d @ be16 e @ sa @ be32 f @ ta @ be32 g @ rest" and
    len: "length sa = 6" "length ta = 6"
    by (rule arp_bytes_cases)
  have w: "[0, 1] = be16 1" "[8, 0] = be16 0x800" "[0, 2] = be16 2" "[0, 1, 8, 0, 6, 4] = be16 1 @ be16 0x800 @ be8 6 @ be8 4"
    by (simp_all add: be16_def be8_def)
  have t6: "take 6 s = be16 a @ be16 b @ be8 c @ be8 d" by (simp add: s)
  have d6: "take 2 (drop 6 s) = be16 e" by (simp add: s)
  have sup: "arp_supported (arp_header m a b c d e) \<longleftrightarrow>
      take 6 s = [0, 1, 8, 0, 6, 4] \<and> take 2 (drop 6 s) \<in> {[0, 1], [0, 2]}"
    unfolding t6 d6 w
    by (auto simp: arp_supported_def arp_header_def TYPE_ETHERNET_def TYPE_IPv4_def OPCODE_REQUEST_def OPCODE_REPLY_def be8_def)
  have adr: "take 6 (drop 8 s) = sa" "take 6 (drop 18 s) = ta" using len by (simp_all add: s)
  show ?thesis
    using False unfolding sup [symmetric] adr
    by (intro returns_mono [OF ARPMessage_parse_fields [OF assms(1) s [unfolded assms(2)] len]])
      (auto split: if_splits simp: arp_supported_def arp_header_def)
qed

theorem arp_parse_correct_witness:
  "returns (ARPMessage_parse ARPMessage_default (Buffer [0, 1, 8, 0])) (\<lambda>(m', r). r = PacketTooShort \<and> m' = ARPMessage_default)"
  using arp_parse_correct [of "Buffer [0, 1, 8, 0]" _ ARPMessage_default] by simp

text \<open>\<open>EthernetFrame::parse\<close> ignores the verdict of the header parser, which has not touched the
  parser's error flag: fewer bytes than an Ethernet header are accepted with \<open>NoError\<close>, the header
  left as it was and all the bytes taken for payload.\<close>

theorem ethernet_short_frame_accepted:
  assumes "length (buf_str buf) < 14"
  shows "EthernetFrame_parse f buf = Inr (f\<lparr>ef_payload := [buf]\<rparr>, NoError)"
  using assms by (simp add: EthernetFrame_parse_def EthernetHeader_parse_def NetParser_def
      EthernetHeader_LENGTH_def BufferList_of_Buffer_def)

theorem ethernet_short_frame_accepted_witness:
  "EthernetFrame_parse EthernetFrame_default (Buffer [1, 2, 3]) = Inr (EthernetFrame_default\<lparr>ef_payload := [Buffer [1, 2, 3]]\<rparr>, NoError)"
  by (rule ethernet_short_frame_accepted) simp

end
