(* ===== verification/Network_Interface.thy ===== *)
theory Network_Interface
  imports Net_Address IPv4_Datagram Ethernet_ARP "HOL-Library.AList" "HOL-Library.Multiset"
begin

text \<open>
  \<^verbatim>\<open>libsponge/network_interface.hh\<close> and \<^verbatim>\<open>.cc\<close>: a network interface that carries IPv4 datagrams over
  Ethernet and resolves the next hop with ARP. The three maps are association lists with one
  entry per key: what is known of other hosts, with the time it was learnt; the addresses asked
  for, with the time of the first request; and the datagrams that wait for an answer.

  \<open>ni_inv n taken given\<close> is the bookkeeping invariant of an interface from which the frames \<open>taken\<close> have
  been taken and to which the datagrams \<open>given\<close> have been handed: every one of them is in exactly one
  IPv4 frame or waits in exactly one place.
\<close>

section \<open>Operations\<close>

definition ARP_TIME_LIMIT :: size_t where
  "ARP_TIME_LIMIT = 5000"

definition IP_TO_ETHERNET_LIMIT :: size_t where
  "IP_TO_ETHERNET_LIMIT = 30000"

definition EMPTY_ADDRESS :: EthernetAddress where
  "EMPTY_ADDRESS = [0, 0, 0, 0, 0, 0]"

record network_interface =
  ni_ethernet_address :: EthernetAddress
  ni_ip_address :: Address
  ni_frames_out :: "EthernetFrame list"
  ni_map :: "(u32 \<times> EthernetAddress \<times> size_t) list"
  ni_already_sent_arp :: "(u32 \<times> size_t) list"
  ni_buffer :: "(u32 \<times> IPv4Datagram list) list"
  ni_ms_since_last_tick :: size_t

text \<open>\<open>emplace\<close> of the maps of the C++ library: an existing entry stays as it is.\<close>

definition emplace :: "'k \<Rightarrow> 'v \<Rightarrow> ('k \<times> 'v) list \<Rightarrow> ('k \<times> 'v) list" where
  "emplace k v m = (if map_of m k = None then m @ [(k, v)] else m)"

definition NetworkInterface :: "getnameinfo_fn \<Rightarrow> EthernetAddress \<Rightarrow> Address \<Rightarrow> network_interface res" where
  "NetworkInterface gni ethernet_address ip_address =
     rbind (ip_port gni ip_address) (\<lambda>_.
       Inr \<lparr>ni_ethernet_address = ethernet_address, ni_ip_address = ip_address, ni_frames_out = [], ni_map = [],
            ni_already_sent_arp = [], ni_buffer = [], ni_ms_since_last_tick = 0\<rparr>)"

definition generate_ip_frame :: "network_interface \<Rightarrow> EthernetAddress \<Rightarrow> IPv4Datagram \<Rightarrow> EthernetFrame res" where
  "generate_ip_frame n dst payload =
     rbind (IPv4Datagram_serialize payload) (\<lambda>bl.
       Inr (EthernetFrame_default\<lparr>ef_payload := bl,
         ef_header := EthernetHeader_default\<lparr>eh_dst := dst, eh_src := ni_ethernet_address n, eh_type := TYPE_IPv4\<rparr>\<rparr>))"

definition generate_arp_frame :: "network_interface \<Rightarrow> EthernetAddress \<Rightarrow> u32 \<Rightarrow> u16 \<Rightarrow> EthernetFrame res" where
  "generate_arp_frame n dst ip_address opcode =
     rbind (ipv4_numeric (ni_ip_address n)) (\<lambda>my_ip.
       let msg = ARPMessage_default\<lparr>arp_opcode := opcode, arp_sender_ip_address := my_ip,
             arp_sender_ethernet_address := ni_ethernet_address n, arp_target_ethernet_address := dst,
             arp_target_ip_address := ip_address\<rparr>
       in rbind (ARPMessage_serialize msg) (\<lambda>s.
            Inr (EthernetFrame_default\<lparr>ef_payload := BufferList_of_string s,
              ef_header := EthernetHeader_default\<lparr>eh_dst := (if dst = EMPTY_ADDRESS then ETHERNET_BROADCAST else dst),
                eh_src := ni_ethernet_address n, eh_type := TYPE_ARP\<rparr>\<rparr>)))"

definition ni_emit :: "network_interface \<Rightarrow> EthernetFrame \<Rightarrow> network_interface" where
  "ni_emit n f = n\<lparr>ni_frames_out := ni_frames_out n @ [f]\<rparr>"

definition ask_and_buffer :: "network_interface \<Rightarrow> IPv4Datagram \<Rightarrow> u32 \<Rightarrow> network_interface res" where
  "ask_and_buffer n dgram next_hop_ip =
     (let ask = (case map_of (ni_already_sent_arp n) next_hop_ip of
                   None \<Rightarrow> True
                 | Some t \<Rightarrow> ARP_TIME_LIMIT \<le> u64_sub (ni_ms_since_last_tick n) t)
      in rbind (if ask then rbind (generate_arp_frame n EMPTY_ADDRESS next_hop_ip OPCODE_REQUEST) (\<lambda>f.
                  Inr ((ni_emit n f)\<lparr>ni_already_sent_arp :=
                    emplace next_hop_ip (ni_ms_since_last_tick n) (ni_already_sent_arp n)\<rparr>))
                else Inr n) (\<lambda>n.
           let waiting = (case map_of (ni_buffer n) next_hop_ip of Some l \<Rightarrow> l | None \<Rightarrow> [])
           in Inr (n\<lparr>ni_buffer := AList.update next_hop_ip (waiting @ [dgram]) (ni_buffer n)\<rparr>)))"

definition send_datagram :: "network_interface \<Rightarrow> IPv4Datagram \<Rightarrow> Address \<Rightarrow> network_interface res" where
  "send_datagram n dgram next_hop =
     rbind (ipv4_numeric next_hop) (\<lambda>next_hop_ip.
       case map_of (ni_map n) next_hop_ip of
         Some (dst, t) \<Rightarrow>
           if u64_sub (ni_ms_since_last_tick n) t < IP_TO_ETHERNET_LIMIT
           then rbind (generate_ip_frame n dst dgram) (\<lambda>f. Inr (ni_emit n f))
           else ask_and_buffer n dgram next_hop_ip
       | None \<Rightarrow> ask_and_buffer n dgram next_hop_ip)"

fun emit_all :: "network_interface \<Rightarrow> EthernetAddress \<Rightarrow> IPv4Datagram list \<Rightarrow> network_interface res" where
  "emit_all n dst [] = Inr n"
| "emit_all n dst (d # ds) = rbind (generate_ip_frame n dst d) (\<lambda>f. emit_all (ni_emit n f) dst ds)"

definition arp_received :: "network_interface \<Rightarrow> ARPMessage \<Rightarrow> network_interface res" where
  "arp_received n msg =
     (let ip = arp_sender_ip_address msg; mac = arp_sender_ethernet_address msg;
          n = n\<lparr>ni_map := emplace ip (mac, ni_ms_since_last_tick n) (ni_map n)\<rparr>
      in rbind (case map_of (ni_buffer n) ip of
                  Some ds \<Rightarrow> rbind (emit_all n mac ds) (\<lambda>n. Inr (n\<lparr>ni_buffer := AList.delete ip (ni_buffer n)\<rparr>))
                | None \<Rightarrow> Inr n) (\<lambda>n.
           if arp_target_ethernet_address msg = EMPTY_ADDRESS
           then rbind (ipv4_numeric (ni_ip_address n)) (\<lambda>my_ip.
                  if arp_target_ip_address msg = my_ip
                  then rbind (generate_arp_frame n mac ip OPCODE_REPLY) (\<lambda>f. Inr (ni_emit n f))
                  else Inr n)
           else Inr n))"

definition recv_frame :: "network_interface \<Rightarrow> EthernetFrame \<Rightarrow> (network_interface \<times> IPv4Datagram option) res" where
  "recv_frame n frame =
     (let header = ef_header frame
      in if eh_dst header \<noteq> ni_ethernet_address n \<and> eh_dst header \<noteq> ETHERNET_BROADCAST then Inr (n, None)
         else if eh_type header = TYPE_IPv4 then
           rbind (BufferList_to_Buffer (ef_payload frame)) (\<lambda>b.
             rbind (IPv4Datagram_parse IPv4Datagram_default b) (\<lambda>(dgram, r).
               Inr (n, if r = NoError then Some dgram else None)))
         else if eh_type header = TYPE_ARP then
           rbind (BufferList_to_Buffer (ef_payload frame)) (\<lambda>b.
             rbind (ARPMessage_parse ARPMessage_default b) (\<lambda>(msg, r).
               if r = NoError then rbind (arp_received n msg) (\<lambda>n. Inr (n, None)) else Inr (n, None)))
         else Inr (n, None))"

definition NetworkInterface_tick :: "network_interface \<Rightarrow> size_t \<Rightarrow> network_interface" where
  "NetworkInterface_tick n ms_since_last_tick =
     n\<lparr>ni_ms_since_last_tick := u64_add (ni_ms_since_last_tick n) ms_since_last_tick\<rparr>"

section \<open>The frames an interface generates\<close>

definition ip_frame :: "EthernetAddress \<Rightarrow> EthernetAddress \<Rightarrow> buffer_list \<Rightarrow> EthernetFrame" where
  "ip_frame src dst bl = \<lparr>ef_header = \<lparr>eh_dst = dst, eh_src = src, eh_type = TYPE_IPv4\<rparr>, ef_payload = bl\<rparr>"

definition arp_message :: "EthernetAddress \<Rightarrow> u32 \<Rightarrow> EthernetAddress \<Rightarrow> u32 \<Rightarrow> u16 \<Rightarrow> ARPMessage" where
  "arp_message mac ip dst dst_ip opcode = ARPMessage_default\<lparr>arp_opcode := opcode, arp_sender_ip_address := ip,
     arp_sender_ethernet_address := mac, arp_target_ethernet_address := dst, arp_target_ip_address := dst_ip\<rparr>"

lemma generate_ip_frame_eq:
  "generate_ip_frame n dst d = rbind (IPv4Datagram_serialize d) (\<lambda>bl. Inr (ip_frame (ni_ethernet_address n) dst bl))"
  by (simp add: generate_ip_frame_def ip_frame_def EthernetFrame_default_def EthernetHeader_default_def)

lemma generate_arp_frame_eq:
  assumes "ipv4_numeric (ni_ip_address n) = Inr ip" and "opcode = OPCODE_REQUEST \<or> opcode = OPCODE_REPLY"
  shows "\<exists>s. ARPMessage_serialize (arp_message (ni_ethernet_address n) ip dst dst_ip opcode) = Inr s \<and>
    generate_arp_frame n dst dst_ip opcode =
      Inr \<lparr>ef_header = \<lparr>eh_dst = (if dst = EMPTY_ADDRESS then ETHERNET_BROADCAST else dst),
             eh_src = ni_ethernet_address n, eh_type = TYPE_ARP\<rparr>, ef_payload = [Buffer s]\<rparr>"
proof -
  have "arp_supported (arp_message (ni_ethernet_address n) ip dst dst_ip opcode)"
    using assms(2) by (auto simp: arp_message_def arp_supported_def ARPMessage_default_def)
  from ARPMessage_serialize_eq [OF this] show ?thesis
    using assms(1) by (simp add: generate_arp_frame_def arp_message_def EthernetFrame_default_def
        EthernetHeader_default_def Let_def)
qed

lemma arp_frame_header:
  "generate_arp_frame n dst ip op = Inr f \<Longrightarrow> eh_src (ef_header f) = ni_ethernet_address n \<and> eh_type (ef_header f) = TYPE_ARP"
  by (auto simp: generate_arp_frame_def rbind_Inr_iff Let_def)

lemma ip_frame_header [simp]:
  "eh_src (ef_header (ip_frame src dst bl)) = src" "eh_type (ef_header (ip_frame src dst bl)) = TYPE_IPv4"
  "eh_dst (ef_header (ip_frame src dst bl)) = dst" "ef_payload (ip_frame src dst bl) = bl"
  by (simp_all add: ip_frame_def)

lemma ni_emit_fields [simp]:
  "ni_frames_out (ni_emit n f) = ni_frames_out n @ [f]" "ni_ethernet_address (ni_emit n f) = ni_ethernet_address n"
  "ni_ip_address (ni_emit n f) = ni_ip_address n" "ni_map (ni_emit n f) = ni_map n" "ni_buffer (ni_emit n f) = ni_buffer n"
  "ni_already_sent_arp (ni_emit n f) = ni_already_sent_arp n" "ni_ms_since_last_tick (ni_emit n f) = ni_ms_since_last_tick n"
  by (simp_all add: ni_emit_def)

section \<open>Frames on the wire\<close>

text \<open>An ARP frame, and a frame whose payload has been put in one piece.\<close>

definition arp_bytes :: "ARPMessage \<Rightarrow> bytes" where
  "arp_bytes m = (case ARPMessage_serialize m of Inr s \<Rightarrow> s | Inl _ \<Rightarrow> [])"

definition arp_frame :: "EthernetAddress \<Rightarrow> u32 \<Rightarrow> EthernetAddress \<Rightarrow> u32 \<Rightarrow> u16 \<Rightarrow> EthernetFrame" where
  "arp_frame mac ip dst dst_ip opcode =
     \<lparr>ef_header = \<lparr>eh_dst = (if dst = EMPTY_ADDRESS then ETHERNET_BROADCAST else dst), eh_src = mac, eh_type = TYPE_ARP\<rparr>,
      ef_payload = [Buffer (arp_bytes (arp_message mac ip dst dst_ip opcode))]\<rparr>"

definition flat :: "EthernetFrame \<Rightarrow> EthernetFrame" where
  "flat f = f\<lparr>ef_payload := BufferList_of_string (concatenate (ef_payload f))\<rparr>"

definition dg_same :: "IPv4Datagram \<Rightarrow> IPv4Datagram \<Rightarrow> bool" where
  "dg_same d d' \<longleftrightarrow> dg_header d' = dg_out (dg_header d) \<and> concatenate (dg_payload d') = concatenate (dg_payload d)"

lemma generate_arp_frame_is:
  assumes "ipv4_numeric (ni_ip_address n) = Inr ip" and "opcode = OPCODE_REQUEST \<or> opcode = OPCODE_REPLY"
  shows "generate_arp_frame n dst dst_ip opcode = Inr (arp_frame (ni_ethernet_address n) ip dst dst_ip opcode)"
  using generate_arp_frame_eq [OF assms, of dst dst_ip] by (auto simp: arp_frame_def arp_bytes_def)

lemma recv_arp_frame:
  assumes "eth_ok mac" "eth_ok dst" and "opcode = OPCODE_REQUEST \<or> opcode = OPCODE_REPLY"
    and "dst = EMPTY_ADDRESS \<or> dst = ni_ethernet_address n"
  shows "recv_frame n (flat (arp_frame mac ip dst dst_ip opcode)) =
    rbind (arp_received n (arp_message mac ip dst dst_ip opcode)) (\<lambda>n. Inr (n, None))"
proof -
  let ?m = "arp_message mac ip dst dst_ip opcode"
  have sup: "arp_supported ?m" using assms(3) by (auto simp: arp_message_def arp_supported_def ARPMessage_default_def)
  have f: "eth_ok (arp_sender_ethernet_address ?m)" "eth_ok (arp_target_ethernet_address ?m)"
    using assms(1,2) by (simp_all add: arp_message_def)
  have "ARPMessage_serialize ?m = Inr (arp_bytes ?m)" by (simp add: arp_bytes_def ARPMessage_serialize_eq [OF sup])
  from ARPMessage_parse_serialize [OF sup f this, of "Buffer (arp_bytes ?m)" "[]"]
  have p: "ARPMessage_parse ARPMessage_default (Buffer (arp_bytes ?m)) = Inr (?m, NoError)" by simp
  have t: "TYPE_ARP \<noteq> TYPE_IPv4" by (simp add: TYPE_ARP_def TYPE_IPv4_def)
  show ?thesis
    using assms(4) t p by (auto simp: recv_frame_def flat_def arp_frame_def BufferList_of_string_def BufferList_to_Buffer_def)
qed

lemma recv_ip_frame:
  assumes "dg_header d = h" and "ip_valid h (length (concatenate (dg_payload d)))" and "IPv4Datagram_serialize d = Inr bl"
  shows "\<exists>d'. recv_frame n (flat (ip_frame src (ni_ethernet_address n) bl)) = Inr (n, Some d') \<and> dg_same d d'"
proof -
  have "returns (IPv4Datagram_parse IPv4Datagram_default (Buffer (concatenate bl)))
      (\<lambda>(d', r). r = NoError \<and> dg_same d d')"
    unfolding dg_same_def using assms IPv4Datagram_parse_serialize [of d bl "Buffer (concatenate bl)"] by auto
  then obtain d' where "IPv4Datagram_parse IPv4Datagram_default (Buffer (concatenate bl)) = Inr (d', NoError)" "dg_same d d'"
    by (auto simp: returns_iff)
  then show ?thesis
    by (auto simp: recv_frame_def flat_def ip_frame_def BufferList_of_string_def BufferList_to_Buffer_def)
qed

lemma recv_other_frame:
  "eh_dst (ef_header f) \<noteq> ni_ethernet_address n \<Longrightarrow> eh_dst (ef_header f) \<noteq> ETHERNET_BROADCAST \<Longrightarrow> recv_frame n f = Inr (n, None)"
  by (simp add: recv_frame_def)

section \<open>Bookkeeping\<close>

definition dg_ok :: "IPv4Datagram \<Rightarrow> bool" where
  "dg_ok d \<longleftrightarrow> ip_valid (dg_header d) (length (concatenate (dg_payload d)))"

definition is_ipv4 :: "Address \<Rightarrow> bool" where
  "is_ipv4 a \<longleftrightarrow> (\<exists>ip. ipv4_numeric a = Inr ip)"

definition frame_ok :: "EthernetFrame \<Rightarrow> bool" where
  "frame_ok f \<longleftrightarrow> length (ef_payload f) \<le> 1 \<and> list_all buf_ok (ef_payload f)"

definition ip_payloads :: "EthernetFrame list \<Rightarrow> buffer_list list" where
  "ip_payloads fs = map ef_payload (filter (\<lambda>f. eh_type (ef_header f) = TYPE_IPv4) fs)"

definition waiting_all :: "(u32 \<times> IPv4Datagram list) list \<Rightarrow> IPv4Datagram list" where
  "waiting_all b = concat (map snd b)"

definition keys_of :: "('k \<times> 'v) list \<Rightarrow> 'k set" where
  "keys_of m = set (map fst m)"

definition ni_inv :: "EthernetAddress \<Rightarrow> Address \<Rightarrow> network_interface \<Rightarrow> EthernetFrame list \<Rightarrow> IPv4Datagram list \<Rightarrow> bool" where
  "ni_inv mac addr n taken given \<longleftrightarrow> ni_ethernet_address n = mac \<and> ni_ip_address n = addr \<and>
     distinct (map fst (ni_buffer n)) \<and> keys_of (ni_buffer n) \<subseteq> keys_of (ni_already_sent_arp n) \<and>
     (\<forall>f \<in> set (taken @ ni_frames_out n). eh_src (ef_header f) = mac) \<and> list_all dg_ok (waiting_all (ni_buffer n)) \<and>
     mset (map Inr (ip_payloads (taken @ ni_frames_out n))) + mset (map IPv4Datagram_serialize (waiting_all (ni_buffer n))) =
       mset (map IPv4Datagram_serialize given)"

lemma dg_ok_serialize: "dg_ok d \<Longrightarrow> \<exists>bl. IPv4Datagram_serialize d = Inr bl"
  using IPv4Datagram_serialize_eq by (auto simp: dg_ok_def)

lemma ip_payloads_simps [simp]:
  "ip_payloads [] = []" "ip_payloads (xs @ ys) = ip_payloads xs @ ip_payloads ys"
  "eh_type (ef_header f) = TYPE_ARP \<Longrightarrow> ip_payloads [f] = []" "ip_payloads [ip_frame src dst bl] = [bl]"
  "ip_payloads (map (ip_frame src dst) bls) = bls"
  by (simp_all add: ip_payloads_def TYPE_ARP_def TYPE_IPv4_def filter_map comp_def ip_frame_def)

lemma keys_of_simps [simp]:
  "keys_of [] = {}" "keys_of (emplace k v m) = insert k (keys_of m)" "keys_of (AList.update k v m) = insert k (keys_of m)"
  "keys_of (AList.delete k m) = keys_of m - {k}"
  by (auto simp: keys_of_def emplace_def map_of_eq_None_iff image_iff dom_update AList.delete_eq)

lemma map_of_keys: "map_of m k = Some v \<Longrightarrow> k \<in> keys_of m"
  by (force simp: keys_of_def dest: map_of_SomeD)

lemma waiting_update:
  assumes "distinct (map fst b)"
  shows "mset (waiting_all (AList.update k ((case map_of b k of Some l \<Rightarrow> l | None \<Rightarrow> []) @ [d]) b)) =
    add_mset d (mset (waiting_all b))"
  using assms by (induction b) (auto simp: waiting_all_def split: option.splits)

lemma waiting_delete:
  assumes "distinct (map fst b)" and "map_of b k = Some l"
  shows "mset (waiting_all (AList.delete k b)) + mset l = mset (waiting_all b)"
  using assms
proof (induction b)
  case (Cons p b)
  show ?case
  proof (cases "fst p = k")
    case True
    then have "k \<notin> fst ` set b" "l = snd p" using Cons.prems by (auto simp: image_iff)
    moreover from this(1) have "AList.delete k b = b" by (force simp: AList.delete_eq filter_id_conv)
    ultimately show ?thesis using True by (cases p) (simp add: waiting_all_def)
  next
    case False
    then show ?thesis using Cons by (cases p) (auto simp: waiting_all_def)
  qed
qed simp

lemma list_all_mset: "mset xs = mset ys \<Longrightarrow> list_all P xs = list_all P ys"
  by (metis list_all_iff set_mset_mset)

lemma ni_inv_emit:
  "ni_inv mac addr n taken given \<Longrightarrow> eh_src (ef_header f) = mac \<Longrightarrow> eh_type (ef_header f) = TYPE_ARP \<Longrightarrow>
     ni_inv mac addr (ni_emit n f) taken given"
  "ni_inv mac addr n taken given \<Longrightarrow> IPv4Datagram_serialize d = Inr bl \<Longrightarrow>
     ni_inv mac addr (ni_emit n (ip_frame mac dst bl)) taken (given @ [d])"
  by (auto simp: ni_inv_def)

lemma generate_arp_frame_returns:
  assumes "ni_inv mac addr n taken given" and "is_ipv4 addr" and "opcode = OPCODE_REQUEST \<or> opcode = OPCODE_REPLY"
  shows "\<exists>f. generate_arp_frame n dst ip opcode = Inr f \<and> eh_src (ef_header f) = mac \<and> eh_type (ef_header f) = TYPE_ARP"
  using generate_arp_frame_eq [OF _ assms(3), of n] assms(1,2) by (fastforce simp: ni_inv_def is_ipv4_def)

lemma ask_and_buffer_inv:
  assumes inv: "ni_inv mac addr n taken given" and addr: "is_ipv4 addr" and d: "dg_ok d"
  shows "returns (ask_and_buffer n d ip) (\<lambda>n'. ni_inv mac addr n' taken (given @ [d]))"
  unfolding ask_and_buffer_def Let_def
proof (rule returns_bind [where P = "\<lambda>n. ni_inv mac addr n taken given \<and> ip \<in> keys_of (ni_already_sent_arp n)"], goal_cases)
  case 1
  obtain f where f: "generate_arp_frame n EMPTY_ADDRESS ip OPCODE_REQUEST = Inr f"
    "eh_src (ef_header f) = mac" "eh_type (ef_header f) = TYPE_ARP"
    using generate_arp_frame_returns [OF inv addr] by blast
  have "ni_inv mac addr ((ni_emit n f)\<lparr>ni_already_sent_arp := emplace ip t (ni_already_sent_arp n)\<rparr>) taken given" for t
    using ni_inv_emit(1) [OF inv f(2,3)] by (auto simp: ni_inv_def)
  then show ?case using inv f(1) by (auto split: option.splits dest: map_of_keys)
next
  case (2 m)
  let ?b = "AList.update ip ((case map_of (ni_buffer m) ip of Some l \<Rightarrow> l | None \<Rightarrow> []) @ [d]) (ni_buffer m)"
  have w: "mset (waiting_all ?b) = mset (d # waiting_all (ni_buffer m))"
    using 2 by (simp add: waiting_update ni_inv_def)
  then show ?case
    using 2 d list_all_mset [OF w, of dg_ok] by (auto simp: ni_inv_def distinct_update)
qed

lemma send_datagram_inv:
  assumes inv: "ni_inv mac addr n taken given" and addr: "is_ipv4 addr" and d: "dg_ok d" and hop: "is_ipv4 hop"
  shows "returns (send_datagram n d hop) (\<lambda>n'. ni_inv mac addr n' taken (given @ [d]))"
proof -
  obtain bl where bl: "IPv4Datagram_serialize d = Inr bl" using dg_ok_serialize [OF d] by blast
  obtain ip where ip: "ipv4_numeric hop = Inr ip" using hop by (auto simp: is_ipv4_def)
  have mac: "ni_ethernet_address n = mac" using inv by (simp add: ni_inv_def)
  have now: "returns (rbind (generate_ip_frame n dst d) (\<lambda>f. Inr (ni_emit n f))) (\<lambda>n'. ni_inv mac addr n' taken (given @ [d]))" for dst
    using ni_inv_emit(2) [OF inv bl] by (simp add: generate_ip_frame_eq bl mac)
  show ?thesis
    unfolding send_datagram_def ip rbind.simps
    by (cases "map_of (ni_map n) ip") (simp_all add: ask_and_buffer_inv [OF inv addr d] now split: prod.splits)
qed

lemma emit_all_returns:
  assumes "list_all dg_ok ds"
  shows "\<exists>bls. map IPv4Datagram_serialize ds = map Inr bls \<and>
    emit_all n dst ds = Inr (n\<lparr>ni_frames_out := ni_frames_out n @ map (ip_frame (ni_ethernet_address n) dst) bls\<rparr>)"
  using assms
proof (induction ds arbitrary: n)
  case (Cons d ds)
  then have d: "dg_ok d" and ds: "list_all dg_ok ds" by simp_all
  obtain bl where bl: "IPv4Datagram_serialize d = Inr bl" using dg_ok_serialize [OF d] by blast
  let ?m = "ni_emit n (ip_frame (ni_ethernet_address n) dst bl)"
  from Cons.IH [OF ds, of ?m] obtain bls where "map IPv4Datagram_serialize ds = map Inr bls"
    "emit_all ?m dst ds = Inr (?m\<lparr>ni_frames_out := ni_frames_out ?m @ map (ip_frame (ni_ethernet_address ?m) dst) bls\<rparr>)"
    by blast
  then have "map IPv4Datagram_serialize ds = map Inr bls" "emit_all ?m dst ds =
       Inr (n\<lparr>ni_frames_out := ni_frames_out n @ map (ip_frame (ni_ethernet_address n) dst) (bl # bls)\<rparr>)"
    by (simp_all add: ni_emit_def)
  then show ?case using bl by (intro exI [of _ "bl # bls"]) (simp add: generate_ip_frame_eq)
qed simp

lemma arp_received_inv:
  assumes inv: "ni_inv mac addr n taken given" and addr: "is_ipv4 addr"
  shows "returns (arp_received n msg) (\<lambda>n'. ni_inv mac addr n' taken given)"
  unfolding arp_received_def Let_def
proof (rule returns_bind [where P = "\<lambda>n. ni_inv mac addr n taken given"], goal_cases)
  case 1
  let ?ip = "arp_sender_ip_address msg" and ?mac = "arp_sender_ethernet_address msg"
  define m where "m = n\<lparr>ni_map := emplace ?ip (?mac, ni_ms_since_last_tick n) (ni_map n)\<rparr>"
  have inv': "ni_inv mac addr m taken given" using inv by (auto simp: m_def ni_inv_def)
  have "returns (case map_of (ni_buffer m) ?ip of
      Some ds \<Rightarrow> rbind (emit_all m ?mac ds) (\<lambda>n. Inr (n\<lparr>ni_buffer := AList.delete ?ip (ni_buffer n)\<rparr>)) | None \<Rightarrow> Inr m)
    (\<lambda>n. ni_inv mac addr n taken given)"
  proof (cases "map_of (ni_buffer m) ?ip")
    case None
    then show ?thesis using inv' by simp
  next
    case (Some ds)
    have d: "distinct (map fst (ni_buffer m))" using inv' by (simp add: ni_inv_def)
    note w = waiting_delete [OF d Some]
    have all: "list_all dg_ok (waiting_all (AList.delete ?ip (ni_buffer m)) @ ds)"
      using inv' list_all_mset [of "waiting_all (AList.delete ?ip (ni_buffer m)) @ ds"] w by (simp add: ni_inv_def)
    then obtain bls where bls: "map IPv4Datagram_serialize ds = map Inr bls"
      "emit_all m ?mac ds = Inr (m\<lparr>ni_frames_out := ni_frames_out m @ map (ip_frame (ni_ethernet_address m) ?mac) bls\<rparr>)"
      using emit_all_returns [of ds m ?mac] by auto
    have "mset (map IPv4Datagram_serialize (waiting_all (ni_buffer m))) =
        mset (map IPv4Datagram_serialize (waiting_all (AList.delete ?ip (ni_buffer m)))) + mset (map Inr bls)"
      unfolding bls(1) [symmetric] mset_map w [symmetric] by simp
    then show ?thesis
      using inv' all Some distinct_delete [OF d, of ?ip] unfolding ni_inv_def
      by (auto simp: bls(2) ac_simps)
  qed
  then show ?case unfolding m_def .
next
  case (2 m)
  obtain f where "generate_arp_frame m (arp_sender_ethernet_address msg) (arp_sender_ip_address msg) OPCODE_REPLY = Inr f"
    "eh_src (ef_header f) = mac" "eh_type (ef_header f) = TYPE_ARP"
    using generate_arp_frame_returns [OF 2 addr] by blast
  moreover have "ni_ip_address m = addr" using 2 by (simp add: ni_inv_def)
  ultimately show ?case using 2 addr ni_inv_emit(1) by (auto simp: is_ipv4_def)
qed

lemma emit_all_map: "emit_all n dst ds = Inr n' \<Longrightarrow> ni_map n' = ni_map n \<and> ni_ms_since_last_tick n' = ni_ms_since_last_tick n"
  by (induction ds arbitrary: n) (auto simp: rbind_Inr_iff)

lemma arp_received_map:
  assumes "arp_received n msg = Inr n'"
  shows "ni_map n' = emplace (arp_sender_ip_address msg) (arp_sender_ethernet_address msg, ni_ms_since_last_tick n) (ni_map n) \<and>
    ni_ms_since_last_tick n' = ni_ms_since_last_tick n"
  using assms by (auto simp: arp_received_def Let_def rbind_Inr_iff split: option.splits if_splits dest!: emit_all_map)

lemma frame_ok_buffer: "frame_ok f \<Longrightarrow> \<exists>b. BufferList_to_Buffer (ef_payload f) = Inr b \<and> buf_ok b"
  by (cases "ef_payload f")
    (auto simp: frame_ok_def BufferList_to_Buffer_def buf_ok_def Buffer_default_def Suc_le_eq split: list.splits)

lemma recv_frame_inv:
  assumes inv: "ni_inv mac addr n taken given" and addr: "is_ipv4 addr" and f: "frame_ok f"
  shows "returns (recv_frame n f) (\<lambda>(n', _). ni_inv mac addr n' taken given)"
proof -
  obtain b where b: "BufferList_to_Buffer (ef_payload f) = Inr b" "buf_ok b" using frame_ok_buffer [OF f] by blast
  obtain dg r where dg: "IPv4Datagram_parse IPv4Datagram_default b = Inr (dg, r)" using IPv4Datagram_parse_total [OF b(2)] by blast
  obtain m r' where m: "ARPMessage_parse ARPMessage_default b = Inr (m, r')" using ARPMessage_parse_total [OF b(2)] by blast
  obtain n' where "arp_received n m = Inr n'" "ni_inv mac addr n' taken given"
    using arp_received_inv [OF inv addr, of m] by (auto simp: returns_iff)
  then show ?thesis using inv by (simp add: recv_frame_def Let_def b(1) dg m)
qed

section \<open>Histories\<close>

datatype ni_op =
    NiSend IPv4Datagram Address
  | NiRecv EthernetFrame
  | NiTick size_t
  | NiTake

text \<open>An interface and the frames its owner has taken from \<open>frames_out()\<close>.\<close>

type_synonym ni_world = "network_interface \<times> EthernetFrame list"

fun ni_step :: "ni_world \<Rightarrow> ni_op \<Rightarrow> ni_world res" where
  "ni_step (n, taken) (NiSend d hop) = rbind (send_datagram n d hop) (\<lambda>n. Inr (n, taken))"
| "ni_step (n, taken) (NiRecv f) = rbind (recv_frame n f) (\<lambda>(n, _). Inr (n, taken))"
| "ni_step (n, taken) (NiTick ms) = Inr (NetworkInterface_tick n ms, taken)"
| "ni_step (n, taken) NiTake = Inr (n\<lparr>ni_frames_out := []\<rparr>, taken @ ni_frames_out n)"

fun ni_op_ok :: "ni_op \<Rightarrow> bool" where
  "ni_op_ok (NiSend d hop) \<longleftrightarrow> dg_ok d \<and> is_ipv4 hop"
| "ni_op_ok (NiRecv f) \<longleftrightarrow> frame_ok f"
| "ni_op_ok _ \<longleftrightarrow> True"

fun sent_datagrams :: "ni_op list \<Rightarrow> IPv4Datagram list" where
  "sent_datagrams [] = []"
| "sent_datagrams (NiSend d hop # ops) = d # sent_datagrams ops"
| "sent_datagrams (_ # ops) = sent_datagrams ops"

lemma sent_datagrams_append [simp]: "sent_datagrams (xs @ ys) = sent_datagrams xs @ sent_datagrams ys"
  by (induction xs rule: sent_datagrams.induct) auto

definition ni_hist :: "EthernetAddress \<Rightarrow> Address \<Rightarrow> ni_op list \<Rightarrow> ni_world \<Rightarrow> bool" where
  "ni_hist mac addr ops = (\<lambda>(n, taken). ni_inv mac addr n taken (sent_datagrams ops))"

interpretation iface: history_invariant ni_step "ni_hist mac addr" "\<lambda>ops. is_ipv4 addr \<and> list_all ni_op_ok ops" for mac addr
proof unfold_locales
  fix h s and op :: ni_op
  assume h: "ni_hist mac addr h s" and ok: "is_ipv4 addr \<and> list_all ni_op_ok (h @ [op])"
  obtain n taken where s: "s = (n, taken)" by fastforce
  have inv: "ni_inv mac addr n taken (sent_datagrams h)" using h by (simp add: s ni_hist_def)
  show "returns (ni_step s op) (ni_hist mac addr (h @ [op]))"
  proof (cases op)
    case (NiSend d hop)
    then show ?thesis using ok send_datagram_inv [OF inv, of d hop] by (auto simp: s ni_hist_def returns_iff)
  next
    case (NiRecv f)
    then show ?thesis using ok recv_frame_inv [OF inv, of f] by (auto simp: s ni_hist_def returns_iff)
  next
    case (NiTick ms)
    then show ?thesis using inv by (simp add: s ni_hist_def ni_inv_def NetworkInterface_tick_def)
  next
    case NiTake
    then show ?thesis using inv by (simp add: s ni_hist_def ni_inv_def)
  qed
qed simp

section \<open>Properties\<close>

text \<open>C10: Whatever is done with an interface, with valid datagrams, IPv4 next hops and frames whose
  payload is in one piece, nothing throws and no datagram is lost or duplicated: the IPv4 frames
  sent and the datagrams still waiting for an address are together exactly the datagrams handed
  to \<open>send_datagram\<close>. Every frame has the interface's own source address, and for every address that
  datagrams wait for an ARP request has been sent.\<close>

theorem interface_no_loss:
  assumes "NetworkInterface gni mac addr = Inr n" and "is_ipv4 addr" and "list_all ni_op_ok ops"
  shows "returns (rfold ni_step (n, []) ops) (\<lambda>(n', taken).
    mset (map Inr (ip_payloads (taken @ ni_frames_out n'))) + mset (map IPv4Datagram_serialize (waiting_all (ni_buffer n'))) =
      mset (map IPv4Datagram_serialize (sent_datagrams ops)) \<and>
    (\<forall>f \<in> set (taken @ ni_frames_out n'). eh_src (ef_header f) = mac) \<and>
    keys_of (ni_buffer n') \<subseteq> keys_of (ni_already_sent_arp n'))"
proof -
  have "ni_hist mac addr [] (n, [])"
    using assms(1) by (auto simp: NetworkInterface_def rbind_Inr_iff ni_hist_def ni_inv_def waiting_all_def)
  from iface.run [OF this] assms(2,3) have "returns (rfold ni_step (n, []) ops) (ni_hist mac addr ops)" by simp
  then show ?thesis by (rule returns_mono) (auto simp: ni_hist_def ni_inv_def)
qed

theorem interface_no_loss_witness:
  "\<exists>n. NetworkInterface quad_gni [2, 0, 0, 0, 0, 1] (ipv4_address 0x0a000001 0) = Inr n \<and>
    returns (rfold ni_step (n, []) [NiSend (IPv4Datagram_default\<lparr>dg_header := IPv4Header_default\<lparr>ih_len := 20\<rparr>\<rparr>) (ipv4_address 7 0),
        NiTake, NiTick 10]) (\<lambda>(n', taken). \<forall>f \<in> set (taken @ ni_frames_out n'). eh_src (ef_header f) = [2, 0, 0, 0, 0, 1])"
proof -
  let ?n = "\<lparr>ni_ethernet_address = [2, 0, 0, 0, 0, 1], ni_ip_address = ipv4_address 0x0a000001 0, ni_frames_out = [], ni_map = [],
            ni_already_sent_arp = [], ni_buffer = [], ni_ms_since_last_tick = 0\<rparr>"
  have n: "NetworkInterface quad_gni [2, 0, 0, 0, 0, 1] (ipv4_address 0x0a000001 0) = Inr ?n"
    by (simp add: NetworkInterface_def ip_port_ipv4 [OF quad_resolver])
  have ok: "list_all ni_op_ok [NiSend (IPv4Datagram_default\<lparr>dg_header := IPv4Header_default\<lparr>ih_len := 20\<rparr>\<rparr>) (ipv4_address 7 0),
      NiTake, NiTick 10]"
    by (simp add: dg_ok_def is_ipv4_def ip_valid_def IPv4Header_default_def IPv4Header_LENGTH_def IPv4Datagram_default_def)
  from interface_no_loss [OF n _ ok] show ?thesis
    unfolding n by (auto simp: is_ipv4_def elim!: returns_mono)
qed

text \<open>An expired mapping is never renewed. \<open>map_.emplace\<close> leaves the old entry in place when an ARP
  message arrives from the same host, so that every later datagram for that host is held back
  again until another answer comes, however fresh the last one was.\<close>

theorem interface_expired_mapping_kept:
  assumes "map_of (ni_map n) ip = Some (old, t)" and "IP_TO_ETHERNET_LIMIT \<le> u64_sub (ni_ms_since_last_tick n) t"
    and "arp_sender_ip_address msg = ip" and "arp_received n msg = Inr n'" and "ipv4_numeric hop = Inr ip"
  shows "map_of (ni_map n') ip = Some (old, t) \<and> send_datagram n' d hop = ask_and_buffer n' d ip"
  using assms arp_received_map [OF assms(4)] by (simp add: send_datagram_def emplace_def)

theorem interface_expired_mapping_kept_witness:
  "\<exists>n n'. map_of (ni_map n) 7 = Some ([2, 0, 0, 0, 0, 2], 0) \<and>
    arp_received n (arp_message [2, 0, 0, 0, 0, 3] 7 [2, 0, 0, 0, 0, 1] 9 OPCODE_REPLY) = Inr n' \<and>
    map_of (ni_map n') 7 = Some ([2, 0, 0, 0, 0, 2], 0) \<and>
    send_datagram n' IPv4Datagram_default (ipv4_address 7 0) = ask_and_buffer n' IPv4Datagram_default 7"
proof -
  let ?n = "\<lparr>ni_ethernet_address = [2, 0, 0, 0, 0, 1], ni_ip_address = ipv4_address 9 0, ni_frames_out = [],
      ni_map = [(7, [2, 0, 0, 0, 0, 2], 0)], ni_already_sent_arp = [], ni_buffer = [], ni_ms_since_last_tick = 40000\<rparr>"
  let ?m = "arp_message [2, 0, 0, 0, 0, 3] 7 [2, 0, 0, 0, 0, 1] 9 OPCODE_REPLY"
  have r: "arp_received ?n ?m = Inr ?n"
    by (simp add: arp_received_def arp_message_def ARPMessage_default_def EMPTY_ADDRESS_def emplace_def)
  have s: "arp_sender_ip_address ?m = 7" by (simp add: arp_message_def)
  from interface_expired_mapping_kept [OF _ _ s r, of "[2, 0, 0, 0, 0, 2]" 0 "ipv4_address 7 0" IPv4Datagram_default] show ?thesis
    by (intro exI [of _ ?n] conjI r) (simp_all add: IP_TO_ETHERNET_LIMIT_def u64_sub_def)
qed

end
