(* ===== verification/Router.thy ===== *)
theory Router
  imports Network_Interface
begin

unbundle bit_operations_syntax

text \<open>
  \<^verbatim>\<open>libsponge/router.hh\<close> and \<^verbatim>\<open>.cc\<close>: network interfaces that keep what they receive, and a router between
  them that forwards by the longest matching prefix. The routing table is an association list from
  masked prefixes and their lengths; \<open>find_route\<close> is the loop that shortens the mask bit by bit.

  \<open>best_route\<close> is the specification of the table: of all the routes added whose prefix matches, the
  longest, and of these the first one added. \<open>forwarded\<close> is the specification of \<open>route\<close>: the datagrams
  that a router hands to one of its interfaces.
\<close>

section \<open>AsyncNetworkInterface\<close>

record async_interface =
  ai_base :: network_interface
  ai_datagrams_out :: "IPv4Datagram list"

definition AsyncNetworkInterface :: "network_interface \<Rightarrow> async_interface" where
  "AsyncNetworkInterface n = \<lparr>ai_base = n, ai_datagrams_out = []\<rparr>"

definition async_recv_frame :: "async_interface \<Rightarrow> EthernetFrame \<Rightarrow> async_interface res" where
  "async_recv_frame a frame =
     rbind (recv_frame (ai_base a) frame) (\<lambda>(n, optional_dgram).
       let a = a\<lparr>ai_base := n\<rparr>
       in case optional_dgram of
            Some dgram \<Rightarrow> Inr (a\<lparr>ai_datagrams_out := ai_datagrams_out a @ [dgram]\<rparr>)
          | None \<Rightarrow> Inr a)"

definition async_send_datagram :: "async_interface \<Rightarrow> IPv4Datagram \<Rightarrow> Address \<Rightarrow> async_interface res" where
  "async_send_datagram a dgram next_hop =
     rbind (send_datagram (ai_base a) dgram next_hop) (\<lambda>n. Inr (a\<lparr>ai_base := n\<rparr>))"

section \<open>Router\<close>

type_synonym routing_table = "((u32 \<times> u8) \<times> size_t \<times> Address option) list"

record router =
  rt_interfaces :: "async_interface list"
  rt_table :: routing_table

definition Router_default :: router where
  "Router_default = \<lparr>rt_interfaces = [], rt_table = []\<rparr>"

definition add_interface :: "router \<Rightarrow> async_interface \<Rightarrow> router \<times> size_t" where
  "add_interface r i =
     (let r = r\<lparr>rt_interfaces := rt_interfaces r @ [i]\<rparr>
      in (r, length (rt_interfaces r) - 1))"

definition Router_interface :: "router \<Rightarrow> size_t \<Rightarrow> async_interface res" where
  "Router_interface r N =
     (if N < length (rt_interfaces r) then Inr (rt_interfaces r ! N) else Inl (OutOfRange ''vector::_M_range_check''))"

definition add_route :: "getnameinfo_fn \<Rightarrow> router \<Rightarrow> u32 \<Rightarrow> u8 \<Rightarrow> Address option \<Rightarrow> size_t \<Rightarrow> router res" where
  "add_route gni r route_prefix prefix_length next_hop interface_num =
     rbind (rbind (from_ipv4_numeric route_prefix) (ip_port gni)) (\<lambda>_.
     rbind (case next_hop of Some a \<Rightarrow> rbind (ip_port gni a) (\<lambda>(ip, _). Inr ip) | None \<Rightarrow> Inr ''(direct)'') (\<lambda>_.
       if prefix_length = 0 then Inr (r\<lparr>rt_table := emplace (0, 0) (interface_num, next_hop) (rt_table r)\<rparr>)
       else if 32 < unat prefix_length then Inl BadShift
       else let ip = push_bit (32 - unat prefix_length) (- 1) AND route_prefix
            in Inr (r\<lparr>rt_table := emplace (ip, prefix_length) (interface_num, next_hop) (rt_table r)\<rparr>)))"

fun find_route :: "routing_table \<Rightarrow> u32 \<Rightarrow> u32 \<Rightarrow> nat \<Rightarrow> (size_t \<times> Address option) option" where
  "find_route table ip msk prefix_length =
     (case map_of table (msk AND ip, of_nat prefix_length) of
        Some route \<Rightarrow> Some route
      | None \<Rightarrow> if prefix_length = 0 then None else find_route table ip (push_bit 1 msk) (prefix_length - 1))"

declare find_route.simps [simp del]

definition route_one_datagram :: "router \<Rightarrow> IPv4Datagram \<Rightarrow> router res" where
  "route_one_datagram r dgram =
     (if ih_ttl (dg_header dgram) = 0 then Inr r
      else let dgram = dgram\<lparr>dg_header := (dg_header dgram)\<lparr>ih_ttl := ih_ttl (dg_header dgram) - 1\<rparr>\<rparr>
           in if ih_ttl (dg_header dgram) = 0 then Inr r
              else case find_route (rt_table r) (ih_dst (dg_header dgram)) (- 1) 32 of
                     None \<Rightarrow> Inr r
                   | Some (num, next_hop) \<Rightarrow>
                       rbind (Router_interface r num) (\<lambda>interface.
                       rbind (from_ipv4_numeric (ih_dst (dg_header dgram))) (\<lambda>dst.
                       rbind (async_send_datagram interface dgram (case next_hop of Some a \<Rightarrow> a | None \<Rightarrow> dst)) (\<lambda>interface.
                         Inr (r\<lparr>rt_interfaces := (rt_interfaces r)[num := interface]\<rparr>)))))"

abbreviation queue_of :: "router \<Rightarrow> size_t \<Rightarrow> IPv4Datagram list" where
  "queue_of r i \<equiv> ai_datagrams_out (rt_interfaces r ! i)"

definition pop_queue :: "router \<Rightarrow> size_t \<Rightarrow> router" where
  "pop_queue r i = r\<lparr>rt_interfaces :=
     (rt_interfaces r)[i := (rt_interfaces r ! i)\<lparr>ai_datagrams_out := tl (queue_of r i)\<rparr>]\<rparr>"

lemma route_one_keeps:
  assumes "route_one_datagram r d = Inr r'"
  shows "length (rt_interfaces r') = length (rt_interfaces r) \<and> rt_table r' = rt_table r \<and> queue_of r' i = queue_of r i"
proof (cases "i < length (rt_interfaces r)")
  case True
  then show ?thesis
    using assms
    by (auto simp: route_one_datagram_def Let_def Router_interface_def async_send_datagram_def rbind_Inr_iff nth_list_update
        split: if_splits option.splits)
next
  case False
  then have "i \<noteq> num \<or> \<not> num < length (rt_interfaces r)" for num by auto
  with False show ?thesis
    using assms
    by (auto simp: route_one_datagram_def Let_def Router_interface_def async_send_datagram_def rbind_Inr_iff nth_list_update
        split: if_splits option.splits)
qed

function route_queue :: "router \<Rightarrow> size_t \<Rightarrow> router res" where
  "route_queue r i =
     (if i < length (rt_interfaces r)
      then case queue_of r i of
             [] \<Rightarrow> Inr r
           | dgram # _ \<Rightarrow> rbind (route_one_datagram r dgram) (\<lambda>r. route_queue (pop_queue r i) i)
      else Inr r)"
  by pat_completeness auto
termination
proof (relation "measure (\<lambda>(r, i). length (queue_of r i))", goal_cases)
  case (2 r i d ds r')
  then have "i < length (rt_interfaces r')" "queue_of r' i = queue_of r i" using route_one_keeps [OF 2(3)] by auto
  then show ?case using 2(2) by (simp add: pop_queue_def)
qed simp

declare route_queue.simps [simp del]

definition route :: "router \<Rightarrow> router res" where
  "route r = rfold route_queue r [0..<length (rt_interfaces r)]"

section \<open>Longest prefix match\<close>

record route_rule =
  rr_prefix :: u32
  rr_length :: u8
  rr_next_hop :: "Address option"
  rr_interface :: size_t

definition rule_matches :: "u32 \<Rightarrow> route_rule \<Rightarrow> bool" where
  "rule_matches ip rule \<longleftrightarrow>
     drop_bit (32 - unat (rr_length rule)) ip = drop_bit (32 - unat (rr_length rule)) (rr_prefix rule)"

definition best_route :: "route_rule list \<Rightarrow> u32 \<Rightarrow> route_rule option" where
  "best_route rules ip =
     (let ms = filter (rule_matches ip) rules; len = foldr max (map (unat \<circ> rr_length) ms) 0
      in find (\<lambda>rule. unat (rr_length rule) = len) ms)"

definition add_rule :: "getnameinfo_fn \<Rightarrow> router \<Rightarrow> route_rule \<Rightarrow> router res" where
  "add_rule gni r rule = add_route gni r (rr_prefix rule) (rr_length rule) (rr_next_hop rule) (rr_interface rule)"

definition prefix_mask :: "nat \<Rightarrow> u32" where
  "prefix_mask len = push_bit (32 - len) (- 1)"

definition rule_key :: "route_rule \<Rightarrow> u32 \<times> u8" where
  "rule_key rule = (prefix_mask (unat (rr_length rule)) AND rr_prefix rule, rr_length rule)"

definition rule_target :: "route_rule \<Rightarrow> size_t \<times> Address option" where
  "rule_target rule = (rr_interface rule, rr_next_hop rule)"

definition table_of :: "route_rule list \<Rightarrow> routing_table" where
  "table_of rules = foldl (\<lambda>t rule. emplace (rule_key rule) (rule_target rule) t) [] rules"

definition rule_ok :: "getnameinfo_fn \<Rightarrow> route_rule \<Rightarrow> bool" where
  "rule_ok gni rule \<longleftrightarrow> unat (rr_length rule) \<le> 32 \<and>
     (\<forall>a. rr_next_hop rule = Some a \<longrightarrow> (\<exists>ip port. a = ipv4_address ip port))"

lemma prefix_mask_and: "prefix_mask len AND a = prefix_mask len AND b \<longleftrightarrow> drop_bit (32 - len) a = drop_bit (32 - len) b"
proof -
  have "prefix_mask len AND a = prefix_mask len AND b \<longleftrightarrow> (\<forall>n < 32. 32 - len \<le> n \<longrightarrow> bit a n = bit b n)"
    unfolding prefix_mask_def bit_eq_iff by (auto simp: bit_simps)
  also have "\<dots> \<longleftrightarrow> drop_bit (32 - len) a = drop_bit (32 - len) b"
  proof
    assume h: "\<forall>n < 32. 32 - len \<le> n \<longrightarrow> bit a n = bit b n"
    show "drop_bit (32 - len) a = drop_bit (32 - len) b"
    proof (rule bit_word_eqI)
      fix n assume "n < LENGTH(32)"
      show "bit (drop_bit (32 - len) a) n = bit (drop_bit (32 - len) b) n"
        using h by (cases "32 - len + n < 32") (auto simp: bit_simps dest: bit_imp_le_length)
    qed
  next
    assume h: "drop_bit (32 - len) a = drop_bit (32 - len) b"
    show "\<forall>n < 32. 32 - len \<le> n \<longrightarrow> bit a n = bit b n"
    proof (intro allI impI)
      fix n :: nat assume "n < 32" "32 - len \<le> n"
      then show "bit a n = bit b n"
        using arg_cong [OF h, of "\<lambda>w. bit w (n - (32 - len))"] by (simp add: bit_simps)
    qed
  qed
  finally show ?thesis .
qed

lemma rule_key_matches:
  assumes "unat (rr_length rule) \<le> 32" "len \<le> 32"
  shows "rule_key rule = (prefix_mask len AND ip, of_nat len) \<longleftrightarrow> rule_matches ip rule \<and> unat (rr_length rule) = len"
proof -
  have "rr_length rule = of_nat len \<longleftrightarrow> unat (rr_length rule) = len"
    using assms(2) by (auto simp: word_unat_eq_iff unat_of_nat take_bit_eq_mod)
  then show ?thesis
    using prefix_mask_and [of len "rr_prefix rule" ip] by (auto simp: rule_key_def rule_matches_def)
qed

lemma map_of_emplace: "map_of (emplace k v m) x = (if map_of m x = None \<and> x = k then Some v else map_of m x)"
  by (auto simp: emplace_def map_add_def split: option.splits)

lemma find_snoc: "find P (xs @ [x]) = (case find P xs of Some y \<Rightarrow> Some y | None \<Rightarrow> if P x then Some x else None)"
  by (induction xs) auto

lemma map_of_table: "map_of (table_of rules) k = map_option rule_target (find (\<lambda>rule. rule_key rule = k) rules)"
proof (induction rules rule: rev_induct)
  case Nil
  then show ?case by (simp add: table_of_def)
next
  case (snoc rule rules)
  have "table_of (rules @ [rule]) = emplace (rule_key rule) (rule_target rule) (table_of rules)"
    by (simp add: table_of_def)
  then show ?case using snoc by (auto simp: map_of_emplace find_snoc split: option.splits)
qed

lemma push_prefix_mask: "0 < len \<Longrightarrow> len \<le> 32 \<Longrightarrow> push_bit 1 (prefix_mask len) = prefix_mask (len - 1)"
  unfolding prefix_mask_def push_bit_push_bit by (rule arg_cong [where f = "\<lambda>n. push_bit n (- 1)"]) simp

lemma find_route_max:
  assumes "\<And>k. k \<le> n \<Longrightarrow> map_of table (prefix_mask k AND ip, of_nat k) = F k"
    and "m \<le> n" "n \<le> 32" and "\<And>k. m < k \<Longrightarrow> k \<le> n \<Longrightarrow> F k = None" and "F m = None \<Longrightarrow> m = 0"
  shows "find_route table ip (prefix_mask n) n = F m"
  using assms
proof (induction n)
  case 0
  then show ?case by (subst find_route.simps) (auto split: option.splits)
next
  case (Suc n)
  have mask: "push_bit 1 (prefix_mask (Suc n)) = prefix_mask n" using push_prefix_mask [of "Suc n"] Suc.prems(3) by simp
  have step: "find_route table ip (prefix_mask (Suc n)) (Suc n) =
      (case F (Suc n) of Some t \<Rightarrow> Some t | None \<Rightarrow> find_route table ip (prefix_mask n) n)"
    unfolding find_route.simps [of table ip "prefix_mask (Suc n)" "Suc n"] Suc.prems(1) [OF order.refl] mask
    by (simp cong: option.case_cong)
  show ?case
  proof (cases "m = Suc n")
    case True
    then show ?thesis using Suc.prems(5) unfolding step by (auto split: option.splits)
  next
    case False
    then have "F (Suc n) = None" using Suc.prems by simp
    then show ?thesis using Suc False unfolding step by simp
  qed
qed

lemma foldr_max_ge: "x \<in> set xs \<Longrightarrow> x \<le> foldr max xs (0::nat)"
  by (induction xs) auto

lemma foldr_max_in: "xs \<noteq> [] \<Longrightarrow> foldr max xs (0::nat) \<in> set xs"
proof (induction xs)
  case (Cons x xs)
  then show ?case by (cases "xs = []") (auto simp: max_def)
qed simp

lemma find_None: "(\<And>x. x \<in> set xs \<Longrightarrow> \<not> P x) \<Longrightarrow> find P xs = None"
  by (auto simp: find_None_iff)

lemma find_filter_eq: "find P (filter Q xs) = find (\<lambda>x. Q x \<and> P x) xs"
  by (induction xs) auto

lemma find_route_table:
  assumes "\<forall>rule \<in> set rules. unat (rr_length rule) \<le> 32"
  shows "find_route (table_of rules) ip (- 1) 32 = map_option rule_target (best_route rules ip)"
proof -
  define ms where "ms = filter (rule_matches ip) rules"
  define len where "len = foldr max (map (unat \<circ> rr_length) ms) 0"
  define F where "F k = map_option rule_target (find (\<lambda>rule. unat (rr_length rule) = k) ms)" for k
  have lookup: "map_of (table_of rules) (prefix_mask k AND ip, of_nat k) = F k" if "k \<le> 32" for k
  proof -
    have "find (\<lambda>rule. rule_key rule = (prefix_mask k AND ip, of_nat k)) rules =
        find (\<lambda>rule. rule_matches ip rule \<and> unat (rr_length rule) = k) rules"
      by (rule find_cong [OF refl]) (use assms that rule_key_matches in auto)
    then show ?thesis by (simp add: map_of_table F_def ms_def find_filter_eq)
  qed
  have le: "len \<le> 32"
    unfolding len_def using assms foldr_max_in [of "map (unat \<circ> rr_length) ms"] by (cases "ms = []") (auto simp: ms_def)
  have above: "F k = None" if "len < k" for k
    using that foldr_max_ge [of k "map (unat \<circ> rr_length) ms"] by (auto simp: F_def len_def intro!: find_None)
  have found: "F len = None \<Longrightarrow> len = 0"
    using foldr_max_in [of "map (unat \<circ> rr_length) ms"] by (cases "ms = []") (auto simp: F_def len_def find_None_iff)
  have "find_route (table_of rules) ip (prefix_mask 32) 32 = F len"
    using lookup le above found by (intro find_route_max) auto
  moreover have "prefix_mask 32 = - 1" by (simp add: prefix_mask_def)
  ultimately show ?thesis by (simp add: best_route_def F_def ms_def len_def Let_def)
qed

lemma add_rule_returns:
  assumes "numeric_resolver gai gni" and "rule_ok gni rule"
  shows "add_rule gni r rule = Inr (r\<lparr>rt_table := emplace (rule_key rule) (rule_target rule) (rt_table r)\<rparr>)"
proof -
  have "prefix_mask 0 = 0" by (simp add: prefix_mask_def bit_eq_iff bit_simps)
  then show ?thesis
    using assms(2)
    by (auto simp: add_rule_def add_route_def ip_port_ipv4 [OF assms(1)] rule_ok_def rule_key_def rule_target_def
        prefix_mask_def Let_def split: option.splits)
qed

lemma add_rules_returns:
  assumes "numeric_resolver gai gni" and "list_all (rule_ok gni) rules"
  shows "rfold (add_rule gni) r rules =
    Inr (r\<lparr>rt_table := foldl (\<lambda>t rule. emplace (rule_key rule) (rule_target rule) t) (rt_table r) rules\<rparr>)"
  using assms(2) by (induction rules arbitrary: r) (simp_all add: add_rule_returns [OF assms(1)])

section \<open>Forwarding\<close>

definition dec_ttl :: "IPv4Datagram \<Rightarrow> IPv4Datagram" where
  "dec_ttl d = d\<lparr>dg_header := (dg_header d)\<lparr>ih_ttl := ih_ttl (dg_header d) - 1\<rparr>\<rparr>"

definition hop_of :: "IPv4Datagram \<Rightarrow> Address option \<Rightarrow> Address" where
  "hop_of d next_hop = (case next_hop of Some a \<Rightarrow> a | None \<Rightarrow> ipv4_address (ih_dst (dg_header d)) 0)"

definition forwards :: "routing_table \<Rightarrow> IPv4Datagram \<Rightarrow> (size_t \<times> Address) option" where
  "forwards table d =
     (if unat (ih_ttl (dg_header d)) \<le> 1 then None
      else map_option (\<lambda>(num, next_hop). (num, hop_of d next_hop)) (find_route table (ih_dst (dg_header d)) (- 1) 32))"

text \<open>The datagrams of a list that are forwarded on interface \<open>j\<close>, with the next hop of each.\<close>

definition forwarded :: "routing_table \<Rightarrow> IPv4Datagram list \<Rightarrow> size_t \<Rightarrow> (IPv4Datagram \<times> Address) list" where
  "forwarded table ds j =
     concat (map (\<lambda>d. case forwards table d of Some (num, hop) \<Rightarrow> if num = j then [(dec_ttl d, hop)] else [] | None \<Rightarrow> []) ds)"

definition send_all :: "network_interface \<Rightarrow> (IPv4Datagram \<times> Address) list \<Rightarrow> network_interface res" where
  "send_all n ps = rfold (\<lambda>n (d, hop). send_datagram n d hop) n ps"

definition queued :: "router \<Rightarrow> IPv4Datagram list" where
  "queued r = concat (map ai_datagrams_out (rt_interfaces r))"

definition table_ok :: "size_t \<Rightarrow> routing_table \<Rightarrow> bool" where
  "table_ok n table \<longleftrightarrow> (\<forall>(k, num, next_hop) \<in> set table. num < n \<and> (\<forall>a. next_hop = Some a \<longrightarrow> is_ipv4 a))"

definition iface_ok :: "network_interface \<Rightarrow> bool" where
  "iface_ok n \<longleftrightarrow> is_ipv4 (ni_ip_address n) \<and>
     (\<exists>taken given. ni_inv (ni_ethernet_address n) (ni_ip_address n) n taken given)"

definition router_ok :: "router \<Rightarrow> bool" where
  "router_ok r \<longleftrightarrow> table_ok (length (rt_interfaces r)) (rt_table r) \<and>
     list_all (\<lambda>a. iface_ok (ai_base a) \<and> list_all dg_ok (ai_datagrams_out a)) (rt_interfaces r)"

lemma dg_ok_dec_ttl [simp]: "dg_ok (dec_ttl d) = dg_ok d"
  by (simp add: dg_ok_def dec_ttl_def ip_valid_def)

lemma find_route_in: "find_route table ip m k = Some t \<Longrightarrow> t \<in> snd ` set table"
proof (induction table ip m k rule: find_route.induct)
  case (1 table ip m k)
  show ?case
  proof (cases "map_of table (m AND ip, of_nat k)")
    case None
    then show ?thesis using 1 by (subst (asm) (2) find_route.simps) (auto split: if_splits)
  next
    case (Some t')
    then show ?thesis using 1(2) by (subst (asm) find_route.simps) (auto dest!: map_of_SomeD intro: rev_image_eqI)
  qed
qed

lemma forwards_ok:
  assumes "table_ok n table" and "forwards table d = Some (num, hop)"
  shows "num < n \<and> is_ipv4 hop"
proof -
  obtain next_hop where t: "find_route table (ih_dst (dg_header d)) (- 1) 32 = Some (num, next_hop)" "hop = hop_of d next_hop"
    using assms(2) by (auto simp: forwards_def split: if_splits)
  from find_route_in [OF t(1)] assms(1) have "num < n" "\<forall>a. next_hop = Some a \<longrightarrow> is_ipv4 a"
    by (auto simp: table_ok_def)
  moreover have "is_ipv4 (ipv4_address ip port)" for ip port by (simp add: is_ipv4_def)
  ultimately show ?thesis using t(2) by (auto simp: hop_of_def split: option.splits)
qed

lemma route_one_eq:
  "route_one_datagram r d = (case forwards (rt_table r) d of
     None \<Rightarrow> Inr r
   | Some (num, hop) \<Rightarrow> rbind (Router_interface r num) (\<lambda>a. rbind (async_send_datagram a (dec_ttl d) hop) (\<lambda>a.
       Inr (r\<lparr>rt_interfaces := (rt_interfaces r)[num := a]\<rparr>))))"
proof -
  let ?t = "ih_ttl (dg_header d)"
  have "unat ?t \<le> 1 \<longleftrightarrow> ?t = 0 \<or> ?t - 1 = 0" by (auto simp: word_unat_eq_iff unat_sub_if' le_Suc_eq split: if_splits)
  then show ?thesis
    by (auto simp: route_one_datagram_def forwards_def dec_ttl_def hop_of_def Let_def split: option.splits)
qed

lemma send_all_snoc: "send_all n (ps @ [(d, hop)]) = rbind (send_all n ps) (\<lambda>n. send_datagram n d hop)"
  by (simp add: send_all_def rfold_append)

lemma iface_okI:
  assumes "ni_inv mac addr n taken given" "is_ipv4 addr"
  shows "iface_ok n"
proof -
  have "ni_ethernet_address n = mac" "ni_ip_address n = addr" using assms(1) by (simp_all add: ni_inv_def)
  then show ?thesis using assms by (auto simp: iface_ok_def)
qed

lemma send_datagram_ok:
  assumes "iface_ok n" "dg_ok d" "is_ipv4 hop"
  shows "returns (send_datagram n d hop) iface_ok"
proof -
  from assms(1) obtain taken given where addr: "is_ipv4 (ni_ip_address n)" and
    inv: "ni_inv (ni_ethernet_address n) (ni_ip_address n) n taken given" by (auto simp: iface_ok_def)
  show ?thesis
    by (rule returns_mono [OF send_datagram_inv [OF inv addr assms(2,3)]]) (rule iface_okI [OF _ addr])
qed

lemma recv_frame_ok:
  assumes "iface_ok n" "frame_ok f"
  shows "returns (recv_frame n f) (\<lambda>(n', _). iface_ok n')"
proof -
  from assms(1) obtain taken given where addr: "is_ipv4 (ni_ip_address n)" and
    inv: "ni_inv (ni_ethernet_address n) (ni_ip_address n) n taken given" by (auto simp: iface_ok_def)
  show ?thesis
    by (rule returns_mono [OF recv_frame_inv [OF inv addr assms(2)]]) (auto intro: iface_okI [OF _ addr])
qed

text \<open>\<open>r\<close> is what has become of the router \<open>r0\<close> after the datagrams \<open>ds\<close> have been routed.\<close>

definition routed :: "router \<Rightarrow> IPv4Datagram list \<Rightarrow> router \<Rightarrow> bool" where
  "routed r0 ds r \<longleftrightarrow> length (rt_interfaces r) = length (rt_interfaces r0) \<and> rt_table r = rt_table r0 \<and>
     (\<forall>j < length (rt_interfaces r0). iface_ok (ai_base (rt_interfaces r ! j)) \<and>
        send_all (ai_base (rt_interfaces r0 ! j)) (forwarded (rt_table r0) ds j) = Inr (ai_base (rt_interfaces r ! j)))"

lemma forwarded_snoc:
  "forwarded table (ds @ [d]) j = forwarded table ds j @
     (case forwards table d of Some (num, hop) \<Rightarrow> if num = j then [(dec_ttl d, hop)] else [] | None \<Rightarrow> [])"
  by (simp add: forwarded_def)

lemma route_one_routed:
  assumes r: "routed r0 ds r" and t: "table_ok (length (rt_interfaces r0)) (rt_table r0)" and d: "dg_ok d"
  shows "returns (route_one_datagram r d) (\<lambda>r'. routed r0 (ds @ [d]) r' \<and> (\<forall>j. queue_of r' j = queue_of r j))"
proof -
  have keep: "routed r0 (ds @ [d]) r' \<Longrightarrow> route_one_datagram r d = Inr r' \<Longrightarrow> ?thesis" for r'
    using route_one_keeps by auto
  show ?thesis
  proof (cases "forwards (rt_table r0) d")
    case None
    then show ?thesis using r by (intro keep [of r]) (auto simp: routed_def route_one_eq forwarded_snoc)
  next
    case (Some p)
    obtain num hop where p: "p = (num, hop)" by fastforce
    have num: "num < length (rt_interfaces r0)" and hop: "is_ipv4 hop" using forwards_ok [OF t, of d num hop] Some p by auto
    let ?a = "rt_interfaces r ! num"
    have ok: "iface_ok (ai_base ?a)" using r num by (simp add: routed_def)
    from send_datagram_ok [OF ok _ hop, of "dec_ttl d"] d obtain n where
      n: "send_datagram (ai_base ?a) (dec_ttl d) hop = Inr n" "iface_ok n" by (auto simp: returns_iff)
    have one: "route_one_datagram r d = Inr (r\<lparr>rt_interfaces := (rt_interfaces r)[num := ?a\<lparr>ai_base := n\<rparr>]\<rparr>)"
      using r num Some p n by (simp add: route_one_eq routed_def Router_interface_def async_send_datagram_def)
    have "routed r0 (ds @ [d]) (r\<lparr>rt_interfaces := (rt_interfaces r)[num := ?a\<lparr>ai_base := n\<rparr>]\<rparr>)"
      using r num Some p n by (auto simp: routed_def forwarded_snoc send_all_snoc nth_list_update)
    then show ?thesis using one by (rule keep)
  qed
qed

lemma pop_queue_routed: "routed r0 ds r \<Longrightarrow> routed r0 ds (pop_queue r i)"
  by (cases "i < length (rt_interfaces r)") (auto simp: routed_def pop_queue_def nth_list_update)

lemma queue_of_pop: "i < length (rt_interfaces r) \<Longrightarrow>
    queue_of (pop_queue r i) j = (if j = i then tl (queue_of r i) else queue_of r j)"
  by (simp add: pop_queue_def nth_list_update)

lemma route_queue_routed:
  assumes "routed r0 ds r" and "table_ok (length (rt_interfaces r0)) (rt_table r0)"
    and "i < length (rt_interfaces r0)" and "queue_of r i = q" and "list_all dg_ok q"
  shows "returns (route_queue r i) (\<lambda>r'. routed r0 (ds @ q) r' \<and> (\<forall>j. queue_of r' j = (if j = i then [] else queue_of r j)))"
  using assms
proof (induction q arbitrary: r ds)
  case Nil
  then show ?case by (subst route_queue.simps) (auto simp: routed_def)
next
  case (Cons d q)
  have i: "i < length (rt_interfaces r)" using Cons.prems(1,3) by (simp add: routed_def)
  have step: "route_queue r i = rbind (route_one_datagram r d) (\<lambda>r. route_queue (pop_queue r i) i)"
    using i Cons.prems(4) by (subst route_queue.simps) simp
  show ?case
    unfolding step
  proof (rule returns_bind [OF route_one_routed [OF Cons.prems(1,2)]])
    show "dg_ok d" using Cons.prems(5) by simp
    fix r' assume r': "routed r0 (ds @ [d]) r' \<and> (\<forall>j. queue_of r' j = queue_of r j)"
    then have i': "i < length (rt_interfaces r')" using Cons.prems(3) by (simp add: routed_def)
    have "returns (route_queue (pop_queue r' i) i) (\<lambda>r''. routed r0 ((ds @ [d]) @ q) r'' \<and>
        (\<forall>j. queue_of r'' j = (if j = i then [] else queue_of (pop_queue r' i) j)))"
      using r' i' Cons.prems by (intro Cons.IH pop_queue_routed) (auto simp: queue_of_pop)
    then show "returns (route_queue (pop_queue r' i) i) (\<lambda>r''. routed r0 (ds @ d # q) r'' \<and>
        (\<forall>j. queue_of r'' j = (if j = i then [] else queue_of r j)))"
      by (rule returns_mono) (use r' i' in \<open>auto simp: queue_of_pop\<close>)
  qed
qed

lemma send_all_Nil [simp]: "send_all n [] = Inr n"
  by (simp add: send_all_def)

lemma router_ok_routed: "router_ok r \<Longrightarrow> routed r [] r"
  by (auto simp: router_ok_def routed_def forwarded_def list_all_length)

lemma route_routed:
  assumes ok: "router_ok r"
  shows "returns (route r) (\<lambda>r'. routed r (queued r) r' \<and> (\<forall>j < length (rt_interfaces r). queue_of r' j = []))"
proof -
  have t: "table_ok (length (rt_interfaces r)) (rt_table r)" using ok by (simp add: router_ok_def)
  let ?Q = "\<lambda>k. concat (map (queue_of r) [0..<k])"
  have run: "returns (rfold route_queue r [0..<k]) (\<lambda>r'. routed r (?Q k) r' \<and>
      (\<forall>j. queue_of r' j = (if j < k then [] else queue_of r j)))" if "k \<le> length (rt_interfaces r)" for k
    using that
  proof (induction k)
    case 0
    then show ?case using router_ok_routed [OF ok] by simp
  next
    case (Suc k)
    have k: "k < length (rt_interfaces r)" using Suc.prems by simp
    have dg: "list_all dg_ok (queue_of r k)" using ok k by (auto simp: router_ok_def list_all_length)
    have "returns (rfold route_queue r [0..<k]) (\<lambda>r'. routed r (?Q k) r' \<and>
      (\<forall>j. queue_of r' j = (if j < k then [] else queue_of r j)))" using Suc by simp
    then have "returns (rbind (rfold route_queue r [0..<k]) (\<lambda>r'. route_queue r' k))
        (\<lambda>r''. routed r (?Q k @ queue_of r k) r'' \<and> (\<forall>j. queue_of r'' j = (if j < Suc k then [] else queue_of r j)))"
    proof (rule returns_bind)
      fix r' assume r': "routed r (?Q k) r' \<and> (\<forall>j. queue_of r' j = (if j < k then [] else queue_of r j))"
      then have "returns (route_queue r' k) (\<lambda>r''. routed r (?Q k @ queue_of r k) r'' \<and>
          (\<forall>j. queue_of r'' j = (if j = k then [] else queue_of r' j)))"
        using t k dg by (intro route_queue_routed) auto
      then show "returns (route_queue r' k) (\<lambda>r''. routed r (?Q k @ queue_of r k) r'' \<and>
          (\<forall>j. queue_of r'' j = (if j < Suc k then [] else queue_of r j)))"
        by (rule returns_mono) (use r' in auto)
    qed
    then show ?case by (simp add: rfold_append)
  qed
  have q: "map (queue_of r) [0..<length (rt_interfaces r)] = map ai_datagrams_out (rt_interfaces r)"
    by (rule nth_equalityI) simp_all
  show ?thesis
    unfolding route_def queued_def by (rule returns_mono [OF run [OF order.refl]]) (simp add: q)
qed

lemma iface_ok_new: "NetworkInterface gni mac addr = Inr n \<Longrightarrow> is_ipv4 addr \<Longrightarrow> iface_ok n"
  by (rule iface_okI [of mac addr n "[]" "[]"])
    (auto simp: NetworkInterface_def rbind_Inr_iff ni_inv_def waiting_all_def)

lemma route_queue_Nil: "queue_of r i = [] \<Longrightarrow> route_queue r i = Inr r"
  by (subst route_queue.simps) simp

lemma route_idle: "(\<And>i. i \<in> set is \<Longrightarrow> queue_of r i = []) \<Longrightarrow> rfold route_queue r is = Inr r"
  by (induction "is") (simp_all add: route_queue_Nil)

lemma route_first_queue:
  assumes "i < length (rt_interfaces r)" and "\<And>j. j < i \<Longrightarrow> queue_of r j = []" and "queue_of r i = d # ds"
    and "route_one_datagram r d = Inl e"
  shows "route r = Inl e"
proof -
  have "[0..<length (rt_interfaces r)] = [0..<i] @ i # [Suc i..<length (rt_interfaces r)]"
    using assms(1) by (metis upt_add_eq_append upt_conv_Cons le_add_diff_inverse less_imp_le_nat zero_le)
  moreover have "rfold route_queue r [0..<i] = Inr r" using assms(2) by (intro route_idle) simp
  moreover have "route_queue r i = Inl e" using assms by (subst route_queue.simps) simp
  ultimately show ?thesis by (simp add: route_def rfold_append)
qed

lemma route_quiet: "(\<And>i. i < length (rt_interfaces r) \<Longrightarrow> queue_of r i = []) \<Longrightarrow> route r = Inr r"
  unfolding route_def by (rule route_idle) simp

lemma route_single:
  assumes i: "i < length (rt_interfaces r)" and q: "queue_of r i = [d]" "\<And>j. j < length (rt_interfaces r) \<Longrightarrow> j \<noteq> i \<Longrightarrow> queue_of r j = []"
    and one: "route_one_datagram r d = Inr r1"
  shows "route r = Inr (pop_queue r1 i)"
proof -
  note keep = route_one_keeps [OF one]
  have split: "[0..<length (rt_interfaces r)] = [0..<i] @ i # [Suc i..<length (rt_interfaces r)]"
    using i by (metis upt_add_eq_append upt_conv_Cons le_add_diff_inverse less_imp_le_nat zero_le)
  have before: "rfold route_queue r [0..<i] = Inr r" using q(2) i by (intro route_idle) simp
  have i1: "i < length (rt_interfaces r1)" using i keep by simp
  have pq: "queue_of (pop_queue r1 i) j = []" if "j < length (rt_interfaces r)" for j
    using that q keep [of j] by (cases "j = i") (simp_all add: queue_of_pop [OF i1])
  have here: "route_queue r i = Inr (pop_queue r1 i)"
    using i q(1) one route_queue_Nil [OF pq [OF i]] by (subst route_queue.simps) simp
  have "rfold route_queue (pop_queue r1 i) [Suc i..<length (rt_interfaces r)] = Inr (pop_queue r1 i)"
    using pq by (intro route_idle) simp
  then show ?thesis by (simp add: route_def split rfold_append before here)
qed

lemma wrong_version_serialize:
  assumes "IPv4Datagram_parse dg b = Inr (d, NoError)" and "ih_ver (dg_header d) \<noteq> 4"
  shows "IPv4Datagram_serialize (dec_ttl d) = Inl (RuntimeError ''wrong IP version'')"
proof -
  have "BufferList_size (dg_payload d) = unat (payload_length (dg_header d))"
    using assms(1) by (auto simp: IPv4Datagram_parse_def Let_def rbind_Inr_iff split: if_splits)
  moreover have "payload_length (dg_header (dec_ttl d)) = payload_length (dg_header d)" "dg_payload (dec_ttl d) = dg_payload d"
    by (simp_all add: payload_length_def dec_ttl_def)
  moreover have "ih_ver (dg_header (dec_ttl d)) = ih_ver (dg_header d)" by (simp add: dec_ttl_def)
  ultimately show ?thesis using assms(2) by (simp add: IPv4Datagram_serialize_def IPv4Header_serialize_def)
qed

section \<open>Properties\<close>

text \<open>C11: The table behind \<open>add_route\<close> and the loop of \<open>route_one_datagram\<close> are longest-prefix match: after any
  sequence of routes with prefixes of at most 32 bits and IPv4 next hops, the loop finds a route
  exactly when one of them matches the destination, and then the interface and next hop of the
  longest, of several equally long ones the first added.\<close>

theorem router_longest_prefix:
  assumes "numeric_resolver gai gni" and "list_all (rule_ok gni) rules"
  shows "returns (rfold (add_rule gni) (Router_default\<lparr>rt_interfaces := ifs\<rparr>) rules) (\<lambda>r.
    rt_interfaces r = ifs \<and> find_route (rt_table r) ip (- 1) 32 = map_option rule_target (best_route rules ip))"
  using find_route_table [of rules ip] assms(2)
  by (auto simp: add_rules_returns [OF assms] Router_default_def table_of_def list_all_iff rule_ok_def)

theorem router_longest_prefix_witness:
  "returns (rfold (add_rule quad_gni) (Router_default\<lparr>rt_interfaces := []\<rparr>)
      [\<lparr>rr_prefix = 0, rr_length = 0, rr_next_hop = None, rr_interface = 1\<rparr>,
       \<lparr>rr_prefix = 0x0a0b0c0d, rr_length = 8, rr_next_hop = Some (ipv4_address 7 0), rr_interface = 2\<rparr>]) (\<lambda>r.
    find_route (rt_table r) 0x0a010203 (- 1) 32 = Some (2, Some (ipv4_address 7 0)))"
proof -
  let ?rules = "[\<lparr>rr_prefix = 0, rr_length = 0, rr_next_hop = None, rr_interface = 1\<rparr>,
       \<lparr>rr_prefix = 0x0a0b0c0d, rr_length = 8, rr_next_hop = Some (ipv4_address 7 0), rr_interface = 2\<rparr>]"
  have b: "best_route ?rules 0x0a010203 = Some (?rules ! 1)"
    by (simp add: best_route_def rule_matches_def)
  have "list_all (rule_ok quad_gni) ?rules" by (auto simp: rule_ok_def)
  from router_longest_prefix [OF quad_resolver this, of "[]" "0x0a010203"] show ?thesis
    unfolding b by (auto simp: rule_target_def elim!: returns_mono)
qed

text \<open>C8: \<open>route\<close> forwards everything that has been received and nothing else. When every route of the table
  leads to one of the interfaces and every datagram is valid, it returns, all the queues are
  empty, and each interface has been sent, in order, exactly the queued datagrams whose route
  leads to it, with one hop less to live and the next hop of that route (the destination itself on
  a direct one); datagrams without a route or with no hop left are dropped.\<close>

theorem router_forwards:
  assumes "router_ok r"
  shows "returns (route r) (\<lambda>r'. \<forall>j < length (rt_interfaces r). ai_datagrams_out (rt_interfaces r' ! j) = [] \<and>
    send_all (ai_base (rt_interfaces r ! j)) (forwarded (rt_table r) (queued r) j) = Inr (ai_base (rt_interfaces r' ! j)))"
  by (rule returns_mono [OF route_routed [OF assms]]) (simp add: routed_def)

theorem router_forwards_witness:
  "\<exists>r. length (rt_interfaces r) = 1 \<and> length (queued r) = 1 \<and>
     returns (route r) (\<lambda>r'. ai_datagrams_out (rt_interfaces r' ! 0) = [] \<and>
       send_all (ai_base (rt_interfaces r ! 0)) [(dec_ttl (IPv4Datagram_default\<lparr>dg_header := IPv4Header_default\<lparr>ih_len := 20, ih_dst := 7\<rparr>\<rparr>), ipv4_address 7 0)] =
         Inr (ai_base (rt_interfaces r' ! 0)))"
proof -
  let ?n = "\<lparr>ni_ethernet_address = [2, 0, 0, 0, 0, 1], ni_ip_address = ipv4_address 9 0, ni_frames_out = [], ni_map = [],
            ni_already_sent_arp = [], ni_buffer = [], ni_ms_since_last_tick = 0\<rparr>"
  let ?d = "IPv4Datagram_default\<lparr>dg_header := IPv4Header_default\<lparr>ih_len := 20, ih_dst := 7\<rparr>\<rparr>"
  let ?rule = "\<lparr>rr_prefix = 0, rr_length = 0, rr_next_hop = None, rr_interface = 0\<rparr>"
  let ?r = "\<lparr>rt_interfaces = [\<lparr>ai_base = ?n, ai_datagrams_out = [?d]\<rparr>], rt_table = table_of [?rule]\<rparr>"
  have n: "iface_ok ?n"
    by (rule iface_ok_new [of quad_gni "[2, 0, 0, 0, 0, 1]" "ipv4_address 9 0"])
      (simp_all add: NetworkInterface_def ip_port_ipv4 [OF quad_resolver] is_ipv4_def)
  have d: "dg_ok ?d" by (simp add: dg_ok_def ip_valid_def IPv4Header_default_def IPv4Header_LENGTH_def IPv4Datagram_default_def)
  have ok: "router_ok ?r"
    using n d by (simp add: router_ok_def table_ok_def table_of_def rule_target_def emplace_def)
  have "find_route (table_of [?rule]) 7 (- 1) 32 = Some (0, None)"
    by (simp add: find_route_table best_route_def rule_matches_def rule_target_def)
  then have f: "forwarded (table_of [?rule]) [?d] 0 = [(dec_ttl ?d, ipv4_address 7 0)]"
    by (simp add: forwarded_def forwards_def hop_of_def IPv4Header_default_def DEFAULT_TTL_def)
  have q: "queued ?r = [?d]" by (simp add: queued_def)
  from router_forwards [OF ok] show ?thesis
    by (intro exI [of _ ?r]) (auto simp: q f elim!: returns_mono)
qed

text \<open>C22: One malformed datagram stops the router. \<open>IPv4Datagram::parse\<close> accepts a datagram of another IP
  version, so an interface that receives one queues it, and \<open>route\<close> throws when it forwards the
  datagram to a host whose Ethernet address is known, because the serializer refuses it.\<close>

theorem router_stopped_by_bad_version:
  assumes "eh_dst (ef_header f) = ni_ethernet_address (ai_base (rt_interfaces r ! i))" "eh_type (ef_header f) = TYPE_IPv4"
    and "ef_payload f = [b]" and "IPv4Datagram_parse IPv4Datagram_default b = Inr (d, NoError)" and "ih_ver (dg_header d) \<noteq> 4"
    and "i < length (rt_interfaces r)" "j < length (rt_interfaces r)"
    and "\<forall>k < length (rt_interfaces r). ai_datagrams_out (rt_interfaces r ! k) = []"
    and "forwards (rt_table r) d = Some (j, hop)" and "ipv4_numeric hop = Inr ip"
    and "map_of (ni_map (ai_base (rt_interfaces r ! j))) ip = Some (mac, t)"
    and "u64_sub (ni_ms_since_last_tick (ai_base (rt_interfaces r ! j))) t < IP_TO_ETHERNET_LIMIT"
  shows "returns (async_recv_frame (rt_interfaces r ! i) f) (\<lambda>a.
    route (r\<lparr>rt_interfaces := (rt_interfaces r)[i := a]\<rparr>) = Inl (RuntimeError ''wrong IP version''))"
proof -
  define a where "a = (rt_interfaces r ! i)\<lparr>ai_datagrams_out := [d]\<rparr>"
  define r' where "r' = r\<lparr>rt_interfaces := (rt_interfaces r)[i := a]\<rparr>"
  have a: "async_recv_frame (rt_interfaces r ! i) f = Inr a"
    using assms(1-4,6,8) by (simp add: async_recv_frame_def recv_frame_def BufferList_to_Buffer_def a_def)
  have base: "ai_base (rt_interfaces r' ! k) = ai_base (rt_interfaces r ! k)" for k
    using assms(6) by (simp add: r'_def a_def nth_list_update)
  have "send_datagram (ai_base (rt_interfaces r ! j)) (dec_ttl d) hop = Inl (RuntimeError ''wrong IP version'')"
    using assms(10-12) by (simp add: send_datagram_def generate_ip_frame_def wrong_version_serialize [OF assms(4,5)])
  then have "route_one_datagram r' d = Inl (RuntimeError ''wrong IP version'')"
    using assms(7,9) base [of j] by (simp add: route_one_eq Router_interface_def async_send_datagram_def r'_def)
  then have "route r' = Inl (RuntimeError ''wrong IP version'')"
    using assms(6,8) by (intro route_first_queue [of i r' d "[]"]) (auto simp: r'_def a_def)
  then show ?thesis by (simp add: a r'_def)
qed

theorem router_stopped_by_bad_version_witness:
  "\<exists>r f. returns (async_recv_frame (rt_interfaces r ! 0) f) (\<lambda>a.
    route (r\<lparr>rt_interfaces := (rt_interfaces r)[0 := a]\<rparr>) = Inl (RuntimeError ''wrong IP version''))"
proof -
  let ?n = "\<lparr>ni_ethernet_address = [2, 0, 0, 0, 0, 1], ni_ip_address = ipv4_address 9 0, ni_frames_out = [],
            ni_map = [(7, [2, 0, 0, 0, 0, 2], 0)], ni_already_sent_arp = [], ni_buffer = [], ni_ms_since_last_tick = 0\<rparr>"
  let ?rule = "\<lparr>rr_prefix = 0, rr_length = 0, rr_next_hop = None, rr_interface = 0\<rparr>"
  let ?r = "\<lparr>rt_interfaces = [\<lparr>ai_base = ?n, ai_datagrams_out = []\<rparr>], rt_table = table_of [?rule]\<rparr>"
  let ?b = "Buffer (be8 0x65 @ be8 0 @ be16 20 @ be16 0 @ be16 0 @ be8 64 @ be8 6 @ be16 0 @ be32 1 @ be32 7 @ [])"
  let ?f = "\<lparr>ef_header = \<lparr>eh_dst = [2, 0, 0, 0, 0, 1], eh_src = [2, 0, 0, 0, 0, 3], eh_type = TYPE_IPv4\<rparr>, ef_payload = [?b]\<rparr>"
  obtain d where d: "IPv4Datagram_parse IPv4Datagram_default ?b = Inr (d, NoError)"
    "dg_header d = ip_fields (dg_header IPv4Datagram_default) 0x65 0 20 0 0 64 6 0 1 7"
    using IPv4Datagram_parse_unchecked [of ?b "0x65" 0 20 0 0 64 6 0 1 7 "[]" IPv4Datagram_default] by (auto simp: returns_iff)
  have "find_route (table_of [?rule]) 7 (- 1) 32 = Some (0, None)"
    by (simp add: find_route_table best_route_def rule_matches_def rule_target_def)
  then have "forwards (rt_table ?r) d = Some (0, ipv4_address 7 0)"
    using d(2) by (simp add: forwards_def hop_of_def ip_fields_def)
  from router_stopped_by_bad_version [of ?f ?r 0 ?b d 0, OF _ _ _ d(1) _ _ _ _ this, of 7 "[2, 0, 0, 0, 0, 2]" 0] show ?thesis
    using d(2) by (intro exI [of _ ?r] exI [of _ ?f]) (simp add: ip_fields_def u64_sub_def IP_TO_ETHERNET_LIMIT_def)
qed

end
