(* ===== verification/Header_Printers.thy ===== *)
theory Header_Printers
  imports Net_Address TCP_Segment IPv4_Datagram Ethernet_ARP
begin

unbundle bit_operations_syntax

text \<open>
  The printers: \<open>to_string\<close> and \<open>summary\<close> of the headers (\<^verbatim>\<open>libsponge/tcp_helpers/\<close>) and \<open>hexdump\<close>
  (\<^verbatim>\<open>libsponge/util/util.cc\<close>). A \<open>stringstream\<close> is the string written so far, the manipulators \<open>hex\<close>,
  \<open>boolalpha\<close>, \<open>setw\<close> and \<open>setfill\<close> are the choice of the conversion. The characters that \<open>hexdump\<close> collects
  in \<open>pchars\<close> go through a \<open>stringstream\<close> with contents, whose write position matters.

  \<open>hex_lines\<close> is the specification of \<open>hexdump\<close>, line by line.
\<close>

section \<open>Conversions\<close>

definition hex_digit :: "nat \<Rightarrow> char" where
  "hex_digit d = (if d < 10 then digit d else char_of (87 + d))"

fun to_hex :: "nat \<Rightarrow> string" where
  "to_hex n = (if n < 16 then [hex_digit n] else to_hex (n div 16) @ [hex_digit (n mod 16)])"

declare to_hex.simps [simp del]

definition setw_zero :: "nat \<Rightarrow> string \<Rightarrow> string" where
  "setw_zero w s = replicate (w - length s) (CHR ''0'') @ s"

definition boolalpha :: "bool \<Rightarrow> string" where
  "boolalpha b = (if b then ''true'' else ''false'')"

abbreviation newline :: string where
  "newline \<equiv> [CHR 0x0A]"

abbreviation word_hex :: "'a::len word \<Rightarrow> string" where
  "word_hex w \<equiv> to_hex (unat w)"

section \<open>Headers\<close>

definition TCPHeader_to_string :: "TCPHeader \<Rightarrow> string" where
  "TCPHeader_to_string h =
     ''TCP source port: '' @ word_hex (th_sport h) @ newline @
     ''TCP dest port: '' @ word_hex (th_dport h) @ newline @
     ''TCP seqno: '' @ word_hex (raw_value (th_seqno h)) @ newline @
     ''TCP ackno: '' @ word_hex (raw_value (th_ackno h)) @ newline @
     ''TCP doff: '' @ word_hex (th_doff h) @ newline @
     ''Flags: urg: '' @ boolalpha (th_urg h) @ '' ack: '' @ boolalpha (th_ack h) @ '' psh: '' @ boolalpha (th_psh h) @
     '' rst: '' @ boolalpha (th_rst h) @ '' syn: '' @ boolalpha (th_syn h) @ '' fin: '' @ boolalpha (th_fin h) @ newline @
     ''TCP winsize: '' @ word_hex (th_win h) @ newline @
     ''TCP cksum: '' @ word_hex (th_cksum h) @ newline @
     ''TCP uptr: '' @ word_hex (th_uptr h) @ newline"

definition TCPHeader_summary :: "TCPHeader \<Rightarrow> string" where
  "TCPHeader_summary h =
     ''Header(flags='' @ (if th_syn h then ''S'' else '''') @ (if th_ack h then ''A'' else '''') @
     (if th_rst h then ''R'' else '''') @ (if th_fin h then ''F'' else '''') @ '',seqno='' @ to_string (unat (raw_value (th_seqno h))) @
     '',ack='' @ to_string (unat (raw_value (th_ackno h))) @ '',win='' @ to_string (unat (th_win h)) @ '')''"

definition IPv4Header_to_string :: "IPv4Header \<Rightarrow> string" where
  "IPv4Header_to_string h =
     ''IP version: '' @ word_hex (ih_ver h) @ newline @
     ''IP hdr len: '' @ word_hex (ih_hlen h) @ newline @
     ''IP tos: '' @ word_hex (ih_tos h) @ newline @
     ''IP dgram len: '' @ word_hex (ih_len h) @ newline @
     ''IP id: '' @ word_hex (ih_id h) @ newline @
     ''Flags: df: '' @ boolalpha (ih_df h) @ '' mf: '' @ boolalpha (ih_mf h) @ newline @
     ''Offset: '' @ word_hex (ih_offset h) @ newline @
     ''TTL: '' @ word_hex (ih_ttl h) @ newline @
     ''Protocol: '' @ word_hex (ih_proto h) @ newline @
     ''Checksum: '' @ word_hex (ih_cksum h) @ newline @
     ''Src addr: '' @ word_hex (ih_src h) @ newline @
     ''Dst addr: '' @ word_hex (ih_dst h) @ newline"

definition IPv4Header_summary :: "IPv4Header \<Rightarrow> string" where
  "IPv4Header_summary h =
     ''IPv'' @ word_hex (ih_ver h) @ '', '' @ ''len='' @ word_hex (ih_len h) @ '', '' @
     ''protocol='' @ word_hex (ih_proto h) @ '', '' @
     (if 10 \<le> unat (ih_ttl h) then '''' else ''ttl='' @ to_string (unat (ih_ttl h)) @ '', '') @
     ''src='' @ inet_ntoa (ih_src h) @ '', '' @ ''dst='' @ inet_ntoa (ih_dst h)"

fun EthernetAddress_to_string :: "EthernetAddress \<Rightarrow> string" where
  "EthernetAddress_to_string [] = ''''"
| "EthernetAddress_to_string (b # bs) =
     setw_zero 2 (word_hex b) @ (if bs \<noteq> [] then '':'' else '''') @ EthernetAddress_to_string bs"

definition EthernetHeader_to_string :: "EthernetHeader \<Rightarrow> string" where
  "EthernetHeader_to_string h =
     ''dst='' @ EthernetAddress_to_string (eh_dst h) @ '', src='' @ EthernetAddress_to_string (eh_src h) @ '', type='' @
     (if eh_type h = TYPE_IPv4 then ''IPv4''
      else if eh_type h = TYPE_ARP then ''ARP''
      else ''[unknown type '' @ word_hex (eh_type h) @ ''!]'')"

definition ARPMessage_to_string :: "ARPMessage \<Rightarrow> string" where
  "ARPMessage_to_string m =
     (let opcode_str = ''(unknown type)'';
          opcode_str = (if arp_opcode m = OPCODE_REQUEST then ''REQUEST'' else opcode_str);
          opcode_str = (if arp_opcode m = OPCODE_REPLY then ''REPLY'' else opcode_str)
      in ''opcode='' @ opcode_str @ '', sender='' @ EthernetAddress_to_string (arp_sender_ethernet_address m) @ ''/'' @
         inet_ntoa (arp_sender_ip_address m) @ '', target='' @ EthernetAddress_to_string (arp_target_ethernet_address m) @
         ''/'' @ inet_ntoa (arp_target_ip_address m))"

section \<open>hexdump\<close>

text \<open>A \<open>stringstream\<close> that starts with contents: its buffer and its write position.\<close>

type_synonym string_stream = "string \<times> nat"

definition ss_str :: "string \<Rightarrow> string_stream" where
  "ss_str s = (s, 0)"

definition ss_put :: "string_stream \<Rightarrow> char \<Rightarrow> string_stream" where
  "ss_put ss c = (take (snd ss) (fst ss) @ [c] @ drop (snd ss + 1) (fst ss), snd ss + 1)"

definition isprint :: "u8 \<Rightarrow> bool" where
  "isprint b \<longleftrightarrow> 32 \<le> unat b \<and> unat b < 127"

definition printable :: "u8 \<Rightarrow> char" where
  "printable b = (if isprint b then char_of (unat b) else CHR ''.'')"

fun hexdump_step :: "string \<Rightarrow> string \<times> string_stream \<times> nat \<Rightarrow> u8 \<Rightarrow> string \<times> string_stream \<times> nat" where
  "hexdump_step indent_string (cout, pchars, printed) b =
     (let (cout, pchars) =
            (if printed mod 16 = 0
             then (let (cout, pchars) =
                         (if printed \<noteq> 0 then (cout @ ''    '' @ fst pchars @ newline, ss_str '' '') else (cout, pchars))
                   in (cout @ indent_string @ setw_zero 8 (to_hex printed) @ '':    '', pchars))
             else if printed mod 2 = 0 then (cout @ '' '', pchars)
             else (cout, pchars));
          cout = cout @ setw_zero 2 (word_hex b);
          pchars = ss_put pchars (printable b)
      in (cout, pchars, printed + 1))"

definition hexdump :: "bytes \<Rightarrow> size_t \<Rightarrow> string res" where
  "hexdump data indent =
     (let indent_string = replicate indent (CHR '' '')
      in if 2147483648 \<le> length data then Inl SignedOverflow
         else let (cout, pchars, printed) = foldl (hexdump_step indent_string) ('''', ss_str '' '', 0) data;
                  print_rem = (16 - printed mod 16) mod 16
              in Inr (cout @ replicate (2 * print_rem + print_rem div 2 + 4) (CHR '' '') @ fst pchars @ newline @ newline))"

section \<open>Reading back\<close>

definition hex_val :: "char \<Rightarrow> nat" where
  "hex_val c = (if is_digit c then digit_val c else of_char c - 87)"

definition read_hex :: "string \<Rightarrow> nat" where
  "read_hex s = foldl (\<lambda>n c. 16 * n + hex_val c) 0 s"

fun read_ethernet :: "string \<Rightarrow> EthernetAddress" where
  "read_ethernet (a # b # s) = of_nat (read_hex [a, b]) # read_ethernet (drop 1 s)"
| "read_ethernet _ = []"

lemma hex_val_digit [simp]: "d < 16 \<Longrightarrow> hex_val (hex_digit d) = d"
  by (auto simp: hex_val_def hex_digit_def digit_def digit_val_def is_digit_def)

lemma read_to_hex [simp]: "read_hex (to_hex n) = n"
proof (induction n rule: to_hex.induct)
  case (1 n)
  have snoc: "read_hex (s @ [c]) = 16 * read_hex s + hex_val c" for s c by (simp add: read_hex_def)
  show ?case
    using 1 by (subst to_hex.simps) (auto simp: snoc, simp add: read_hex_def)
qed

lemma two_digits:
  fixes b :: u8
  shows "\<exists>c d. setw_zero 2 (word_hex b) = [c, d] \<and> read_hex [c, d] = unat b"
proof (cases "unat b < 16")
  case True
  have "hex_val (CHR ''0'') = 0" by (simp add: hex_val_def is_digit_def digit_val_def)
  with True show ?thesis by (subst to_hex.simps) (auto simp: setw_zero_def read_hex_def)
next
  case False
  have "unat b < 256" using unat_lt(1) by simp
  then have "unat b div 16 < 16" by auto
  with False show ?thesis
    by (subst to_hex.simps, subst to_hex.simps) (auto simp: setw_zero_def read_hex_def)
qed

lemma setw_zero_id: "w \<le> length s \<Longrightarrow> setw_zero w s = s"
  by (simp add: setw_zero_def)

lemma read_ethernet_to_string: "read_ethernet (EthernetAddress_to_string a) = a"
proof (induction a)
  case (Cons b bs)
  obtain c d where cd: "setw_zero 2 (word_hex b) = [c, d]" "read_hex [c, d] = unat b" using two_digits [of b] by blast
  show ?case
  proof (cases bs)
    case Nil
    then show ?thesis by (simp add: cd)
  next
    case (Cons b' bs')
    then show ?thesis using Cons.IH by (simp add: cd del: EthernetAddress_to_string.simps(2)) (simp add: cd)
  qed
qed simp

section \<open>hexdump line by line\<close>

fun hex_columns :: "nat \<Rightarrow> bytes \<Rightarrow> string" where
  "hex_columns k [] = ''''"
| "hex_columns k (b # bs) = (if 0 < k \<and> even k then '' '' else '''') @ setw_zero 2 (word_hex b) @ hex_columns (k + 1) bs"

definition hex_line :: "string \<Rightarrow> nat \<Rightarrow> bytes \<Rightarrow> string" where
  "hex_line indent_string i bs = indent_string @ setw_zero 8 (to_hex (16 * i)) @ '':    '' @ hex_columns 0 bs @
     replicate (2 * (16 - length bs) + (16 - length bs) div 2 + 4) (CHR '' '') @ map printable bs"

fun hex_lines :: "string \<Rightarrow> nat \<Rightarrow> bytes \<Rightarrow> string" where
  "hex_lines indent_string i data =
     (if length data \<le> 16 then hex_line indent_string i data
      else hex_line indent_string i (take 16 data) @ newline @ hex_lines indent_string (i + 1) (drop 16 data))"

declare hex_lines.simps [simp del]

lemma hexdump_columns:
  assumes "0 < k" "k + length bs \<le> 16" "length cs = k"
  shows "foldl (hexdump_step ind) (cout, (cs, k), 16 * i + k) bs =
    (cout @ hex_columns k bs, (cs @ map printable bs, k + length bs), 16 * i + k + length bs)"
  using assms
proof (induction bs arbitrary: k cs cout)
  case (Cons b bs)
  define n where "n = 16 * i + k"
  have n16: "n mod 16 \<noteq> 0" using Cons.prems by (simp add: n_def)
  have n2: "n mod 2 = 0 \<longleftrightarrow> even k" unfolding n_def by presburger
  have "hexdump_step ind (cout, (cs, k), n) b =
      (cout @ (if even k then '' '' else '''') @ setw_zero 2 (word_hex b), (cs @ [printable b], Suc k), Suc n)"
    unfolding hexdump_step.simps if_not_P [OF n16] n2 using Cons.prems by (cases "even k") (simp_all add: ss_put_def)
  then have "foldl (hexdump_step ind) (cout, (cs, k), n) (b # bs) = foldl (hexdump_step ind)
      (cout @ (if even k then '' '' else '''') @ setw_zero 2 (word_hex b), (cs @ [printable b], Suc k), Suc n) bs"
    by (simp only: foldl_Cons)
  also have "Suc n = 16 * i + Suc k" by (simp add: n_def)
  finally show ?case
    using Cons.IH [of "Suc k" "cs @ [printable b]" "cout @ (if even k then '' '' else '''') @ setw_zero 2 (word_hex b)"] Cons.prems
    unfolding n_def by simp
qed simp

lemma hexdump_line:
  assumes "bs \<noteq> []" "length bs \<le> 16" "i = 0 \<Longrightarrow> pchars = ss_str '' ''"
  shows "foldl (hexdump_step ind) (cout, pchars, 16 * i) bs =
    (cout @ (if i \<noteq> 0 then ''    '' @ fst pchars @ newline else '''') @ ind @ setw_zero 8 (to_hex (16 * i)) @ '':    '' @ hex_columns 0 bs,
     (map printable bs, length bs), 16 * i + length bs)"
proof -
  obtain b bs' where bs: "bs = b # bs'" using assms(1) by (cases bs) auto
  have "ss_put (ss_str '' '') (printable b) = ([printable b], 1)" by (simp add: ss_put_def ss_str_def)
  then have first: "hexdump_step ind (cout, pchars, 16 * i) b =
      (cout @ (if i \<noteq> 0 then ''    '' @ fst pchars @ newline else '''') @ ind @ setw_zero 8 (to_hex (16 * i)) @ '':    '' @
         setw_zero 2 (word_hex b), ([printable b], 1), 16 * i + 1)"
    using assms(3) by simp
  show ?thesis
    unfolding bs foldl_Cons first using assms(2) by (subst hexdump_columns) (simp_all add: bs)
qed

fun hexdump_end :: "string \<times> string_stream \<times> nat \<Rightarrow> string" where
  "hexdump_end (cout, pchars, printed) =
     (let print_rem = (16 - printed mod 16) mod 16
      in cout @ replicate (2 * print_rem + print_rem div 2 + 4) (CHR '' '') @ fst pchars)"

lemma hexdump_lines:
  assumes "data \<noteq> []" "i = 0 \<Longrightarrow> pchars = ss_str '' ''"
  shows "hexdump_end (foldl (hexdump_step ind) (cout, pchars, 16 * i) data) =
    cout @ (if i \<noteq> 0 then ''    '' @ fst pchars @ newline else '''') @ hex_lines ind i data"
  using assms
proof (induction ind i data arbitrary: cout pchars rule: hex_lines.induct)
  case (1 ind i data)
  show ?case
  proof (cases "length data \<le> 16")
    case True
    have "(16 - (16 * i + length data) mod 16) mod 16 = 16 - length data"
      using True "1.prems"(1) by (cases "length data = 16") auto
    then show ?thesis
      using True hexdump_line [OF "1.prems"(1) True "1.prems"(2)] by (simp add: hex_lines.simps hex_line_def Let_def)
  next
    case False
    let ?a = "take 16 data" and ?b = "drop 16 data"
    have a: "?a \<noteq> []" "length ?a = 16" using False by auto
    have split: "foldl (hexdump_step ind) s data = foldl (hexdump_step ind) (foldl (hexdump_step ind) s ?a) ?b" for s
      by (metis append_take_drop_id foldl_append)
    have line: "foldl (hexdump_step ind) (cout, pchars, 16 * i) ?a =
        (cout @ (if i \<noteq> 0 then ''    '' @ fst pchars @ newline else '''') @ ind @ setw_zero 8 (to_hex (16 * i)) @ '':    '' @
           hex_columns 0 ?a, (map printable ?a, 16), 16 * (i + 1))"
      using hexdump_line [where ind = ind and cout = cout, OF a(1) _ "1.prems"(2)] a(2) by simp
    show ?thesis
      unfolding split line using "1.IH" [OF False] False a by (simp add: hex_lines.simps [where i = i and data = data] hex_line_def numeral_eq_Suc)
  qed
qed

section \<open>Properties\<close>

text \<open>The printed form of an Ethernet address determines the address: two hexadecimal digits for
  each byte, separated by colons, read back to the bytes printed.\<close>

theorem ethernet_address_printed:
  "read_ethernet (EthernetAddress_to_string a) = a"
  by (rule read_ethernet_to_string)

text \<open>\<open>hexdump\<close> prints its argument in lines of sixteen bytes: each has the indentation, the offset in
  eight digits, the bytes in columns of two, and the printable characters aligned behind them.\<close>

theorem hexdump_correct:
  assumes "data \<noteq> []" and "length data < 2147483648"
  shows "hexdump data indent = Inr (hex_lines (replicate indent (CHR '' '')) 0 data @ newline @ newline)"
proof -
  obtain cout pchars printed where
    s: "foldl (hexdump_step (replicate indent (CHR '' ''))) ('''', ss_str '' '', 0) data = (cout, pchars, printed)"
    by (metis prod.exhaust)
  have "hexdump_end (cout, pchars, printed) = hex_lines (replicate indent (CHR '' '')) 0 data"
    using hexdump_lines [OF assms(1), of 0 "ss_str '' ''" "replicate indent (CHR '' '')" "''''"] by (simp add: s)
  then show ?thesis using assms(2) by (simp add: hexdump_def s Let_def)
qed

theorem hexdump_correct_witness:
  "hexdump [0x48, 0x69, 0x0a] 2 = Inr (''  00000000:    4869 0a                                    Hi.'' @ newline @ newline)"
proof -
  have "hex_lines (replicate 2 (CHR '' '')) 0 [0x48, 0x69, 0x0a] = ''  00000000:    4869 0a                                    Hi.''"
    by code_simp
  with hexdump_correct [of "[0x48, 0x69, 0x0a]" 2] show ?thesis by simp
qed

end
