(* ===== verification/Network_Simulator.thy ===== *)
theory Network_Simulator
  imports Router Header_Printers
begin

unbundle bit_operations_syntax

text \<open>
  \<^verbatim>\<open>apps/network_simulator.cc\<close>: hosts and a router on simulated wires, and the test traffic between
  them. The random generator is the parameter \<open>rd\<close>, the sequence of its results; the state of the program
  carries the number of results taken. What is printed on the error stream is modelled by the
  exceptions that making the message may raise.

  The hosts are an association list in the order of their insertion; the order in which an
  \<open>unordered_map\<close> is traversed only decides which of several failures is reported.
\<close>

section \<open>Random addresses\<close>

type_synonym random_source = "nat \<Rightarrow> u32"

definition random_bytes :: "random_source \<Rightarrow> nat \<Rightarrow> bytes" where
  "random_bytes rd k = map (\<lambda>i. ucast (rd (k + i))) [0..<6]"

definition random_host_ethernet_address :: "random_source \<Rightarrow> nat \<Rightarrow> EthernetAddress \<times> nat" where
  "random_host_ethernet_address rd k =
     (let addr = random_bytes rd k;
          addr = addr[0 := addr ! 0 OR 0x02];
          addr = addr[0 := addr ! 0 AND 0xfe]
      in (addr, k + 6))"

definition random_router_ethernet_address :: "random_source \<Rightarrow> nat \<Rightarrow> EthernetAddress \<times> nat" where
  "random_router_ethernet_address rd k =
     (let addr = random_bytes rd k; addr = addr[0 := 0x02]; addr = addr[1 := 0]; addr = addr[2 := 0]
      in (addr, k + 6))"

definition ip_of_string :: "getaddrinfo_fn \<Rightarrow> string \<Rightarrow> u32 res" where
  "ip_of_string gai str = rbind (Address_ip gai str 0) ipv4_numeric"

definition frame_summary :: "EthernetFrame \<Rightarrow> string res" where
  "frame_summary frame =
     (let ret = EthernetHeader_to_string (ef_header frame)
      in if eh_type (ef_header frame) = TYPE_IPv4 then
           rbind (BufferList_to_Buffer (ef_payload frame)) (\<lambda>b.
           rbind (IPv4Datagram_parse IPv4Datagram_default b) (\<lambda>(dgram, r).
             Inr (if r = NoError
                  then ret @ '' '' @ IPv4Header_summary (dg_header dgram) @ '' payload='' @ [CHR 0x22] @
                       map (char_of \<circ> unat) (concatenate (dg_payload dgram)) @ [CHR 0x22]
                  else ret @ '' (bad IPv4)'')))
         else if eh_type (ef_header frame) = TYPE_ARP then
           rbind (BufferList_to_Buffer (ef_payload frame)) (\<lambda>b.
           rbind (ARPMessage_parse ARPMessage_default b) (\<lambda>(arp, r).
             Inr (if r = NoError then ret @ '' '' @ ARPMessage_to_string arp else ret @ '' (bad ARP)'')))
         else Inr ret)"

section \<open>Host\<close>

record sim_host =
  h_name :: string
  h_my_address :: Address
  h_interface :: async_interface
  h_next_hop :: Address
  h_expecting :: "IPv4Datagram list"

definition same_bytes :: "IPv4Datagram \<Rightarrow> IPv4Datagram \<Rightarrow> bool res" where
  "same_bytes x y = rbind (IPv4Datagram_serialize x) (\<lambda>a. rbind (IPv4Datagram_serialize y) (\<lambda>b.
     Inr (concatenate a = concatenate b)))"

fun expecting_in :: "IPv4Datagram list \<Rightarrow> IPv4Datagram \<Rightarrow> bool res" where
  "expecting_in [] e = Inr False"
| "expecting_in (x # xs) e = rbind (same_bytes x e) (\<lambda>eq. if eq then Inr True else expecting_in xs e)"

fun remove_expectation :: "IPv4Datagram list \<Rightarrow> IPv4Datagram \<Rightarrow> IPv4Datagram list res" where
  "remove_expectation [] e = Inr []"
| "remove_expectation (x # xs) e = rbind (same_bytes x e) (\<lambda>eq.
     if eq then Inr xs else rbind (remove_expectation xs e) (\<lambda>ys. Inr (x # ys)))"

definition Host :: "getnameinfo_fn \<Rightarrow> random_source \<Rightarrow> nat \<Rightarrow> string \<Rightarrow> Address \<Rightarrow> Address \<Rightarrow> (sim_host \<times> nat) res" where
  "Host gni rd k name my_address next_hop =
     (let (mac, k) = random_host_ethernet_address rd k
      in rbind (NetworkInterface gni mac my_address) (\<lambda>n.
           Inr (\<lparr>h_name = name, h_my_address = my_address, h_interface = AsyncNetworkInterface n,
                 h_next_hop = next_hop, h_expecting = []\<rparr>, k)))"

definition bytes_of :: "string \<Rightarrow> bytes" where
  "bytes_of s = map (\<lambda>c. of_nat (of_char c)) s"

definition send_to :: "getnameinfo_fn \<Rightarrow> random_source \<Rightarrow> nat \<Rightarrow> sim_host \<Rightarrow> Address \<Rightarrow> u8 \<Rightarrow> (sim_host \<times> IPv4Datagram \<times> nat) res" where
  "send_to gni rd k h destination ttl =
     rbind (ipv4_numeric (h_my_address h)) (\<lambda>src.
     rbind (ipv4_numeric destination) (\<lambda>dst.
       let payload = BufferList_of_string (bytes_of (''random payload: {'' @ to_string (unat (rd k)) @ ''}''));
           header = IPv4Header_default\<lparr>ih_src := src, ih_dst := dst\<rparr>;
           header = header\<lparr>ih_len := of_nat (unat (ih_hlen header) * 4 + BufferList_size payload)\<rparr>;
           dgram = \<lparr>dg_header = header\<lparr>ih_ttl := ttl\<rparr>, dg_payload = payload\<rparr>
       in rbind (async_send_datagram (h_interface h) dgram (h_next_hop h)) (\<lambda>i.
          rbind (ip_port gni (h_next_hop h)) (\<lambda>_.
            Inr (h\<lparr>h_interface := i\<rparr>, dgram, k + 1)))))"

definition host_expect :: "sim_host \<Rightarrow> IPv4Datagram \<Rightarrow> sim_host" where
  "host_expect h expected = h\<lparr>h_expecting := h_expecting h @ [expected]\<rparr>"

definition dgram_text :: "IPv4Datagram \<Rightarrow> string" where
  "dgram_text d = IPv4Header_summary (dg_header d) @ '' payload='' @ [CHR 0x22] @
     map (char_of \<circ> unat) (concatenate (dg_payload d)) @ [CHR 0x22]"

fun check_received :: "string \<Rightarrow> IPv4Datagram list \<Rightarrow> IPv4Datagram list \<Rightarrow> IPv4Datagram list res" where
  "check_received name es [] = Inr es"
| "check_received name es (d # ds) =
     rbind (expecting_in es d) (\<lambda>ok.
       if \<not> ok then Inl (RuntimeError (''Host '' @ name @ '' received unexpected Internet datagram: '' @ dgram_text d))
       else rbind (remove_expectation es d) (\<lambda>es. check_received name es ds))"

definition host_check :: "sim_host \<Rightarrow> sim_host res" where
  "host_check h =
     rbind (check_received (h_name h) (h_expecting h) (ai_datagrams_out (h_interface h))) (\<lambda>es.
       let h = h\<lparr>h_expecting := es, h_interface := (h_interface h)\<lparr>ai_datagrams_out := []\<rparr>\<rparr>
       in case es of
            [] \<Rightarrow> Inr h
          | e # _ \<Rightarrow> Inl (RuntimeError (''Host '' @ h_name h @ '' did NOT receive an expected Internet datagram: '' @ dgram_text e)))"

section \<open>Wires\<close>

fun deliver :: "EthernetFrame list \<Rightarrow> async_interface \<Rightarrow> async_interface res" where
  "deliver [] dst = Inr dst"
| "deliver (f # to_send) dst =
     (let f = f\<lparr>ef_payload := BufferList_of_string (concatenate (ef_payload f))\<rparr>
      in rbind (frame_summary f) (\<lambda>_. rbind (async_recv_frame dst f) (deliver to_send)))"

abbreviation frames_of :: "async_interface \<Rightarrow> EthernetFrame list" where
  "frames_of a \<equiv> ni_frames_out (ai_base a)"

definition clear_frames :: "EthernetFrame list \<Rightarrow> async_interface \<Rightarrow> async_interface" where
  "clear_frames fs a = a\<lparr>ai_base := (ai_base a)\<lparr>ni_frames_out := drop (length fs) (frames_of a)\<rparr>\<rparr>"

definition exchange_frames :: "async_interface \<Rightarrow> async_interface \<Rightarrow> (async_interface \<times> async_interface) res" where
  "exchange_frames x y =
     (let x_frames = frames_of x; y_frames = frames_of y
      in rbind (deliver x_frames y) (\<lambda>y.
         rbind (deliver y_frames x) (\<lambda>x.
           Inr (clear_frames x_frames x, clear_frames y_frames y))))"

definition exchange_frames3 ::
  "async_interface \<Rightarrow> async_interface \<Rightarrow> async_interface \<Rightarrow> (async_interface \<times> async_interface \<times> async_interface) res" where
  "exchange_frames3 x y z =
     (let x_frames = frames_of x; y_frames = frames_of y; z_frames = frames_of z
      in rbind (deliver x_frames y) (\<lambda>y.
         rbind (deliver x_frames z) (\<lambda>z.
         rbind (deliver y_frames x) (\<lambda>x.
         rbind (deliver y_frames z) (\<lambda>z.
         rbind (deliver z_frames x) (\<lambda>x.
         rbind (deliver z_frames y) (\<lambda>y.
           Inr (clear_frames x_frames x, clear_frames y_frames y, clear_frames z_frames z))))))))"

section \<open>Network\<close>

record sim_network =
  nt_router :: router
  nt_default_id :: size_t
  nt_eth0_id :: size_t
  nt_eth1_id :: size_t
  nt_eth2_id :: size_t
  nt_uun3_id :: size_t
  nt_hs4_id :: size_t
  nt_mit5_id :: size_t
  nt_hosts :: "(string \<times> sim_host) list"

definition find_host :: "sim_network \<Rightarrow> string \<Rightarrow> sim_host res" where
  "find_host net name =
     (case map_of (nt_hosts net) name of
        None \<Rightarrow> Inl (RuntimeError (''unknown host: '' @ name))
      | Some h \<Rightarrow> if h_name h \<noteq> name then Inl (RuntimeError (''invalid host: '' @ name)) else Inr h)"

definition put_host :: "sim_network \<Rightarrow> string \<Rightarrow> sim_host \<Rightarrow> sim_network" where
  "put_host net name h = net\<lparr>nt_hosts := AList.update name h (nt_hosts net)\<rparr>"

definition put_interface :: "sim_network \<Rightarrow> size_t \<Rightarrow> async_interface \<Rightarrow> sim_network" where
  "put_interface net N a = net\<lparr>nt_router := (nt_router net)\<lparr>rt_interfaces := (rt_interfaces (nt_router net))[N := a]\<rparr>\<rparr>"

definition new_interface :: "getaddrinfo_fn \<Rightarrow> getnameinfo_fn \<Rightarrow> random_source \<Rightarrow> router \<times> nat \<Rightarrow> string \<Rightarrow> (router \<times> size_t \<times> nat) res" where
  "new_interface gai gni rd rk addr =
     (let (r, k) = rk; (mac, k) = random_router_ethernet_address rd k
      in rbind (Address_ip gai addr 0) (\<lambda>a.
         rbind (NetworkInterface gni mac a) (\<lambda>n.
           let (r, num) = add_interface r (AsyncNetworkInterface n) in Inr (r, num, k))))"

definition insert_host :: "getaddrinfo_fn \<Rightarrow> getnameinfo_fn \<Rightarrow> random_source \<Rightarrow> (string \<times> sim_host) list \<times> nat \<Rightarrow>
    string \<Rightarrow> string \<Rightarrow> string \<Rightarrow> ((string \<times> sim_host) list \<times> nat) res" where
  "insert_host gai gni rd hk name addr next_hop =
     (let (hosts, k) = hk
      in rbind (Address_ip gai addr 0) (\<lambda>a.
         rbind (Address_ip gai next_hop 0) (\<lambda>b.
         rbind (Host gni rd k name a b) (\<lambda>(h, k).
           Inr (emplace name h hosts, k)))))"

definition direct_route :: "getaddrinfo_fn \<Rightarrow> getnameinfo_fn \<Rightarrow> string \<Rightarrow> u8 \<Rightarrow> Address option \<Rightarrow> size_t \<Rightarrow> router \<Rightarrow> router res" where
  "direct_route gai gni route_prefix len next_hop num r =
     rbind (ip_of_string gai route_prefix) (\<lambda>p. add_route gni r p len next_hop num)"

definition Network :: "getaddrinfo_fn \<Rightarrow> getnameinfo_fn \<Rightarrow> random_source \<Rightarrow> nat \<Rightarrow> (sim_network \<times> nat) res" where
  "Network gai gni rd k =
     rbind (new_interface gai gni rd (Router_default, k) ''171.67.76.46'') (\<lambda>(r, default_id, k).
     rbind (new_interface gai gni rd (r, k) ''10.0.0.1'') (\<lambda>(r, eth0_id, k).
     rbind (new_interface gai gni rd (r, k) ''172.16.0.1'') (\<lambda>(r, eth1_id, k).
     rbind (new_interface gai gni rd (r, k) ''192.168.0.1'') (\<lambda>(r, eth2_id, k).
     rbind (new_interface gai gni rd (r, k) ''198.178.229.1'') (\<lambda>(r, uun3_id, k).
     rbind (new_interface gai gni rd (r, k) ''143.195.0.2'') (\<lambda>(r, hs4_id, k).
     rbind (new_interface gai gni rd (r, k) ''128.30.76.255'') (\<lambda>(r, mit5_id, k).
     rbind (insert_host gai gni rd ([], k) ''applesauce'' ''10.0.0.2'' ''10.0.0.1'') (\<lambda>hk.
     rbind (insert_host gai gni rd hk ''default_router'' ''171.67.76.1'' ''0'') (\<lambda>hk.
     rbind (insert_host gai gni rd hk ''cherrypie'' ''192.168.0.2'' ''192.168.0.1'') (\<lambda>hk.
     rbind (insert_host gai gni rd hk ''hs_router'' ''143.195.0.1'' ''0'') (\<lambda>hk.
     rbind (insert_host gai gni rd hk ''dm42'' ''198.178.229.42'' ''198.178.229.1'') (\<lambda>hk.
     rbind (insert_host gai gni rd hk ''dm43'' ''198.178.229.43'' ''198.178.229.1'') (\<lambda>(hosts, k).
       let net = \<lparr>nt_router = r, nt_default_id = default_id, nt_eth0_id = eth0_id, nt_eth1_id = eth1_id,
             nt_eth2_id = eth2_id, nt_uun3_id = uun3_id, nt_hs4_id = hs4_id, nt_mit5_id = mit5_id, nt_hosts = hosts\<rparr>
       in rbind (find_host net ''default_router'') (\<lambda>default_router.
          rbind (find_host net ''hs_router'') (\<lambda>hs_router.
          rbind (direct_route gai gni ''0.0.0.0'' 0 (Some (h_my_address default_router)) default_id r) (\<lambda>r.
          rbind (direct_route gai gni ''10.0.0.0'' 8 None eth0_id r) (\<lambda>r.
          rbind (direct_route gai gni ''172.16.0.0'' 16 None eth1_id r) (\<lambda>r.
          rbind (direct_route gai gni ''192.168.0.0'' 24 None eth2_id r) (\<lambda>r.
          rbind (direct_route gai gni ''198.178.229.0'' 24 None uun3_id r) (\<lambda>r.
          rbind (direct_route gai gni ''143.195.0.0'' 17 (Some (h_my_address hs_router)) hs4_id r) (\<lambda>r.
          rbind (direct_route gai gni ''143.195.128.0'' 18 (Some (h_my_address hs_router)) hs4_id r) (\<lambda>r.
          rbind (direct_route gai gni ''143.195.192.0'' 19 (Some (h_my_address hs_router)) hs4_id r) (\<lambda>r.
          rbind (Address_ip gai ''128.30.0.1'' 0) (\<lambda>mit.
          rbind (direct_route gai gni ''128.30.76.255'' 16 (Some mit) mit5_id r) (\<lambda>r.
            Inr (net\<lparr>nt_router := r\<rparr>, k))))))))))))))))))))))))))"

definition connect2 :: "sim_network \<Rightarrow> size_t \<Rightarrow> string \<Rightarrow> sim_network res" where
  "connect2 net num name =
     rbind (Router_interface (nt_router net) num) (\<lambda>x.
     rbind (find_host net name) (\<lambda>h.
     rbind (exchange_frames x (h_interface h)) (\<lambda>(x, y).
       Inr (put_host (put_interface net num x) name (h\<lparr>h_interface := y\<rparr>)))))"

definition connect3 :: "sim_network \<Rightarrow> size_t \<Rightarrow> string \<Rightarrow> string \<Rightarrow> sim_network res" where
  "connect3 net num name name' =
     rbind (Router_interface (nt_router net) num) (\<lambda>x.
     rbind (find_host net name) (\<lambda>h.
     rbind (find_host net name') (\<lambda>h'.
     rbind (exchange_frames3 x (h_interface h) (h_interface h')) (\<lambda>(x, y, z).
       Inr (put_host (put_host (put_interface net num x) name (h\<lparr>h_interface := y\<rparr>)) name' (h'\<lparr>h_interface := z\<rparr>))))))"

definition simulate_physical_connections :: "sim_network \<Rightarrow> sim_network res" where
  "simulate_physical_connections net =
     rbind (connect2 net (nt_default_id net) ''default_router'') (\<lambda>net.
     rbind (connect2 net (nt_eth0_id net) ''applesauce'') (\<lambda>net.
     rbind (connect2 net (nt_eth2_id net) ''cherrypie'') (\<lambda>net.
     rbind (connect2 net (nt_hs4_id net) ''hs_router'') (\<lambda>net.
       connect3 net (nt_uun3_id net) ''dm42'' ''dm43''))))"

definition simulate_round :: "sim_network \<Rightarrow> nat \<Rightarrow> sim_network res" where
  "simulate_round net i =
     rbind (route (nt_router net)) (\<lambda>r. simulate_physical_connections (net\<lparr>nt_router := r\<rparr>))"

fun check_hosts :: "(string \<times> sim_host) list \<Rightarrow> (string \<times> sim_host) list res" where
  "check_hosts [] = Inr []"
| "check_hosts ((name, h) # hs) = rbind (host_check h) (\<lambda>h. rbind (check_hosts hs) (\<lambda>hs. Inr ((name, h) # hs)))"

definition simulate :: "sim_network \<Rightarrow> sim_network res" where
  "simulate net =
     rbind (rfold simulate_round net [0..<256]) (\<lambda>net.
     rbind (check_hosts (nt_hosts net)) (\<lambda>hs. Inr (net\<lparr>nt_hosts := hs\<rparr>)))"

section \<open>The test traffic\<close>

text \<open>\<open>run_test\<close> is one block of \<open>network_simulator\<close>: a host sends a datagram, another may expect it with one hop
  less to live, and the network runs.\<close>

definition run_test :: "getnameinfo_fn \<Rightarrow> random_source \<Rightarrow> string \<Rightarrow> Address \<Rightarrow> u8 \<Rightarrow> string option \<Rightarrow> sim_network \<times> nat \<Rightarrow> (sim_network \<times> nat) res" where
  "run_test gni rd sender destination ttl receiver nk =
     (let (net, k) = nk
      in rbind (find_host net sender) (\<lambda>h.
         rbind (send_to gni rd k h destination ttl) (\<lambda>(h, dgram_sent, k).
           let net = put_host net sender h
           in rbind (case receiver of
                None \<Rightarrow> Inr net
              | Some name \<Rightarrow>
                  let dgram_sent = dgram_sent\<lparr>dg_header := (dg_header dgram_sent)\<lparr>ih_ttl := ih_ttl (dg_header dgram_sent) - 1\<rparr>\<rparr>
                  in rbind (find_host net name) (\<lambda>h. Inr (put_host net name (host_expect h dgram_sent)))) (\<lambda>net.
              rbind (simulate net) (\<lambda>net. Inr (net, k))))))"

definition address_of :: "sim_network \<Rightarrow> string \<Rightarrow> Address res" where
  "address_of net name = rbind (find_host net name) (\<lambda>h. Inr (h_my_address h))"

definition network_simulator :: "getaddrinfo_fn \<Rightarrow> getnameinfo_fn \<Rightarrow> random_source \<Rightarrow> (sim_network \<times> nat) res" where
  "network_simulator gai gni rd =
     (let to_host = (\<lambda>sender name ttl receiver nk.
            rbind (address_of (fst nk) name) (\<lambda>a. run_test gni rd sender a ttl receiver nk));
          to_addr = (\<lambda>sender str ttl receiver nk.
            rbind (Address_ip gai str 0) (\<lambda>a. run_test gni rd sender a ttl receiver nk))
      in rbind (Network gai gni rd 0) (\<lambda>nk.
         rbind (to_host ''applesauce'' ''cherrypie'' 64 (Some ''cherrypie'') nk) (\<lambda>nk.
         rbind (to_host ''cherrypie'' ''applesauce'' 64 (Some ''applesauce'') nk) (\<lambda>nk.
         rbind (to_addr ''applesauce'' ''1.2.3.4'' 64 (Some ''default_router'') nk) (\<lambda>nk.
         rbind (to_addr ''applesauce'' ''143.195.131.17'' 64 (Some ''hs_router'') nk) (\<lambda>nk.
         rbind (to_addr ''cherrypie'' ''143.195.193.52'' 64 (Some ''hs_router'') nk) (\<lambda>nk.
         rbind (to_addr ''cherrypie'' ''143.195.223.255'' 64 (Some ''hs_router'') nk) (\<lambda>nk.
         rbind (to_addr ''cherrypie'' ''143.195.224.0'' 64 (Some ''default_router'') nk) (\<lambda>nk.
         rbind (to_host ''dm42'' ''dm43'' 64 (Some ''dm43'') nk) (\<lambda>nk.
         rbind (to_addr ''applesauce'' ''1.2.3.4'' 1 None nk) (\<lambda>nk.
           to_addr ''applesauce'' ''1.2.3.4'' 0 None nk)))))))))))"

end
