(* ===== verification/Simulated_Links.thy ===== *)
theory Simulated_Links
  imports Network_Simulator
begin

text \<open>
  Interfaces on one wire. The members of a link have identities, their IP and Ethernet addresses;
  \<open>link_true\<close> says that they have nothing to send and nothing waiting, and that what they know of each
  other is right, whatever their clocks say and however old it is. A datagram handed to one member for another one
  arrives after one exchange of frames when the address is known and recent enough, and otherwise after three, an ARP
  request and its reply before it, unless the last request was too recent to ask again.
  \<open>link_idle\<close> is such a link on which no clock has moved, as in the network simulator.

  \<open>heard\<close> is an exchange in which only one member has something to say.
\<close>

section \<open>Members of a link\<close>

type_synonym identity = "u32 \<times> EthernetAddress"

definition host_ip :: "network_interface \<Rightarrow> u32" where
  "host_ip n = (case ipv4_numeric (ni_ip_address n) of Inr ip \<Rightarrow> ip | Inl _ \<Rightarrow> 0)"

definition ids_ok :: "identity list \<Rightarrow> bool" where
  "ids_ok ids \<longleftrightarrow> distinct (map fst ids) \<and> distinct (map snd ids) \<and>
     (\<forall>x \<in> set ids. eth_ok (snd x) \<and> snd x \<noteq> EMPTY_ADDRESS \<and> snd x \<noteq> ETHERNET_BROADCAST)"

definition knows :: "identity list \<Rightarrow> network_interface \<Rightarrow> bool" where
  "knows ids n \<longleftrightarrow> (\<forall>x \<in> set (ni_map n). (fst x, fst (snd x)) \<in> set ids)"

definition member :: "identity list \<Rightarrow> nat \<Rightarrow> network_interface \<Rightarrow> bool" where
  "member ids i n \<longleftrightarrow> i < length ids \<and> (host_ip n, ni_ethernet_address n) = ids ! i \<and> is_ipv4 (ni_ip_address n)"

text \<open>The address of a host is usable when it was learnt recently enough, and can be asked for when it has not been
  asked for too recently.\<close>

definition usable :: "network_interface \<Rightarrow> u32 \<Rightarrow> bool" where
  "usable n ip = (case map_of (ni_map n) ip of
     Some (_, t) \<Rightarrow> u64_sub (ni_ms_since_last_tick n) t < IP_TO_ETHERNET_LIMIT | None \<Rightarrow> False)"

definition can_ask :: "network_interface \<Rightarrow> u32 \<Rightarrow> bool" where
  "can_ask n ip = (case map_of (ni_already_sent_arp n) ip of
     Some t \<Rightarrow> ARP_TIME_LIMIT \<le> u64_sub (ni_ms_since_last_tick n) t | None \<Rightarrow> True)"

text \<open>An interface whose clock has not moved, and that has an answer to all it has asked.\<close>

definition settled :: "network_interface \<Rightarrow> bool" where
  "settled n \<longleftrightarrow> ni_ms_since_last_tick n = 0 \<and> (\<forall>x \<in> set (ni_map n). snd (snd x) = 0) \<and>
     keys_of (ni_already_sent_arp n) \<subseteq> keys_of (ni_map n)"

definition idle :: "network_interface \<Rightarrow> bool" where
  "idle n \<longleftrightarrow> ni_frames_out n = [] \<and> ni_buffer n = []"

definition link_members :: "identity list \<Rightarrow> async_interface list \<Rightarrow> bool" where
  "link_members ids L \<longleftrightarrow> length L = length ids \<and> (\<forall>i < length ids. member ids i (ai_base (L ! i)))"

definition link_true :: "identity list \<Rightarrow> async_interface list \<Rightarrow> bool" where
  "link_true ids L \<longleftrightarrow> link_members ids L \<and>
     (\<forall>i < length ids. knows ids (ai_base (L ! i)) \<and> idle (ai_base (L ! i)))"

definition link_idle :: "identity list \<Rightarrow> async_interface list \<Rightarrow> bool" where
  "link_idle ids L \<longleftrightarrow> link_true ids L \<and> (\<forall>i < length ids. settled (ai_base (L ! i)))"

definition heard :: "nat \<Rightarrow> async_interface list \<Rightarrow> async_interface list \<Rightarrow> bool" where
  "heard p L L' \<longleftrightarrow> length L' = length L \<and> p < length L \<and> L' ! p = clear_frames (frames_of (L ! p)) (L ! p) \<and>
     (\<forall>q < length L. q \<noteq> p \<longrightarrow> frames_of (L ! q) = [] \<and> deliver (frames_of (L ! p)) (L ! q) = Inr (L' ! q))"

lemma member_ip: "member ids i n \<Longrightarrow> ipv4_numeric (ni_ip_address n) = Inr (host_ip n)"
  by (auto simp: member_def host_ip_def is_ipv4_def)

lemma member_id: "member ids i n \<Longrightarrow> host_ip n = fst (ids ! i) \<and> ni_ethernet_address n = snd (ids ! i)"
  by (metis fst_conv member_def snd_conv)

lemma ids_okD:
  assumes "ids_ok ids" "i < length ids"
  shows "eth_ok (snd (ids ! i))" "snd (ids ! i) \<noteq> EMPTY_ADDRESS" "snd (ids ! i) \<noteq> ETHERNET_BROADCAST"
  using assms nth_mem [OF assms(2)] by (simp_all add: ids_ok_def)

lemma ids_ok_inj:
  assumes "ids_ok ids" "i < length ids" "j < length ids"
  shows "fst (ids ! i) = fst (ids ! j) \<longleftrightarrow> i = j" "snd (ids ! i) = snd (ids ! j) \<longleftrightarrow> i = j"
  using assms nth_eq_iff_index_eq [of "map fst ids" i j] nth_eq_iff_index_eq [of "map snd ids" i j]
  by (auto simp: ids_ok_def)

lemma knows_lookup:
  assumes "ids_ok ids" "knows ids n" "i < length ids" "map_of (ni_map n) (fst (ids ! i)) = Some (m, t)"
  shows "m = snd (ids ! i)"
proof -
  have "(fst (ids ! i), m, t) \<in> set (ni_map n)" using assms(4) by (rule map_of_SomeD)
  then have "(fst (ids ! i), m) \<in> set ids" using assms(2) by (auto simp: knows_def)
  then obtain j where "j < length ids" "ids ! j = (fst (ids ! i), m)" by (auto simp: in_set_conv_nth)
  with assms(1,3) have "ids ! i = (fst (ids ! i), m)" using ids_ok_inj(1) [of ids j i] by auto
  then show "m = snd (ids ! i)" by (metis snd_conv)
qed

lemma set_emplace: "x \<in> set (emplace k v m) \<Longrightarrow> x = (k, v) \<or> x \<in> set m"
  by (auto simp: emplace_def split: if_splits)

lemma knows_learn:
  assumes "knows ids n" "i < length ids"
  shows "knows ids (n\<lparr>ni_map := emplace (fst (ids ! i)) (snd (ids ! i), t) (ni_map n)\<rparr>)"
  using assms nth_mem [OF assms(2)] by (auto simp: knows_def dest!: set_emplace)

lemma settled_asks: "settled n \<Longrightarrow> usable n ip \<or> can_ask n ip"
proof (cases "map_of (ni_map n) ip")
  case None
  assume "settled n"
  then have "ip \<notin> keys_of (ni_already_sent_arp n)" using None by (auto simp: settled_def keys_of_def map_of_eq_None_iff)
  then show ?thesis by (simp add: can_ask_def keys_of_def map_of_eq_None_iff [THEN iffD2])
next
  case (Some e)
  assume "settled n"
  then show ?thesis
    using map_of_SomeD [OF Some] Some by (force simp: settled_def usable_def IP_TO_ETHERNET_LIMIT_def)
qed

section \<open>Frames\<close>

lemma frame_summary_flat: "\<exists>s. frame_summary (flat f) = Inr s"
proof -
  let ?b = "Buffer (concatenate (ef_payload f))"
  obtain dg r where "IPv4Datagram_parse IPv4Datagram_default ?b = Inr (dg, r)" using IPv4Datagram_parse_total [of ?b IPv4Datagram_default] by auto
  moreover obtain m r' where "ARPMessage_parse ARPMessage_default ?b = Inr (m, r')" using ARPMessage_parse_total [of ?b ARPMessage_default] by auto
  ultimately show ?thesis
    by (simp add: frame_summary_def flat_def Let_def BufferList_of_string_def BufferList_to_Buffer_def)
qed

lemma deliver_Cons: "deliver (f # fs) a = rbind (async_recv_frame a (flat f)) (deliver fs)"
  using frame_summary_flat [of f] by (auto simp: flat_def)

lemma async_recv_None: "recv_frame (ai_base a) f = Inr (n, None) \<Longrightarrow> async_recv_frame a f = Inr (a\<lparr>ai_base := n\<rparr>)"
  by (simp add: async_recv_frame_def)

lemma deliver_other:
  assumes "eh_dst (ef_header f) \<noteq> ni_ethernet_address (ai_base a)" "eh_dst (ef_header f) \<noteq> ETHERNET_BROADCAST"
  shows "deliver [f] a = Inr a"
  using recv_other_frame [of "flat f" "ai_base a"] assms by (simp add: deliver_Cons async_recv_frame_def flat_def del: deliver.simps(2))

lemma deliver_arp:
  assumes "eth_ok mac" "eth_ok dst" "opcode = OPCODE_REQUEST \<or> opcode = OPCODE_REPLY"
    and "dst = EMPTY_ADDRESS \<or> dst = ni_ethernet_address (ai_base a)"
    and "arp_received (ai_base a) (arp_message mac ip dst dst_ip opcode) = Inr n"
  shows "deliver [arp_frame mac ip dst dst_ip opcode] a = Inr (a\<lparr>ai_base := n\<rparr>)"
  using recv_arp_frame [OF assms(1-4), of ip dst_ip] assms(5)
  by (simp add: deliver_Cons async_recv_None del: deliver.simps(2))

lemma deliver_ip:
  assumes "dg_ok d" "IPv4Datagram_serialize d = Inr bl" "dst = ni_ethernet_address (ai_base a)"
  shows "\<exists>d'. deliver [ip_frame src dst bl] a = Inr (a\<lparr>ai_datagrams_out := ai_datagrams_out a @ [d']\<rparr>) \<and> dg_same d d'"
  using recv_ip_frame [OF refl _ assms(2), of "ai_base a" src] assms(1,3)
  by (auto simp: deliver_Cons async_recv_frame_def dg_ok_def simp del: deliver.simps(2))

section \<open>Steps of address resolution\<close>

lemma eth_ok_empty [simp]: "eth_ok EMPTY_ADDRESS"
  by (simp add: eth_ok_def EMPTY_ADDRESS_def)

lemma send_known:
  assumes "ids_ok ids" "knows ids n" "idle n" "j < length ids" and "usable n (fst (ids ! j))"
    and "ipv4_numeric hop = Inr (fst (ids ! j))" "IPv4Datagram_serialize d = Inr bl"
  shows "send_datagram n d hop = Inr (n\<lparr>ni_frames_out := [ip_frame (ni_ethernet_address n) (snd (ids ! j)) bl]\<rparr>)"
proof -
  obtain t where e: "map_of (ni_map n) (fst (ids ! j)) = Some (snd (ids ! j), t)" "u64_sub (ni_ms_since_last_tick n) t < IP_TO_ETHERNET_LIMIT"
    using assms(5) knows_lookup [OF assms(1,2,4)] by (auto simp: usable_def split: option.splits)
  show ?thesis
    using assms(3,6,7) e by (simp add: send_datagram_def generate_ip_frame_eq ni_emit_def idle_def)
qed

lemma send_unusable: "ipv4_numeric hop = Inr ip \<Longrightarrow> \<not> usable n ip \<Longrightarrow> send_datagram n d hop = ask_and_buffer n d ip"
  by (auto simp: send_datagram_def usable_def split: option.splits)

lemma send_unknown:
  assumes "member ids i n" "idle n" and "\<not> usable n ip" "can_ask n ip" and "ipv4_numeric hop = Inr ip"
  shows "send_datagram n d hop = Inr (n\<lparr>ni_frames_out := [arp_frame (ni_ethernet_address n) (host_ip n) EMPTY_ADDRESS ip OPCODE_REQUEST],
    ni_already_sent_arp := emplace ip (ni_ms_since_last_tick n) (ni_already_sent_arp n), ni_buffer := [(ip, [d])]\<rparr>)"
proof -
  have ask: "(case map_of (ni_already_sent_arp n) ip of None \<Rightarrow> True | Some t \<Rightarrow> ARP_TIME_LIMIT \<le> u64_sub (ni_ms_since_last_tick n) t)"
    using assms(4) by (simp add: can_ask_def split: option.splits)
  show ?thesis
    unfolding send_unusable [OF assms(5,3)] ask_and_buffer_def Let_def if_P [OF ask]
    using assms(2) generate_arp_frame_is [OF member_ip [OF assms(1)], of OPCODE_REQUEST EMPTY_ADDRESS ip]
    by (simp add: ni_emit_def idle_def)
qed

lemma send_waits:
  assumes "idle n" and "\<not> usable n ip" "\<not> can_ask n ip" and "ipv4_numeric hop = Inr ip"
  shows "send_datagram n d hop = Inr (n\<lparr>ni_buffer := [(ip, [d])]\<rparr>)"
proof -
  have ask: "\<not> (case map_of (ni_already_sent_arp n) ip of None \<Rightarrow> True | Some t \<Rightarrow> ARP_TIME_LIMIT \<le> u64_sub (ni_ms_since_last_tick n) t)"
    using assms(3) by (simp add: can_ask_def split: option.splits)
  show ?thesis
    unfolding send_unusable [OF assms(4,2)] ask_and_buffer_def Let_def if_not_P [OF ask] using assms(1) by (simp add: idle_def)
qed

lemma hear_request:
  assumes "member ids i n" "idle n"
  shows "arp_received n (arp_message m ip EMPTY_ADDRESS dst_ip OPCODE_REQUEST) =
    Inr (n\<lparr>ni_map := emplace ip (m, ni_ms_since_last_tick n) (ni_map n),
      ni_frames_out := (if dst_ip = host_ip n then [arp_frame (ni_ethernet_address n) (host_ip n) m ip OPCODE_REPLY] else [])\<rparr>)"
proof -
  let ?n = "n\<lparr>ni_map := emplace ip (m, ni_ms_since_last_tick n) (ni_map n)\<rparr>"
  have my: "ipv4_numeric (ni_ip_address ?n) = Inr (host_ip n)" using member_ip [OF assms(1)] by simp
  show ?thesis
    using assms(2) my generate_arp_frame_is [OF my, of OPCODE_REPLY m ip]
    by (simp add: arp_received_def arp_message_def idle_def ni_emit_def)
qed

lemma hear_reply:
  assumes "ni_frames_out n = []" "ni_buffer n = [(ip, [d])]" "IPv4Datagram_serialize d = Inr bl"
    and "ni_ethernet_address n \<noteq> EMPTY_ADDRESS"
  shows "arp_received n (arp_message m ip (ni_ethernet_address n) dst_ip OPCODE_REPLY) =
    Inr (n\<lparr>ni_map := emplace ip (m, ni_ms_since_last_tick n) (ni_map n),
      ni_frames_out := [ip_frame (ni_ethernet_address n) m bl], ni_buffer := []\<rparr>)"
  using assms by (simp add: arp_received_def arp_message_def generate_ip_frame_eq ni_emit_def)

section \<open>Delivery on a link\<close>

inductive hears :: "IPv4Datagram list list \<Rightarrow> nat \<Rightarrow> async_interface list \<Rightarrow> async_interface list \<Rightarrow> bool" for Q where
  hears_end: "hears Q 0 L L"
| hears_step: "map ai_datagrams_out L = Q \<Longrightarrow> heard p L L1 \<Longrightarrow> hears Q k L1 L' \<Longrightarrow> hears Q (Suc k) L L'"

lemma frames_nil: "ni_frames_out n = [] \<Longrightarrow> n\<lparr>ni_frames_out := []\<rparr> = n"
  by (cases n) simp

lemma async_base_id: "a\<lparr>ai_base := ai_base a\<rparr> = a"
  by simp

lemma link_trueD:
  assumes "link_true ids L" "q < length ids"
  shows "member ids q (ai_base (L ! q))" "knows ids (ai_base (L ! q))" "idle (ai_base (L ! q))"
    "host_ip (ai_base (L ! q)) = fst (ids ! q)" "ni_ethernet_address (ai_base (L ! q)) = snd (ids ! q)"
    "frames_of (L ! q) = []" "ni_buffer (ai_base (L ! q)) = []"
  using assms member_id by (auto simp: link_true_def link_members_def idle_def)

lemma link_true_length: "link_true ids L \<Longrightarrow> length L = length ids"
  by (simp add: link_true_def link_members_def)

lemma heardI:
  assumes "length L' = length L" "p < length L" "frames_of (L ! p) = fs" "L' ! p = clear_frames fs (L ! p)"
    and "\<And>q. q < length L \<Longrightarrow> q \<noteq> p \<Longrightarrow> frames_of (L ! q) = [] \<and> deliver fs (L ! q) = Inr (L' ! q)"
  shows "heard p L L'"
  using assms by (simp add: heard_def)

text \<open>An IPv4 frame in the queue of one member reaches the one it is addressed to.\<close>

lemma link_carry:
  assumes ids: "ids_ok ids" and L: "link_true ids L" and s: "s < length ids" and r: "r < length ids" and sr: "s \<noteq> r"
    and d: "dg_ok d" and bl: "IPv4Datagram_serialize d = Inr bl"
    and n: "n = (ai_base (L ! s))\<lparr>ni_frames_out := [ip_frame (snd (ids ! s)) (snd (ids ! r)) bl]\<rparr>"
  shows "\<exists>d'. heard s (L[s := (L ! s)\<lparr>ai_base := n\<rparr>]) (L[r := (L ! r)\<lparr>ai_datagrams_out := ai_datagrams_out (L ! r) @ [d']\<rparr>]) \<and> dg_same d d'"
proof -
  note S = link_trueD [OF L s] and R = link_trueD [OF L r] and len = link_true_length [OF L]
  let ?f = "ip_frame (snd (ids ! s)) (snd (ids ! r)) bl"
  obtain d' where d': "deliver [?f] (L ! r) = Inr ((L ! r)\<lparr>ai_datagrams_out := ai_datagrams_out (L ! r) @ [d']\<rparr>)" "dg_same d d'"
    using deliver_ip [OF d bl, of "snd (ids ! r)" "L ! r" "snd (ids ! s)"] R(5) by auto
  have "heard s (L[s := (L ! s)\<lparr>ai_base := n\<rparr>]) (L[r := (L ! r)\<lparr>ai_datagrams_out := ai_datagrams_out (L ! r) @ [d']\<rparr>])"
  proof (rule heardI [where fs = "[?f]"], goal_cases)
    case 4
    show ?case using s r sr len S(6) by (simp add: clear_frames_def n frames_nil)
  next
    case (5 q)
    then have q: "q < length ids" "q \<noteq> s" using len by simp_all
    note Q = link_trueD [OF L q(1)]
    have "deliver [?f] (L ! q) = Inr (L ! q)" if "q \<noteq> r"
      using that Q(5) ids_ok_inj(2) [OF ids q(1) r] ids_okD(3) [OF ids r] by (intro deliver_other) auto
    then show ?case using q len d'(1) Q(6) by (cases "q = r") simp_all
  qed (use s len in \<open>simp_all add: n\<close>)
  with d'(2) show ?thesis by blast
qed

definition learnt :: "identity \<Rightarrow> network_interface \<Rightarrow> network_interface" where
  "learnt i n = n\<lparr>ni_map := emplace (fst i) (snd i, ni_ms_since_last_tick n) (ni_map n)\<rparr>"

lemma learnt_fields [simp]:
  "ni_frames_out (learnt i n) = ni_frames_out n" "ni_buffer (learnt i n) = ni_buffer n" "idle (learnt i n) = idle n"
  "ni_ethernet_address (learnt i n) = ni_ethernet_address n" "host_ip (learnt i n) = host_ip n"
  "member ids q (learnt i n) = member ids q n" "ni_already_sent_arp (learnt i n) = ni_already_sent_arp n"
  by (simp_all add: learnt_def idle_def host_ip_def member_def)

text \<open>The link after \<open>s\<close> has asked for the address of \<open>r\<close> and has been answered.\<close>

definition resolved :: "identity list \<Rightarrow> nat \<Rightarrow> nat \<Rightarrow> async_interface list \<Rightarrow> async_interface list" where
  "resolved ids s r L = map (\<lambda>q. if q = s
     then (L ! q)\<lparr>ai_base := (learnt (ids ! r) (ai_base (L ! q)))\<lparr>ni_already_sent_arp :=
            emplace (fst (ids ! r)) (ni_ms_since_last_tick (ai_base (L ! q))) (ni_already_sent_arp (ai_base (L ! q)))\<rparr>\<rparr>
     else (L ! q)\<lparr>ai_base := learnt (ids ! s) (ai_base (L ! q))\<rparr>) [0..<length L]"

lemma resolved_true:
  assumes L: "link_true ids L" and s: "s < length ids" and r: "r < length ids"
  shows "link_true ids (resolved ids s r L)"
proof -
  have K: "knows ids (learnt (ids ! j) (ai_base (L ! q)))" if "q < length ids" "j < length ids" for q j
    using knows_learn [OF link_trueD(2) [OF L that(1)] that(2)] by (simp add: learnt_def)
  have "member ids q ((learnt i n)\<lparr>ni_already_sent_arp := x\<rparr>) = member ids q n" "idle ((learnt i n)\<lparr>ni_already_sent_arp := x\<rparr>) = idle n"
    "knows ids ((learnt i n)\<lparr>ni_already_sent_arp := x\<rparr>) = knows ids (learnt i n)"
    for q i n x by (simp_all add: learnt_def member_def host_ip_def idle_def knows_def)
  then show ?thesis
    using L K s r link_true_length [OF L] by (auto simp: link_true_def link_members_def resolved_def)
qed

lemma resolved_idle:
  assumes L: "link_idle ids L" and s: "s < length ids" and r: "r < length ids"
  shows "link_idle ids (resolved ids s r L)"
proof -
  have "settled (learnt i n)" "settled ((learnt i n)\<lparr>ni_already_sent_arp := emplace (fst i) t (ni_already_sent_arp n)\<rparr>)" if "settled n" for i n t
    using that by (auto simp: settled_def learnt_def dest!: set_emplace)
  then show ?thesis
    using L resolved_true [OF _ s r, of L] link_true_length [of ids L] by (auto simp: link_idle_def resolved_def)
qed

lemma link_unknown:
  assumes ids: "ids_ok ids" and L: "link_true ids L" and s: "s < length ids" and r: "r < length ids" and sr: "s \<noteq> r"
    and bl: "IPv4Datagram_serialize d = Inr bl" and hop: "ipv4_numeric hop = Inr (fst (ids ! r))"
    and unknown: "\<not> usable (ai_base (L ! s)) (fst (ids ! r))" "can_ask (ai_base (L ! s)) (fst (ids ! r))"
    and K: "K = resolved ids s r L" and n2: "n2 = (ai_base (K ! s))\<lparr>ni_frames_out := [ip_frame (snd (ids ! s)) (snd (ids ! r)) bl]\<rparr>"
  shows "\<exists>n L1. send_datagram (ai_base (L ! s)) d hop = Inr n \<and> heard s (L[s := (L ! s)\<lparr>ai_base := n\<rparr>]) L1 \<and>
    map ai_datagrams_out L1 = map ai_datagrams_out L \<and> heard r L1 (K[s := (K ! s)\<lparr>ai_base := n2\<rparr>])"
proof -
  note S = link_trueD [OF L s] and R = link_trueD [OF L r] and len = link_true_length [OF L]
  let ?ipr = "fst (ids ! r)" and ?a = "ai_base (L ! s)"
  let ?req = "arp_frame (snd (ids ! s)) (fst (ids ! s)) EMPTY_ADDRESS ?ipr OPCODE_REQUEST"
  let ?rep = "arp_frame (snd (ids ! r)) ?ipr (snd (ids ! s)) (fst (ids ! s)) OPCODE_REPLY"
  let ?asked = "emplace ?ipr (ni_ms_since_last_tick ?a) (ni_already_sent_arp ?a)"
  define n where "n = ?a\<lparr>ni_frames_out := [?req], ni_already_sent_arp := ?asked, ni_buffer := [(?ipr, [d])]\<rparr>"
  define L1 where "L1 = map (\<lambda>q. if q = s then (L ! s)\<lparr>ai_base := n\<lparr>ni_frames_out := []\<rparr>\<rparr>
     else (L ! q)\<lparr>ai_base := (learnt (ids ! s) (ai_base (L ! q)))\<lparr>ni_frames_out := (if q = r then [?rep] else [])\<rparr>\<rparr>) [0..<length L]"
  have sent: "send_datagram ?a d hop = Inr n"
    using send_unknown [OF S(1,3) unknown hop] S(4,5) by (simp add: n_def)
  have first: "heard s (L[s := (L ! s)\<lparr>ai_base := n\<rparr>]) L1"
  proof (rule heardI [where fs = "[?req]"], goal_cases)
    case 4
    show ?case using s len by (simp add: clear_frames_def L1_def n_def)
  next
    case (5 q)
    then have q: "q < length ids" "q \<noteq> s" using len by simp_all
    note Q = link_trueD [OF L q(1)]
    have "?ipr = host_ip (ai_base (L ! q)) \<longleftrightarrow> q = r" using Q(4) ids_ok_inj(1) [OF ids q(1) r] by auto
    then have "arp_received (ai_base (L ! q)) (arp_message (snd (ids ! s)) (fst (ids ! s)) EMPTY_ADDRESS ?ipr OPCODE_REQUEST) =
        Inr ((learnt (ids ! s) (ai_base (L ! q)))\<lparr>ni_frames_out := (if q = r then [?rep] else [])\<rparr>)"
      using hear_request [OF Q(1,3)] Q(4,5) R(4,5) by (simp add: learnt_def)
    then show ?case
      using deliver_arp [OF ids_okD(1) [OF ids s] eth_ok_empty, of OPCODE_REQUEST "L ! q"] q len Q(6) by (simp add: L1_def)
  qed (use s len in \<open>simp_all add: n_def L1_def\<close>)
  have queues: "map ai_datagrams_out L1 = map ai_datagrams_out L"
    by (rule nth_equalityI) (simp_all add: L1_def)
  have Ks: "K ! s = (L ! s)\<lparr>ai_base := (learnt (ids ! r) ?a)\<lparr>ni_already_sent_arp := ?asked\<rparr>\<rparr>"
    "\<And>q. q < length ids \<Longrightarrow> q \<noteq> s \<Longrightarrow> K ! q = (L ! q)\<lparr>ai_base := learnt (ids ! s) (ai_base (L ! q))\<rparr>" "length K = length ids"
    using s len by (simp_all add: K resolved_def)
  have second: "heard r L1 (K[s := (K ! s)\<lparr>ai_base := n2\<rparr>])"
  proof (rule heardI [where fs = "[?rep]"], goal_cases)
    case 4
    show ?case using r sr len R(6) Ks by (simp add: clear_frames_def L1_def frames_nil learnt_def)
  next
    case (5 q)
    then have q: "q < length ids" "q \<noteq> r" using len by (simp_all add: L1_def)
    note Q = link_trueD [OF L q(1)]
    show ?case
    proof (cases "q = s")
      case True
      from hear_reply [of "n\<lparr>ni_frames_out := []\<rparr>" ?ipr d bl "snd (ids ! r)" "fst (ids ! s)"] bl ids_okD(2) [OF ids s] S(5,6,7)
      have "arp_received (n\<lparr>ni_frames_out := []\<rparr>) (arp_message (snd (ids ! r)) ?ipr (snd (ids ! s)) (fst (ids ! s)) OPCODE_REPLY) = Inr n2"
        by (cases ?a) (simp add: n_def n2 Ks(1) learnt_def)
      then show ?thesis
        using deliver_arp [OF ids_okD(1) [OF ids r] ids_okD(1) [OF ids s], of OPCODE_REPLY "L1 ! s"] True s len S(5) Ks(1,3)
        by (simp add: L1_def n_def)
    next
      case False
      have "deliver [?rep] (L1 ! q) = Inr (L1 ! q)"
        using Q(5) q False len ids_ok_inj(2) [OF ids q(1) s] ids_okD(2,3) [OF ids s]
        by (intro deliver_other) (auto simp: L1_def arp_frame_def)
      then show ?thesis using False q len Q(6) Ks(2) [OF q(1)] by (simp add: L1_def frames_nil)
    qed
  qed (use r sr len Ks(3) in \<open>simp_all add: L1_def\<close>)
  show ?thesis using sent first queues second by blast
qed

lemma link_true_queue:
  assumes "link_true ids L" shows "link_true ids (L[r := (L ! r)\<lparr>ai_datagrams_out := ds\<rparr>])"
  using assms by (cases "r < length L") (auto simp: link_true_def link_members_def nth_list_update)

lemma queues_base: "map ai_datagrams_out (M[s := (M ! s)\<lparr>ai_base := m\<rparr>]) = map ai_datagrams_out M"
  by (simp add: map_update) (metis list_update_id map_update)

text \<open>The link, but for the queue of the receiver, after a datagram has been delivered.\<close>

definition after_send :: "identity list \<Rightarrow> nat \<Rightarrow> nat \<Rightarrow> async_interface list \<Rightarrow> async_interface list" where
  "after_send ids s r L = (if usable (ai_base (L ! s)) (fst (ids ! r)) then L else resolved ids s r L)"

lemma after_send_queues: "map ai_datagrams_out (after_send ids s r L) = map ai_datagrams_out L"
proof -
  have "map ai_datagrams_out (resolved ids s r L) = map ai_datagrams_out L"
    by (rule nth_equalityI) (simp_all add: resolved_def)
  then show ?thesis by (simp add: after_send_def)
qed

lemma link_sends:
  assumes ids: "ids_ok ids" and L: "link_true ids L" and s: "s < length ids" and r: "r < length ids" and sr: "s \<noteq> r"
    and d: "dg_ok d" and hop: "ipv4_numeric hop = Inr (fst (ids ! r))"
    and may: "usable (ai_base (L ! s)) (fst (ids ! r)) \<or> can_ask (ai_base (L ! s)) (fst (ids ! r))"
    and K: "K = after_send ids s r L"
  shows "\<exists>n d'. send_datagram (ai_base (L ! s)) d hop = Inr n \<and> dg_same d d' \<and>
    hears (map ai_datagrams_out L) (if usable (ai_base (L ! s)) (fst (ids ! r)) then 1 else 3) (L[s := (L ! s)\<lparr>ai_base := n\<rparr>])
      (K[r := (K ! r)\<lparr>ai_datagrams_out := ai_datagrams_out (K ! r) @ [d']\<rparr>])"
proof -
  obtain bl where bl: "IPv4Datagram_serialize d = Inr bl" using dg_ok_serialize [OF d] by blast
  note S = link_trueD [OF L s]
  show ?thesis
  proof (cases "usable (ai_base (L ! s)) (fst (ids ! r))")
    case True
    let ?n = "(ai_base (L ! s))\<lparr>ni_frames_out := [ip_frame (snd (ids ! s)) (snd (ids ! r)) bl]\<rparr>"
    have n: "send_datagram (ai_base (L ! s)) d hop = Inr ?n"
      using send_known [OF ids S(2,3) r True hop bl] S(5) by simp
    from link_carry [OF ids L s r sr d bl refl] obtain d' where "dg_same d d'"
      "heard s (L[s := (L ! s)\<lparr>ai_base := ?n\<rparr>]) (L[r := (L ! r)\<lparr>ai_datagrams_out := ai_datagrams_out (L ! r) @ [d']\<rparr>])" by blast
    with hears_step [OF queues_base this(2) hears_end] n True show ?thesis by (auto simp: K after_send_def)
  next
    case False
    then have K': "K = resolved ids s r L" by (simp add: K after_send_def)
    let ?n2 = "(ai_base (K ! s))\<lparr>ni_frames_out := [ip_frame (snd (ids ! s)) (snd (ids ! r)) bl]\<rparr>"
    from link_unknown [OF ids L s r sr bl hop False _ K' refl] may False obtain n L1 where
      n: "send_datagram (ai_base (L ! s)) d hop = Inr n" "heard s (L[s := (L ! s)\<lparr>ai_base := n\<rparr>]) L1"
      "map ai_datagrams_out L1 = map ai_datagrams_out L" "heard r L1 (K[s := (K ! s)\<lparr>ai_base := ?n2\<rparr>])" by blast
    have "link_true ids K" unfolding K' by (rule resolved_true [OF L s r])
    from link_carry [OF ids this s r sr d bl refl] obtain d' where
      d': "dg_same d d'" "heard s (K[s := (K ! s)\<lparr>ai_base := ?n2\<rparr>]) (K[r := (K ! r)\<lparr>ai_datagrams_out := ai_datagrams_out (K ! r) @ [d']\<rparr>])"
      by blast
    have "hears (map ai_datagrams_out L) (Suc (Suc (Suc 0))) (L[s := (L ! s)\<lparr>ai_base := n\<rparr>])
        (K[r := (K ! r)\<lparr>ai_datagrams_out := ai_datagrams_out (K ! r) @ [d']\<rparr>])"
      by (rule hears_step [OF queues_base n(2)], rule hears_step [OF n(3,4)], rule hears_step [OF _ d'(2) hears_end])
        (simp add: queues_base K after_send_queues)
    then show ?thesis using n(1) d'(1) False by (auto simp: numeral_3_eq_3)
  qed
qed

lemma link_delivery:
  assumes ids: "ids_ok ids" and L: "link_idle ids L" and s: "s < length ids" and r: "r < length ids" and sr: "s \<noteq> r"
    and d: "dg_ok d" and hop: "ipv4_numeric hop = Inr (fst (ids ! r))"
  shows "\<exists>n k K d'. send_datagram (ai_base (L ! s)) d hop = Inr n \<and> 0 < k \<and> k \<le> 3 \<and> dg_same d d' \<and> link_idle ids K \<and>
    map ai_datagrams_out K = map ai_datagrams_out L \<and>
    hears (map ai_datagrams_out L) k (L[s := (L ! s)\<lparr>ai_base := n\<rparr>]) (K[r := (K ! r)\<lparr>ai_datagrams_out := ai_datagrams_out (K ! r) @ [d']\<rparr>])"
proof -
  let ?K = "after_send ids s r L" and ?k = "if usable (ai_base (L ! s)) (fst (ids ! r)) then 1 else 3 :: nat"
  have "link_true ids L" "usable (ai_base (L ! s)) (fst (ids ! r)) \<or> can_ask (ai_base (L ! s)) (fst (ids ! r))"
    using L s settled_asks by (auto simp: link_idle_def)
  note sent = link_sends [OF ids this(1) s r sr d hop this(2) refl]
  have "link_idle ids ?K" using L resolved_idle [OF L s r] by (simp add: after_send_def)
  moreover have "0 < ?k" "?k \<le> 3" by simp_all
  ultimately show ?thesis using sent after_send_queues by blast
qed

section \<open>Exchanges\<close>

lemma clear_frames_Nil [simp]: "clear_frames [] a = a"
  by (simp add: clear_frames_def)

lemma heard_exchange: "heard p [x, y] [x', y'] \<Longrightarrow> exchange_frames x y = Inr (x', y')"
proof -
  assume h: "heard p [x, y] [x', y']"
  then have "p = 0 \<or> p = 1" by (auto simp: heard_def)
  then show ?thesis
  proof
    assume "p = 0"
    with h have "frames_of y = []" "deliver (frames_of x) y = Inr y'" "x' = clear_frames (frames_of x) x"
      unfolding heard_def by (auto dest: spec [of _ 1])
    then show ?thesis by (simp add: exchange_frames_def)
  next
    assume "p = 1"
    with h have "frames_of x = []" "deliver (frames_of y) x = Inr x'" "y' = clear_frames (frames_of y) y"
      unfolding heard_def by (auto dest: spec [of _ 0])
    then show ?thesis by (simp add: exchange_frames_def)
  qed
qed

lemma heard_exchange3: "heard p [x, y, z] [x', y', z'] \<Longrightarrow> exchange_frames3 x y z = Inr (x', y', z')"
proof -
  assume h: "heard p [x, y, z] [x', y', z']"
  then have all: "q < 3 \<Longrightarrow> q \<noteq> p \<Longrightarrow> frames_of ([x, y, z] ! q) = [] \<and> deliver (frames_of ([x, y, z] ! p)) ([x, y, z] ! q) = Inr ([x', y', z'] ! q)"
    "[x', y', z'] ! p = clear_frames (frames_of ([x, y, z] ! p)) ([x, y, z] ! p)" for q
    by (simp_all add: heard_def numeral_3_eq_3)
  from h have "p < 3" by (simp add: heard_def)
  then consider "p = 0" | "p = 1" | "p = 2" by linarith
  then show ?thesis
    using all(1) [of 0] all(1) [of 1] all(1) [of 2] all(2) by cases (simp_all add: exchange_frames3_def)
qed

text \<open>The wires of the simulator join two or three interfaces.\<close>

fun wire_exchange :: "async_interface list \<Rightarrow> async_interface list res" where
  "wire_exchange [x, y] = rbind (exchange_frames x y) (\<lambda>(x, y). Inr [x, y])"
| "wire_exchange [x, y, z] = rbind (exchange_frames3 x y z) (\<lambda>(x, y, z). Inr [x, y, z])"
| "wire_exchange L = Inr L"

fun wire_times :: "nat \<Rightarrow> async_interface list \<Rightarrow> async_interface list res" where
  "wire_times 0 L = Inr L"
| "wire_times (Suc k) L = rbind (wire_exchange L) (wire_times k)"

lemma heard_wire:
  assumes "heard p L L'" "length L \<in> {2, 3}"
  shows "wire_exchange L = Inr L'"
proof -
  have len: "length L' = length L" using assms(1) by (simp add: heard_def)
  from assms(2) consider "length L = 2" | "length L = 3" by blast
  then show ?thesis
  proof cases
    case 1
    then obtain x y x' y' where "L = [x, y]" "L' = [x', y']" using len by (auto simp: numeral_2_eq_2 length_Suc_conv)
    then show ?thesis using heard_exchange [of p x y x' y'] assms(1) by simp
  next
    case 2
    then obtain x y z x' y' z' where "L = [x, y, z]" "L' = [x', y', z']" using len by (auto simp: numeral_3_eq_3 length_Suc_conv)
    then show ?thesis using heard_exchange3 [of p x y z x' y' z'] assms(1) by simp
  qed
qed

lemma hears_wire: "hears Q k L L' \<Longrightarrow> length L \<in> {2, 3} \<Longrightarrow> wire_times k L = Inr L'"
proof (induction rule: hears.induct)
  case (hears_step L p L1 k L')
  have "length L1 = length L" using hears_step.hyps(2) by (simp add: heard_def)
  then show ?case using hears_step heard_wire [OF hears_step.hyps(2) hears_step.prems] by simp
qed simp

section \<open>Properties\<close>

text \<open>C9: A wire of two or three interfaces, each with its own clock, that have nothing to send and know only true
  addresses, which may be out of date. A datagram sent from one of them to another arrives there and nowhere else, with
  the same header fields and payload: after one exchange of frames when the address of the receiver is
  known and recent enough, and otherwise after three, when it may be asked for. Afterwards nothing is left to send,
  nothing waits, and all addresses known are true. If the address may not be asked for yet, nothing is sent and
  the datagram waits.\<close>

theorem arp_resolution_delivers:
  assumes "ids_ok ids" and "length ids \<in> {2, 3}" and "link_true ids L" and "s < length ids" and "r < length ids" and "s \<noteq> r"
    and "dg_ok d" and "ipv4_numeric hop = Inr (fst (ids ! r))"
    and "known = usable (ai_base (L ! s)) (fst (ids ! r))" and "ask = can_ask (ai_base (L ! s)) (fst (ids ! r))"
  shows "if known \<or> ask
    then returns (rbind (async_send_datagram (L ! s) d hop) (\<lambda>x. wire_times (if known then 1 else 3) (L[s := x]))) (\<lambda>L'.
      link_true ids L' \<and> (\<exists>d'. dg_same d d' \<and>
        map ai_datagrams_out L' = (map ai_datagrams_out L)[r := ai_datagrams_out (L ! r) @ [d']]))
    else async_send_datagram (L ! s) d hop = Inr ((L ! s)\<lparr>ai_base := (ai_base (L ! s))\<lparr>ni_buffer := [(fst (ids ! r), [d])]\<rparr>\<rparr>)"
proof (cases "known \<or> ask")
  case True
  define K where "K = after_send ids s r L"
  have len: "length L = length ids" using assms(3) by (rule link_true_length)
  from link_sends [OF assms(1,3-8) _ K_def] True obtain n d' where n: "send_datagram (ai_base (L ! s)) d hop = Inr n" "dg_same d d'"
    "hears (map ai_datagrams_out L) (if known then 1 else 3) (L[s := (L ! s)\<lparr>ai_base := n\<rparr>])
      (K[r := (K ! r)\<lparr>ai_datagrams_out := ai_datagrams_out (K ! r) @ [d']\<rparr>])" unfolding assms(9,10) by blast
  have "link_true ids K" using assms(3) resolved_true [OF assms(3-5)] by (simp add: K_def after_send_def)
  then have "link_true ids (K[r := (K ! r)\<lparr>ai_datagrams_out := ai_datagrams_out (K ! r) @ [d']\<rparr>])" by (rule link_true_queue)
  moreover have q: "map ai_datagrams_out K = map ai_datagrams_out L" unfolding K_def by (rule after_send_queues)
  then have "ai_datagrams_out (K ! r) = ai_datagrams_out (L ! r)" using assms(5) len by (metis length_map nth_map)
  ultimately show ?thesis
    using True n(1,2) hears_wire [OF n(3)] len assms(2) q by (auto simp: async_send_datagram_def map_update)
next
  case False
  then show ?thesis
    using send_waits [OF link_trueD(3) [OF assms(3,4)] _ _ assms(8)] by (simp add: assms(9,10) async_send_datagram_def)
qed

text \<open>Three interfaces: the first one learnt the address of the third 40 seconds ago, too long ago to use it, and asks again.\<close>

theorem arp_resolution_delivers_witness:
  "\<exists>x y z d hop. ni_ms_since_last_tick (ai_base x) = 40000 \<and> ni_map (ai_base x) \<noteq> [] \<and>
     returns (rbind (async_send_datagram x d hop) (\<lambda>x. wire_times 3 [x, y, z])) (\<lambda>L'.
       \<exists>d'. dg_same d d' \<and> map ai_datagrams_out L' = [[], [], [d']])"
proof -
  let ?a = "(9 :: u32, [2, 0, 0, 0, 0, 1] :: EthernetAddress)" and ?b = "(7 :: u32, [2, 0, 0, 0, 0, 2] :: EthernetAddress)"
    and ?c = "(8 :: u32, [2, 0, 0, 0, 0, 3] :: EthernetAddress)"
  let ?ids = "[?a, ?b, ?c]"
  let ?n = "\<lambda>i m t. \<lparr>ai_base = \<lparr>ni_ethernet_address = snd i, ni_ip_address = ipv4_address (fst i) 0, ni_frames_out = [], ni_map = m,
            ni_already_sent_arp = map (\<lambda>x. (fst x, snd (snd x))) m, ni_buffer = [], ni_ms_since_last_tick = t\<rparr>, ai_datagrams_out = []\<rparr>"
  let ?x = "?n ?a [(fst ?c, snd ?c, 0)] 40000" and ?y = "?n ?b [] 7" and ?z = "?n ?c [] 12"
  let ?d = "IPv4Datagram_default\<lparr>dg_header := IPv4Header_default\<lparr>ih_len := 20, ih_dst := 8\<rparr>\<rparr>"
  have ids: "ids_ok ?ids" "length ?ids \<in> {2, 3}" by (simp_all add: ids_ok_def eth_ok_def EMPTY_ADDRESS_def ETHERNET_BROADCAST_def)
  have d: "dg_ok ?d" by (simp add: dg_ok_def ip_valid_def IPv4Header_default_def IPv4Header_LENGTH_def IPv4Datagram_default_def)
  have L: "link_true ?ids [?x, ?y, ?z]"
    by (auto simp: link_true_def link_members_def member_def host_ip_def is_ipv4_def knows_def idle_def less_Suc_eq)
  have hop: "ipv4_numeric (ipv4_address 8 0) = Inr (fst (?ids ! 2))" by simp
  have u: "False = usable (ai_base ([?x, ?y, ?z] ! 0)) (fst (?ids ! 2))" "True = can_ask (ai_base ([?x, ?y, ?z] ! 0)) (fst (?ids ! 2))"
    by (simp_all add: usable_def can_ask_def IP_TO_ETHERNET_LIMIT_def ARP_TIME_LIMIT_def u64_sub_def)
  from arp_resolution_delivers [OF ids L _ _ _ d hop u] have "returns (rbind (async_send_datagram ?x ?d (ipv4_address 8 0)) (\<lambda>x. wire_times 3 [x, ?y, ?z])) (\<lambda>L'.
      \<exists>d'. dg_same ?d d' \<and> map ai_datagrams_out L' = [[], [], [d']])"
    by (auto elim!: returns_mono simp: numeral_2_eq_2)
  moreover have "ni_ms_since_last_tick (ai_base ?x) = 40000" "ni_map (ai_base ?x) \<noteq> []" by simp_all
  ultimately show ?thesis by blast
qed

end
