(* ===== verification/Simulated_Network.thy ===== *)
theory Simulated_Network
  imports Simulated_Links
begin

text \<open>
  The whole simulated network: five wires between the router and six hosts. \<open>net_of\<close> builds the state
  of \<open>Network\<close> from the states of the wires; a round of the simulation in which at most one interface
  of each wire has frames to send is a step of the wires. A datagram from one host to another needs
  at most six rounds, so the 256 rounds of \<open>simulate\<close> are enough, and every test of
  \<open>network_simulator\<close> ends with the network idle again.
\<close>

section \<open>Equal datagrams\<close>

definition dg_equiv :: "IPv4Datagram \<Rightarrow> IPv4Datagram \<Rightarrow> bool" where
  "dg_equiv x y \<longleftrightarrow> (dg_header x)\<lparr>ih_cksum := 0\<rparr> = (dg_header y)\<lparr>ih_cksum := 0\<rparr> \<and>
     concatenate (dg_payload x) = concatenate (dg_payload y)"

lemma dg_equiv_header:
  "dg_equiv x y \<Longrightarrow> \<exists>c. dg_header y = (dg_header x)\<lparr>ih_cksum := c\<rparr>"
  unfolding dg_equiv_def by (cases "dg_header x"; cases "dg_header y") auto

lemma dg_same_equiv: "dg_same x y \<Longrightarrow> dg_equiv x y"
  by (simp add: dg_same_def dg_equiv_def dg_out_def)

lemma dg_equiv_trans: "dg_equiv x y \<Longrightarrow> dg_equiv y z \<Longrightarrow> dg_equiv x z"
  by (simp add: dg_equiv_def)

lemma dg_equiv_dec_ttl: "dg_equiv x y \<Longrightarrow> dg_equiv (dec_ttl x) (dec_ttl y)"
  using dg_equiv_header [of x y] by (auto simp: dg_equiv_def dec_ttl_def)

lemma dg_equiv_ok: "dg_equiv x y \<Longrightarrow> dg_ok y = dg_ok x"
  using dg_equiv_header [of x y] by (auto simp: dg_equiv_def dg_ok_def ip_valid_def)

lemma dg_equiv_same_bytes:
  assumes "dg_equiv x y" "dg_ok x"
  shows "same_bytes x y = Inr True"
proof -
  have ok: "dg_ok y" using dg_equiv_ok [OF assms(1)] assms(2) by simp
  obtain c where c: "dg_header y = (dg_header x)\<lparr>ih_cksum := c\<rparr>" using dg_equiv_header [OF assms(1)] by blast
  have "dg_out (dg_header y) = dg_out (dg_header x)" by (simp add: c dg_out_def)
  moreover have "ih_hlen (dg_header y) = ih_hlen (dg_header x)" by (simp add: c)
  ultimately show ?thesis
    using assms IPv4Datagram_serialize_eq [of x] IPv4Datagram_serialize_eq [of y] ok
    by (simp add: same_bytes_def dg_ok_def dg_equiv_def)
qed

section \<open>The network as wires\<close>

definition host_names :: "string list" where
  "host_names = [''applesauce'', ''default_router'', ''cherrypie'', ''hs_router'', ''dm42'', ''dm43'']"

definition host_ips :: "u32 list" where
  "host_ips = [0x0a000002, 0xab434c01, 0xc0a80002, 0x8fc30001, 0xc6b2e52a, 0xc6b2e52b]"

definition host_hops :: "u32 list" where
  "host_hops = [0x0a000001, 0, 0xc0a80001, 0, 0xc6b2e501, 0xc6b2e501]"

text \<open>The wire of each host and its place there, and the interface of the router on each wire.\<close>

definition host_link :: "nat list" where
  "host_link = [1, 0, 2, 3, 4, 4]"

definition host_pos :: "nat list" where
  "host_pos = [1, 1, 1, 1, 1, 2]"

definition link_iface :: "nat list" where
  "link_iface = [0, 1, 3, 5, 4]"

definition router_interfaces :: "async_interface list list \<Rightarrow> async_interface \<Rightarrow> async_interface \<Rightarrow> async_interface list" where
  "router_interfaces Ls e1 e5 = [Ls ! 0 ! 0, Ls ! 1 ! 0, e1, Ls ! 2 ! 0, Ls ! 4 ! 0, Ls ! 3 ! 0, e5]"

definition the_host :: "async_interface list list \<Rightarrow> IPv4Datagram list list \<Rightarrow> nat \<Rightarrow> sim_host" where
  "the_host Ls Es j = \<lparr>h_name = host_names ! j, h_my_address = ipv4_address (host_ips ! j) 0,
     h_interface = Ls ! (host_link ! j) ! (host_pos ! j), h_next_hop = ipv4_address (host_hops ! j) 0, h_expecting = Es ! j\<rparr>"

definition net_of :: "routing_table \<Rightarrow> async_interface \<Rightarrow> async_interface \<Rightarrow> async_interface list list \<Rightarrow> IPv4Datagram list list \<Rightarrow> sim_network" where
  "net_of t e1 e5 Ls Es =
     \<lparr>nt_router = \<lparr>rt_interfaces = router_interfaces Ls e1 e5, rt_table = t\<rparr>, nt_default_id = 0, nt_eth0_id = 1, nt_eth1_id = 2,
      nt_eth2_id = 3, nt_uun3_id = 4, nt_hs4_id = 5, nt_mit5_id = 6,
      nt_hosts = map (\<lambda>j. (host_names ! j, the_host Ls Es j)) [0..<6]\<rparr>"

definition shape :: "async_interface list list \<Rightarrow> bool" where
  "shape Ls \<longleftrightarrow> map length Ls = [2, 2, 2, 2, 3]"

lemma shape_length: "shape Ls \<Longrightarrow> length Ls = 5"
  unfolding shape_def by (drule arg_cong [of _ _ length]) simp

lemma less_numeral_cases: "(n::nat) < 5 \<Longrightarrow> n \<in> {0, 1, 2, 3, 4}" "n < 6 \<Longrightarrow> n \<in> {0, 1, 2, 3, 4, 5}"
  by auto

lemma shapeD:
  assumes "shape Ls"
  obtains x0 y0 x1 y1 x2 y2 x3 y3 x4 y4 z4 where "Ls = [[x0, y0], [x1, y1], [x2, y2], [x3, y3], [x4, y4, z4]]"
proof -
  have 2: "length l = 2 \<longleftrightarrow> (\<exists>x y. l = [x, y])" and 3: "length l = 3 \<longleftrightarrow> (\<exists>x y z. l = [x, y, z])" for l :: "async_interface list"
    by (auto simp: numeral_2_eq_2 numeral_3_eq_3 length_Suc_conv)
  from assms show thesis using that by (auto simp: shape_def map_eq_Cons_conv 2 3)
qed

lemma shape_update [simp]: "b < 5 \<Longrightarrow> shape Ls \<Longrightarrow> length L = length (Ls ! b) \<Longrightarrow> shape (Ls[b := L])"
  unfolding shape_def by (metis list_update_id map_update nth_map length_map list_update_beyond not_le)

lemmas net_tables = host_names_def host_ips_def host_hops_def host_link_def host_pos_def link_iface_def

lemma upt_6: "[0..<6] = [0, 1, 2, 3, 4, 5::nat]"
  by code_simp

lemma distinct_names: "distinct (map ((!) host_names) [0..<6])"
  by code_simp

lemma host_place:
  assumes "i < 6" "j < 6"
  shows "host_pos ! j \<noteq> 0" "host_link ! j < 5" "host_pos ! j < 3"
    "host_link ! i = host_link ! j \<and> host_pos ! i = host_pos ! j \<longleftrightarrow> i = j"
proof -
  show "host_pos ! j \<noteq> 0" "host_link ! j < 5" "host_pos ! j < 3"
    using less_numeral_cases(2) [OF assms(2)] by (auto simp: host_pos_def host_link_def)
  have "distinct (zip host_link host_pos)" "length host_link = 6" "length host_pos = 6" by code_simp+
  then show "host_link ! i = host_link ! j \<and> host_pos ! i = host_pos ! j \<longleftrightarrow> i = j"
    using nth_eq_iff_index_eq [of "zip host_link host_pos" i j] assms by auto
qed

lemma alist_update_map:
  "distinct (map nm xs) \<Longrightarrow> j \<in> set xs \<Longrightarrow>
    AList.update (nm j) v (map (\<lambda>i. (nm i, f i)) xs) = map (\<lambda>i. (nm i, if i = j then v else f i)) xs"
proof (induction xs)
  case (Cons x xs)
  show ?case
  proof (cases "x = j")
    case True
    then have "i \<in> set xs \<Longrightarrow> i \<noteq> j" for i using Cons.prems by auto
    then show ?thesis using True by simp
  next
    case False
    then have "nm x \<noteq> nm j" using Cons.prems by auto
    then show ?thesis using False Cons by simp
  qed
qed simp

lemma find_host_net:
  assumes "j < 6"
  shows "find_host (net_of t e1 e5 Ls Es) (host_names ! j) = Inr (the_host Ls Es j)"
proof -
  have "map_of (map (\<lambda>j. (host_names ! j, the_host Ls Es j)) [0..<6]) (host_names ! j) = Some (the_host Ls Es j)"
    using assms distinct_names by (intro map_of_is_SomeI) (auto simp: comp_def)
  then show ?thesis by (simp add: find_host_def net_of_def the_host_def)
qed

lemma put_host_net:
  assumes j: "j < 6" and Ls: "shape Ls" and Es: "length Es = 6" and p: "host_pos ! j < length (Ls ! (host_link ! j))"
  shows "put_host (net_of t e1 e5 Ls Es) (host_names ! j) ((the_host Ls Es j)\<lparr>h_interface := a, h_expecting := es\<rparr>) =
    net_of t e1 e5 (Ls[host_link ! j := (Ls ! (host_link ! j))[host_pos ! j := a]]) (Es[j := es])"
proof -
  let ?Ls = "Ls[host_link ! j := (Ls ! (host_link ! j))[host_pos ! j := a]]"
  have nth: "?Ls ! l ! q = (if l = host_link ! j \<and> q = host_pos ! j then a else Ls ! l ! q)" for l q
    using host_place(2) [OF j j] shape_length [OF Ls] p by (cases "l = host_link ! j") simp_all
  have r: "router_interfaces ?Ls e1 e5 = router_interfaces Ls e1 e5"
    using host_place(1) [OF j j] unfolding router_interfaces_def nth by simp
  have h: "the_host ?Ls (Es[j := es]) i =
      (if i = j then (the_host Ls Es j)\<lparr>h_interface := a, h_expecting := es\<rparr> else the_host Ls Es i)" if "i < 6" for i
    using Es j host_place(4) [OF that j] by (auto simp: the_host_def nth)
  show ?thesis
    using alist_update_map [OF distinct_names, of j "(the_host Ls Es j)\<lparr>h_interface := a, h_expecting := es\<rparr>" "the_host Ls Es"] j
    by (simp add: put_host_def net_of_def r h cong: map_cong)
qed

lemma router_interfaces_nth: "b < 5 \<Longrightarrow> router_interfaces Ls e1 e5 ! (link_iface ! b) = Ls ! b ! 0"
  using less_numeral_cases(1) [of b] by (auto simp: router_interfaces_def net_tables)

lemma router_interfaces_update:
  assumes "b < 5" "shape Ls"
  shows "(router_interfaces Ls e1 e5)[link_iface ! b := a] = router_interfaces (Ls[b := (Ls ! b)[0 := a]]) e1 e5"
proof -
  obtain x0 y0 x1 y1 x2 y2 x3 y3 x4 y4 z4 where Ls: "Ls = [[x0, y0], [x1, y1], [x2, y2], [x3, y3], [x4, y4, z4]]"
    using assms(2) by (rule shapeD)
  show ?thesis
    using less_numeral_cases(1) [OF assms(1)] by (auto simp: Ls router_interfaces_def net_tables)
qed

lemma length_router_interfaces [simp]: "length (router_interfaces Ls e1 e5) = 7"
  by (simp add: router_interfaces_def)

lemma put_interface_net:
  assumes "b < 5" "shape Ls"
  shows "put_interface (net_of t e1 e5 Ls Es) (link_iface ! b) a = (net_of t e1 e5 (Ls[b := (Ls ! b)[0 := a]]) Es)"
proof -
  have "Ls[b := (Ls ! b)[0 := a]] ! l ! p = Ls ! l ! p" if "p \<noteq> 0" for l p
    using that assms(1) shape_length [OF assms(2)] by (cases "l = b") simp_all
  then have "the_host (Ls[b := (Ls ! b)[0 := a]]) Es j = the_host Ls Es j" if "j < 6" for j
    using host_place(1) [OF that that] by (simp add: the_host_def)
  then show ?thesis
    by (simp add: put_interface_def net_of_def router_interfaces_update [OF assms])
qed

lemma connect2_net:
  assumes "b < 4" "j < 6" "host_link ! j = b" "shape Ls" "length Es = 6" and h: "heard p (Ls ! b) L'"
  shows "connect2 (net_of t e1 e5 Ls Es) (link_iface ! b) (host_names ! j) = Inr (net_of t e1 e5 (Ls[b := L']) Es)"
proof -
  have "length (Ls ! b) = 2" using assms(1,4) less_numeral_cases(1) [of b] by (auto simp: shape_def map_eq_Cons_conv)
  moreover have "length L' = length (Ls ! b)" using h by (simp add: heard_def)
  ultimately obtain x y x' y' where L: "Ls ! b = [x, y]" "L' = [x', y']" by (auto simp: numeral_2_eq_2 length_Suc_conv)
  have ex: "exchange_frames x y = Inr (x', y')" using h by (intro heard_exchange) (simp add: L)
  have pos: "host_pos ! j = 1" using less_numeral_cases(2) [OF assms(2)] assms(1,3) by (auto simp: net_tables)
  have ifc: "Router_interface (nt_router (net_of t e1 e5 Ls Es)) (link_iface ! b) = Inr x"
    using router_interfaces_nth [of b Ls e1 e5] assms(1) less_numeral_cases(1) [of b]
    by (auto simp: Router_interface_def net_of_def L net_tables)
  let ?Ls = "Ls[b := [x', y]]"
  have sh: "shape ?Ls" using assms(1,4) by (simp add: L)
  have host: "the_host ?Ls Es j = the_host Ls Es j" "h_interface (the_host Ls Es j) = y" "h_expecting (the_host Ls Es j) = Es ! j"
    using assms(1,3) shape_length [OF assms(4)] by (simp_all add: the_host_def pos L nth_list_update)
  show ?thesis
    using put_host_net [OF assms(2) sh assms(5) _, where t = t and ?e1.0 = e1 and ?e5.0 = e5 and a = y' and es = "Es ! j"] assms(1,3,4) shape_length [OF assms(4)]
    unfolding connect2_def ifc find_host_net [OF assms(2)] rbind.simps host ex
    by (simp add: put_interface_net L pos host the_host_def)
qed

lemma put_interface_host:
  assumes "shape Ls" "length Es = 6" "j < 6" "host_link ! j = b" "host_pos ! j = p" "p < length (Ls ! b)"
    "h = (the_host Ls' Es' j)\<lparr>h_interface := a\<rparr>" "Es' ! j = Es ! j"
  shows "put_host (net_of t e1 e5 Ls Es) (host_names ! j) h = net_of t e1 e5 (Ls[b := (Ls ! b)[p := a]]) Es"
proof -
  have "h = (the_host Ls Es j)\<lparr>h_interface := a, h_expecting := Es ! j\<rparr>" using assms(7,8) by (simp add: the_host_def)
  then show ?thesis using put_host_net [OF assms(3,1,2)] assms(2-6) by simp
qed

lemma connect3_net:
  assumes "shape Ls" "length Es = 6" and h: "heard p (Ls ! 4) L'"
  shows "connect3 (net_of t e1 e5 Ls Es) 4 ''dm42'' ''dm43'' = Inr (net_of t e1 e5 (Ls[4 := L']) Es)"
proof -
  have "length (Ls ! 4) = 3" using assms(1) by (auto simp: shape_def map_eq_Cons_conv)
  moreover have "length L' = length (Ls ! 4)" using h by (simp add: heard_def)
  ultimately obtain x y z x' y' z' where L: "Ls ! 4 = [x, y, z]" "L' = [x', y', z']" by (auto simp: numeral_3_eq_3 length_Suc_conv)
  have len: "length Ls = 5" by (rule shape_length [OF assms(1)])
  have ex: "exchange_frames3 x y z = Inr (x', y', z')" using h by (intro heard_exchange3) (simp add: L)
  have tab: "link_iface ! 4 = 4" "host_names ! 4 = ''dm42''" "host_names ! 5 = ''dm43''" "host_link ! 4 = 4" "host_link ! 5 = 4"
    "host_pos ! 4 = 1" "host_pos ! 5 = 2" by (simp_all add: net_tables)
  have ifc: "Router_interface (nt_router (net_of t e1 e5 Ls Es)) 4 = Inr x"
    using router_interfaces_nth [of 4 Ls e1 e5] by (simp add: Router_interface_def net_of_def L tab)
  have fh: "find_host (net_of t e1 e5 Ls Es) ''dm42'' = Inr (the_host Ls Es 4)" "find_host (net_of t e1 e5 Ls Es) ''dm43'' = Inr (the_host Ls Es 5)"
    using find_host_net [of 4] find_host_net [of 5] by (simp_all add: tab)
  have hi: "h_interface (the_host Ls Es 4) = y" "h_interface (the_host Ls Es 5) = z" by (simp_all add: the_host_def tab L)
  have s1: "put_interface (net_of t e1 e5 Ls Es) 4 x' = net_of t e1 e5 (Ls[4 := [x', y, z]]) Es"
    using put_interface_net [of 4 Ls t e1 e5 Es x'] assms(1) by (simp add: tab L)
  have sh: "shape (Ls[4 := [x', y, z]])" "shape (Ls[4 := [x', y', z]])" using assms(1) by (simp_all add: L)
  have s2: "put_host (net_of t e1 e5 (Ls[4 := [x', y, z]]) Es) ''dm42'' ((the_host Ls Es 4)\<lparr>h_interface := y'\<rparr>) =
      net_of t e1 e5 (Ls[4 := [x', y', z]]) Es"
    using put_interface_host [where j = 4 and b = 4 and p = 1 and a = y' and Ls' = Ls, OF sh(1) assms(2) _ _ _ _ refl refl] len by (simp add: tab)
  have s3: "put_host (net_of t e1 e5 (Ls[4 := [x', y', z]]) Es) ''dm43'' ((the_host Ls Es 5)\<lparr>h_interface := z'\<rparr>) =
      net_of t e1 e5 (Ls[4 := [x', y', z']]) Es"
    using put_interface_host [where j = 5 and b = 4 and p = 2 and a = z' and Ls' = Ls, OF sh(2) assms(2) _ _ _ _ refl refl] len by (simp add: tab)
  show ?thesis unfolding connect3_def ifc fh rbind.simps hi ex prod.case s1 s2 s3 L ..
qed

lemma physical_heard:
  assumes "shape Ls" "length Es = 6" "length Ls' = 5" and h: "\<And>b. b < 5 \<Longrightarrow> \<exists>p. heard p (Ls ! b) (Ls' ! b)"
  shows "simulate_physical_connections (net_of t e1 e5 Ls Es) = Inr (net_of t e1 e5 Ls' Es)"
proof -
  have len: "length (Ls' ! b) = length (Ls ! b)" if "b < 5" for b using h [OF that] by (auto simp: heard_def)
  note sl = shape_length [OF assms(1)]
  define A where "A = Ls[0 := Ls' ! 0]"
  define B where "B = A[1 := Ls' ! 1]"
  define C where "C = B[2 := Ls' ! 2]"
  define D where "D = C[3 := Ls' ! 3]"
  have sh: "shape A" "shape B" "shape C" "shape D"
    using assms(1) len [of 0] len [of 1] len [of 2] len [of 3] by (simp_all add: A_def B_def C_def D_def)
  have nth: "A ! 1 = Ls ! 1" "B ! 2 = Ls ! 2" "C ! 3 = Ls ! 3" "D ! 4 = Ls ! 4" by (simp_all add: A_def B_def C_def D_def)
  have ids: "nt_default_id (net_of t e1 e5 X Es) = link_iface ! 0" "nt_eth0_id (net_of t e1 e5 X Es) = link_iface ! 1"
    "nt_eth2_id (net_of t e1 e5 X Es) = link_iface ! 2" "nt_hs4_id (net_of t e1 e5 X Es) = link_iface ! 3" "nt_uun3_id (net_of t e1 e5 X Es) = 4" for X
    by (simp_all add: net_of_def link_iface_def)
  have names: "''default_router'' = host_names ! 1" "''applesauce'' = host_names ! 0" "''cherrypie'' = host_names ! 2" "''hs_router'' = host_names ! 3"
    "host_link ! 1 = 0" "host_link ! 0 = 1" "host_link ! 2 = 2" "host_link ! 3 = 3"
    by (simp_all add: net_tables)
  obtain p0 p1 p2 p3 p4 where h': "heard p0 (Ls ! 0) (Ls' ! 0)" "heard p1 (Ls ! 1) (Ls' ! 1)" "heard p2 (Ls ! 2) (Ls' ! 2)"
    "heard p3 (Ls ! 3) (Ls' ! 3)" "heard p4 (Ls ! 4) (Ls' ! 4)"
    using h [of 0] h [of 1] h [of 2] h [of 3] h [of 4] by auto
  have c: "connect2 (net_of t e1 e5 Ls Es) (link_iface ! 0) (host_names ! 1) = Inr (net_of t e1 e5 A Es)"
    "connect2 (net_of t e1 e5 A Es) (link_iface ! 1) (host_names ! 0) = Inr (net_of t e1 e5 B Es)"
    "connect2 (net_of t e1 e5 B Es) (link_iface ! 2) (host_names ! 2) = Inr (net_of t e1 e5 C Es)"
    "connect2 (net_of t e1 e5 C Es) (link_iface ! 3) (host_names ! 3) = Inr (net_of t e1 e5 D Es)"
    "connect3 (net_of t e1 e5 D Es) 4 ''dm42'' ''dm43'' = Inr (net_of t e1 e5 (D[4 := Ls' ! 4]) Es)"
    using connect2_net [OF _ _ names(5) assms(1,2) h'(1)] connect2_net [OF _ _ names(6) sh(1) assms(2), of p1 "Ls' ! 1"]
      connect2_net [OF _ _ names(7) sh(2) assms(2), of p2 "Ls' ! 2"] connect2_net [OF _ _ names(8) sh(3) assms(2), of p3 "Ls' ! 3"]
      connect3_net [OF sh(4) assms(2), of p4 "Ls' ! 4"] h' nth
    unfolding A_def B_def C_def D_def by simp_all
  have "D[4 := Ls' ! 4] = Ls'"
    using sl assms(3) by (intro nth_equalityI) (auto simp: A_def B_def C_def D_def nth_list_update dest!: less_numeral_cases(1))
  then show ?thesis
    unfolding simulate_physical_connections_def names(1-4) ids c rbind.simps by simp
qed

section \<open>Rounds\<close>

definition silent :: "async_interface list \<Rightarrow> bool" where
  "silent L \<longleftrightarrow> (\<forall>a \<in> set L. frames_of a = [])"

definition no_queues :: "async_interface list list \<Rightarrow> async_interface \<Rightarrow> async_interface \<Rightarrow> bool" where
  "no_queues Ls e1 e5 \<longleftrightarrow> ai_datagrams_out e1 = [] \<and> ai_datagrams_out e5 = [] \<and> (\<forall>b < 5. ai_datagrams_out (Ls ! b ! 0) = [])"

lemma silent_heard: "silent L \<Longrightarrow> L \<noteq> [] \<Longrightarrow> heard 0 L L"
  by (auto simp: heard_def silent_def)

lemma shape_nonempty: "shape Ls \<Longrightarrow> b < 5 \<Longrightarrow> Ls ! b \<noteq> []"
  using less_numeral_cases(1) [of b] by (elim shapeD) auto

lemma route_no_queues:
  assumes "no_queues Ls e1 e5"
  shows "route \<lparr>rt_interfaces = router_interfaces Ls e1 e5, rt_table = t\<rparr> = Inr \<lparr>rt_interfaces = router_interfaces Ls e1 e5, rt_table = t\<rparr>"
proof (rule route_quiet)
  fix i assume "i < length (rt_interfaces \<lparr>rt_interfaces = router_interfaces Ls e1 e5, rt_table = t\<rparr>)"
  then have "router_interfaces Ls e1 e5 ! i \<in> set (router_interfaces Ls e1 e5)" by simp
  then show "ai_datagrams_out (rt_interfaces \<lparr>rt_interfaces = router_interfaces Ls e1 e5, rt_table = t\<rparr> ! i) = []"
    using assms by (auto simp: router_interfaces_def no_queues_def)
qed

lemma round_physical:
  assumes "no_queues Ls e1 e5"
  shows "simulate_round (net_of t e1 e5 Ls Es) i = simulate_physical_connections (net_of t e1 e5 Ls Es)"
  using route_no_queues [OF assms, of t] by (simp add: simulate_round_def net_of_def)

lemma round_step:
  assumes "shape Ls" "length Es = 6" "no_queues Ls e1 e5" "a < 5" "heard p (Ls ! a) L'" "\<And>b. b < 5 \<Longrightarrow> b \<noteq> a \<Longrightarrow> silent (Ls ! b)"
  shows "simulate_round (net_of t e1 e5 Ls Es) i = Inr (net_of t e1 e5 (Ls[a := L']) Es)"
  unfolding round_physical [OF assms(3)]
proof (rule physical_heard [OF assms(1,2)])
  show "length (Ls[a := L']) = 5" using shape_length [OF assms(1)] by simp
  fix b :: nat assume b: "b < 5"
  show "\<exists>p. heard p (Ls ! b) (Ls[a := L'] ! b)"
  proof (cases "b = a")
    case True
    then show ?thesis using assms(4,5) shape_length [OF assms(1)] by auto
  next
    case False
    then show ?thesis using silent_heard [OF assms(6) [OF b]] shape_nonempty [OF assms(1) b] by auto
  qed
qed

lemma rounds_idle:
  assumes "shape Ls" "length Es = 6" "no_queues Ls e1 e5" "\<And>b. b < 5 \<Longrightarrow> silent (Ls ! b)"
  shows "rfold simulate_round (net_of t e1 e5 Ls Es) rs = Inr (net_of t e1 e5 Ls Es)"
proof -
  have "simulate_round (net_of t e1 e5 Ls Es) i = Inr (net_of t e1 e5 Ls Es)" for i
    using round_step [OF assms(1-3) _ silent_heard, of 0 t i] assms(4) shape_nonempty [OF assms(1), of 0] by simp
  then show ?thesis by (induction rs) simp_all
qed

lemma rounds_hears:
  assumes "hears Q (length rs) L L'" "shape Ls" "length Es = 6" "a < 5" "Ls ! a = L" "Q ! 0 = []" "Q \<noteq> []"
    "ai_datagrams_out e1 = []" "ai_datagrams_out e5 = []"
    "\<And>b. b < 5 \<Longrightarrow> b \<noteq> a \<Longrightarrow> silent (Ls ! b) \<and> ai_datagrams_out (Ls ! b ! 0) = []"
  shows "rfold simulate_round (net_of t e1 e5 Ls Es) rs = Inr (net_of t e1 e5 (Ls[a := L']) Es)"
  using assms
proof (induction "length rs" L L' arbitrary: rs Ls rule: hears.induct)
  case (hears_end L)
  then show ?case by (metis length_0_conv list_update_id rfold.simps(1))
next
  case (hears_step L p L1 k L')
  obtain i rs' where i: "rs = i # rs'" "k = length rs'" using hears_step.hyps(5) by (cases rs) auto
  have "ai_datagrams_out (Ls ! a ! 0) = []"
    using hears_step.hyps(1) hears_step.prems by (cases L) auto
  then have nq: "no_queues Ls e1 e5" using hears_step.prems unfolding no_queues_def by metis
  have len: "length L1 = length L" using hears_step.hyps(2) by (simp add: heard_def)
  have st: "simulate_round (net_of t e1 e5 Ls Es) i = Inr (net_of t e1 e5 (Ls[a := L1]) Es)"
    using hears_step.prems hears_step.hyps(2) by (intro round_step nq) auto
  have "rfold simulate_round (net_of t e1 e5 (Ls[a := L1]) Es) rs' = Inr (net_of t e1 e5 (Ls[a := L1, a := L']) Es)"
    using hears_step.prems len shape_length [OF hears_step.prems(1)] i(2)
    by (intro hears_step.hyps(4)) auto
  then show ?case by (simp add: i st)
qed

section \<open>Routing in the network\<close>

definition with_queue :: "async_interface list list \<Rightarrow> nat \<Rightarrow> nat \<Rightarrow> IPv4Datagram list \<Rightarrow> async_interface list list" where
  "with_queue Ls b q ds = Ls[b := (Ls ! b)[q := (Ls ! b ! q)\<lparr>ai_datagrams_out := ds\<rparr>]]"

definition with_base :: "async_interface list list \<Rightarrow> nat \<Rightarrow> nat \<Rightarrow> network_interface \<Rightarrow> async_interface list list" where
  "with_base Ls b q n = Ls[b := (Ls ! b)[q := (Ls ! b ! q)\<lparr>ai_base := n\<rparr>]]"

lemma net_router:
  assumes "shape Ls" "b < 5"
  shows "(net_of t e1 e5 Ls Es)\<lparr>nt_router := \<lparr>rt_interfaces = router_interfaces (Ls[b := (Ls ! b)[0 := x]]) e1 e5, rt_table = t\<rparr>\<rparr> =
    net_of t e1 e5 (Ls[b := (Ls ! b)[0 := x]]) Es"
  using put_interface_net [OF assms(2,1), of t e1 e5 Es x]
  by (simp add: put_interface_def router_interfaces_update [OF assms(2,1)] net_of_def)

lemma queue_id: "ai_datagrams_out a = [] \<Longrightarrow> a\<lparr>ai_datagrams_out := []\<rparr> = a"
  by (cases a) simp

lemma link_iface_inj: "a < 5 \<Longrightarrow> b < 5 \<Longrightarrow> link_iface ! a = link_iface ! b \<longleftrightarrow> a = b"
proof -
  have "distinct link_iface" "length link_iface = 5" by code_simp+
  then show "a < 5 \<Longrightarrow> b < 5 \<Longrightarrow> ?thesis" by (simp add: nth_eq_iff_index_eq)
qed

lemma link_iface_less: "b < 5 \<Longrightarrow> link_iface ! b < 7"
  using less_numeral_cases(1) [of b] by (auto simp: link_iface_def)

text \<open>The router of \<open>M\<close> with one datagram in its queue on wire \<open>a\<close>.\<close>

lemma queue_elsewhere:
  assumes M: "shape M" "no_queues M e1 e5" and a: "a < 5" and j: "j < 7"
  shows "ai_datagrams_out (router_interfaces (with_queue M a 0 [d]) e1 e5 ! j) = (if j = link_iface ! a then [d] else [])"
proof -
  have all: "ai_datagrams_out x = []" if "x \<in> set (router_interfaces M e1 e5)" for x
    using that M(2) by (auto simp: router_interfaces_def no_queues_def)
  show ?thesis
    using j a all nth_mem [of j "router_interfaces M e1 e5"] link_iface_less [OF a]
    by (auto simp: with_queue_def router_interfaces_update [OF a M(1), symmetric] nth_list_update)
qed

lemma route_drop:
  assumes M: "shape M" "no_queues M e1 e5" and a: "a < 5" and f: "forwards t d = None"
  shows "route \<lparr>rt_interfaces = router_interfaces (with_queue M a 0 [d]) e1 e5, rt_table = t\<rparr> =
    Inr \<lparr>rt_interfaces = router_interfaces M e1 e5, rt_table = t\<rparr>"
proof -
  let ?r = "\<lparr>rt_interfaces = router_interfaces (with_queue M a 0 [d]) e1 e5, rt_table = t\<rparr>"
  have "route_one_datagram ?r d = Inr ?r" using f by (simp add: route_one_eq)
  then have "route ?r = Inr (pop_queue ?r (link_iface ! a))"
    using queue_elsewhere [OF M a] link_iface_less [OF a] by (intro route_single [where d = d]) auto
  also have "pop_queue ?r (link_iface ! a) = \<lparr>rt_interfaces = router_interfaces M e1 e5, rt_table = t\<rparr>"
    using a M link_iface_less [OF a] shape_nonempty [OF M(1) a] router_interfaces_nth [OF a, of M]
    by (simp add: pop_queue_def with_queue_def router_interfaces_update [OF a M(1), symmetric] queue_id no_queues_def list_update_same_conv)
  finally show ?thesis .
qed

lemma route_on:
  assumes M: "shape M" "no_queues M e1 e5" and a: "a < 5" and f: "forwards t d = Some (link_iface ! b, hop)" and b: "b < 5"
    and n: "send_datagram (ai_base (M ! b ! 0)) (dec_ttl d) hop = Inr n"
  shows "route \<lparr>rt_interfaces = router_interfaces (with_queue M a 0 [d]) e1 e5, rt_table = t\<rparr> =
    Inr \<lparr>rt_interfaces = router_interfaces (with_base M b 0 n) e1 e5, rt_table = t\<rparr>"
proof -
  let ?r = "\<lparr>rt_interfaces = router_interfaces (with_queue M a 0 [d]) e1 e5, rt_table = t\<rparr>"
  let ?R = "router_interfaces M e1 e5" and ?ia = "link_iface ! a" and ?ib = "link_iface ! b"
  note less = link_iface_less [OF a] link_iface_less [OF b]
  have R: "?R ! ?ia = M ! a ! 0" "?R ! ?ib = M ! b ! 0" using router_interfaces_nth a b by simp_all
  have q: "ai_datagrams_out (M ! a ! 0) = []" using M(2) a by (simp add: no_queues_def)
  have Q: "router_interfaces (with_queue M a 0 [d]) e1 e5 = ?R[?ia := (?R ! ?ia)\<lparr>ai_datagrams_out := [d]\<rparr>]"
    by (simp add: with_queue_def router_interfaces_update [OF a M(1), symmetric] R)
  have base: "ai_base (?R[?ia := (?R ! ?ia)\<lparr>ai_datagrams_out := [d]\<rparr>] ! ?ib) = ai_base (M ! b ! 0)"
    using less R by (simp add: nth_list_update) (metis R)
  define x where "x = (?R[?ia := (?R ! ?ia)\<lparr>ai_datagrams_out := [d]\<rparr>] ! ?ib)\<lparr>ai_base := n\<rparr>"
  have "route_one_datagram ?r d = Inr \<lparr>rt_interfaces = (?R[?ia := (?R ! ?ia)\<lparr>ai_datagrams_out := [d]\<rparr>])[?ib := x], rt_table = t\<rparr>"
    using f n less base by (simp add: route_one_eq Router_interface_def async_send_datagram_def Q x_def)
  then have "route ?r = Inr (pop_queue \<lparr>rt_interfaces = (?R[?ia := (?R ! ?ia)\<lparr>ai_datagrams_out := [d]\<rparr>])[?ib := x], rt_table = t\<rparr> ?ia)"
    using queue_elsewhere [OF M a] less by (intro route_single [where d = d]) auto
  also have "pop_queue \<lparr>rt_interfaces = (?R[?ia := (?R ! ?ia)\<lparr>ai_datagrams_out := [d]\<rparr>])[?ib := x], rt_table = t\<rparr> ?ia =
      \<lparr>rt_interfaces = ?R[?ib := (?R ! ?ib)\<lparr>ai_base := n\<rparr>], rt_table = t\<rparr>"
  proof (cases "a = b")
    case True
    have "(M ! b ! 0)\<lparr>ai_base := n, ai_datagrams_out := []\<rparr> = (M ! b ! 0)\<lparr>ai_base := n\<rparr>"
      using q True by (cases "M ! b ! 0") simp
    then show ?thesis using True less R by (simp add: pop_queue_def x_def)
  next
    case False
    then have "?ia \<noteq> ?ib" using link_iface_inj [OF a b] by simp
    then show ?thesis
      using less R q by (simp add: pop_queue_def x_def list_update_swap [of ?ia ?ib] queue_id list_update_same_conv)
  qed
  also have "?R[?ib := (?R ! ?ib)\<lparr>ai_base := n\<rparr>] = router_interfaces (with_base M b 0 n) e1 e5"
    by (simp add: with_base_def router_interfaces_update [OF b M(1), symmetric] R)
  finally show ?thesis .
qed

lemma with_base_queue: "b < 5 \<Longrightarrow> shape Ls \<Longrightarrow> ai_datagrams_out (with_base Ls b q n ! c ! p) = ai_datagrams_out (Ls ! c ! p)"
  using shape_length [of Ls] by (cases "q < length (Ls ! b)") (auto simp: with_base_def nth_list_update list_update_beyond)

lemma no_queues_base: "b < 5 \<Longrightarrow> shape Ls \<Longrightarrow> no_queues Ls e1 e5 \<Longrightarrow> no_queues (with_base Ls b q n) e1 e5"
  by (simp add: no_queues_def with_base_queue)

lemma round_route:
  assumes "shape M" "no_queues M e1 e5" "a < 5" "b < 5" "forwards t d = Some (link_iface ! b, hop)"
    "send_datagram (ai_base (M ! b ! 0)) (dec_ttl d) hop = Inr n"
  shows "simulate_round (net_of t e1 e5 (with_queue M a 0 [d]) Es) i = simulate_round (net_of t e1 e5 (with_base M b 0 n) Es) i"
proof -
  let ?r = "\<lparr>rt_interfaces = router_interfaces (with_base M b 0 n) e1 e5, rt_table = t\<rparr>"
  have "route (nt_router (net_of t e1 e5 (with_queue M a 0 [d]) Es)) = Inr ?r"
    using route_on [OF assms(1-3,5,4,6)] by (simp add: net_of_def)
  moreover have "(net_of t e1 e5 (with_queue M a 0 [d]) Es)\<lparr>nt_router := ?r\<rparr> = net_of t e1 e5 (with_base M b 0 n) Es"
    unfolding with_queue_def with_base_def net_router [OF assms(1,3), symmetric] net_router [OF assms(1,4), symmetric] by simp
  ultimately show ?thesis
    using round_physical [OF no_queues_base [OF assms(4,1,2)]] by (simp add: simulate_round_def)
qed

lemma round_drop:
  assumes "shape M" "no_queues M e1 e5" "a < 5" "forwards t d = None"
  shows "simulate_round (net_of t e1 e5 (with_queue M a 0 [d]) Es) i = simulate_round (net_of t e1 e5 M Es) i"
proof -
  let ?r = "\<lparr>rt_interfaces = router_interfaces M e1 e5, rt_table = t\<rparr>"
  have "route (nt_router (net_of t e1 e5 (with_queue M a 0 [d]) Es)) = Inr ?r"
    using route_drop [OF assms(1-4)] by (simp add: net_of_def)
  moreover have "(net_of t e1 e5 (with_queue M a 0 [d]) Es)\<lparr>nt_router := ?r\<rparr> = net_of t e1 e5 M Es"
    unfolding with_queue_def net_router [OF assms(1,3), symmetric] by (simp add: net_of_def)
  ultimately show ?thesis
    using round_physical [OF assms(2)] by (simp add: simulate_round_def)
qed

section \<open>Delivery\<close>

definition net_idle :: "(nat \<Rightarrow> identity list) \<Rightarrow> async_interface \<Rightarrow> async_interface \<Rightarrow> async_interface list list \<Rightarrow> bool" where
  "net_idle ids e1 e5 Ls \<longleftrightarrow> shape Ls \<and> ai_datagrams_out e1 = [] \<and> ai_datagrams_out e5 = [] \<and>
     (\<forall>b < 5. ids_ok (ids b) \<and> link_idle (ids b) (Ls ! b) \<and> (\<forall>q < length (ids b). ai_datagrams_out (Ls ! b ! q) = []))"

lemma net_idleD:
  assumes "net_idle ids e1 e5 Ls"
  shows "shape Ls" "length Ls = 5" "no_queues Ls e1 e5"
    "b < 5 \<Longrightarrow> ids_ok (ids b) \<and> link_idle (ids b) (Ls ! b) \<and> length (Ls ! b) = length (ids b) \<and> silent (Ls ! b)"
proof -
  show sh: "shape Ls" using assms by (simp add: net_idle_def)
  then show "length Ls = 5" by (rule shape_length)
  have l: "ids_ok (ids b) \<and> link_idle (ids b) (Ls ! b) \<and> length (Ls ! b) = length (ids b) \<and> silent (Ls ! b)" if "b < 5" for b
  proof -
    have i: "ids_ok (ids b)" "link_idle (ids b) (Ls ! b)" using assms that by (simp_all add: net_idle_def)
    then have true: "link_true (ids b) (Ls ! b)" by (simp add: link_idle_def)
    from link_true_length [OF true] show ?thesis using i link_trueD(6) [OF true] by (auto simp: silent_def in_set_conv_nth)
  qed
  then show "b < 5 \<Longrightarrow> ids_ok (ids b) \<and> link_idle (ids b) (Ls ! b) \<and> length (Ls ! b) = length (ids b) \<and> silent (Ls ! b)" .
  have "0 < length (ids b)" if "b < 5" for b
    using l [OF that] shape_nonempty [OF sh that] by auto
  then show "no_queues Ls e1 e5" using assms by (simp add: no_queues_def net_idle_def)
qed

lemma net_hop:
  assumes M: "net_idle ids e1 e5 M" and Es: "length Es = 6" and a: "a < 5" and s: "s < length (ids a)" and r: "r < length (ids a)"
    and sr: "s \<noteq> r" and d: "dg_ok d" and hop: "ipv4_numeric hop = Inr (fst (ids a ! r))"
  shows "\<exists>n k M' d'. send_datagram (ai_base (M ! a ! s)) d hop = Inr n \<and> 0 < k \<and> k \<le> 3 \<and> dg_same d d' \<and> net_idle ids e1 e5 M' \<and>
    (\<forall>rs. length rs = k \<longrightarrow> rfold simulate_round (net_of t e1 e5 (with_base M a s n) Es) rs = Inr (net_of t e1 e5 (with_queue M' a r [d']) Es))"
proof -
  note I = net_idleD [OF M] and A = net_idleD(4) [OF M a]
  have A': "ids_ok (ids a)" "link_idle (ids a) (M ! a)" using A by simp_all
  from link_delivery [OF A' s r sr d hop] obtain n k K d' where
    n: "send_datagram (ai_base (M ! a ! s)) d hop = Inr n" and k: "0 < k" "k \<le> 3" and d': "dg_same d d'" and K: "link_idle (ids a) K"
    and q: "map ai_datagrams_out K = map ai_datagrams_out (M ! a)"
    and h: "hears (map ai_datagrams_out (M ! a)) k ((M ! a)[s := (M ! a ! s)\<lparr>ai_base := n\<rparr>])
      (K[r := (K ! r)\<lparr>ai_datagrams_out := ai_datagrams_out (K ! r) @ [d']\<rparr>])"
    by blast
  have lenK: "length K = length (M ! a)" using q by (metis length_map)
  have Mq: "ai_datagrams_out (M ! a ! i) = []" if "i < length (ids a)" for i using M a that by (simp add: net_idle_def)
  have Kq: "ai_datagrams_out (K ! i) = []" if "i < length (ids a)" for i
    using that Mq A lenK arg_cong [OF q, of "\<lambda>l. l ! i"] by simp
  define M' where "M' = M[a := K]"
  have M': "net_idle ids e1 e5 M'"
    using M K Kq a I(2) lenK I(1) by (auto simp: net_idle_def M'_def nth_list_update)
  have other: "silent (with_base M a s n ! b) \<and> ai_datagrams_out (with_base M a s n ! b ! 0) = []" if "b < 5" "b \<noteq> a" for b
    using that I(3,4) by (simp add: with_base_def no_queues_def)
  have "rfold simulate_round (net_of t e1 e5 (with_base M a s n) Es) rs = Inr (net_of t e1 e5 (with_queue M' a r [d']) Es)" if "length rs = k" for rs
  proof -
    have Q: "map ai_datagrams_out (M ! a) ! 0 = []" "map ai_datagrams_out (M ! a) \<noteq> []"
      using Mq [of 0] s A by (cases "M ! a"; force)+
    have sh: "shape (with_base M a s n)" using I(1) a by (simp add: with_base_def)
    have e: "ai_datagrams_out e1 = []" "ai_datagrams_out e5 = []" using M by (simp_all add: net_idle_def)
    from rounds_hears [OF h [folded that] sh Es a _ Q e other]
    have "rfold simulate_round (net_of t e1 e5 (with_base M a s n) Es) rs =
        Inr (net_of t e1 e5 ((with_base M a s n)[a := K[r := (K ! r)\<lparr>ai_datagrams_out := ai_datagrams_out (K ! r) @ [d']\<rparr>]]) Es)"
      using a I(2) by (simp add: with_base_def)
    also have "(with_base M a s n)[a := K[r := (K ! r)\<lparr>ai_datagrams_out := ai_datagrams_out (K ! r) @ [d']\<rparr>]] = with_queue M' a r [d']"
      using a I(2) Kq [OF r] by (simp add: with_base_def with_queue_def M'_def)
    finally show ?thesis .
  qed
  then show ?thesis using n k d' M' by blast
qed

lemma rfold_first: "(\<And>i. f x i = f y i) \<Longrightarrow> rs \<noteq> [] \<Longrightarrow> rfold f x rs = rfold f y rs"
  by (cases rs) simp_all

lemma with_queue_nth: "b < length Ls \<Longrightarrow> q < length (Ls ! b) \<Longrightarrow>
    with_queue Ls b q ds ! c ! p = (if c = b \<and> p = q then (Ls ! b ! q)\<lparr>ai_datagrams_out := ds\<rparr> else Ls ! c ! p)"
  by (cases "c = b") (simp_all add: with_queue_def nth_list_update)

lemma with_queue_idle:
  assumes M: "net_idle ids e1 e5 M" and b: "b < 5" and r: "r < length (ids b)" "r \<noteq> 0"
  shows "shape (with_queue M b r ds)" "no_queues (with_queue M b r ds) e1 e5" "\<And>c. c < 5 \<Longrightarrow> silent (with_queue M b r ds ! c)"
proof -
  note I = net_idleD [OF M]
  show "shape (with_queue M b r ds)" using I(1) b by (simp add: with_queue_def)
  show "no_queues (with_queue M b r ds) e1 e5"
    using I(2,3) I(4) [OF b] b r by (auto simp: no_queues_def with_queue_nth)
  show "silent (with_queue M b r ds ! c)" if "c < 5" for c
    using I(2) I(4) [OF b] I(4) [OF that] b r by (cases "c = b") (auto simp: with_queue_def silent_def dest!: set_update_subset_insert [THEN subsetD])
qed

lemma two_hops:
  assumes M: "net_idle ids e1 e5 M" and Es: "length Es = 6" and a: "a < 5" and b: "b < 5"
    and s: "s < length (ids a)" "s \<noteq> 0" and r: "r < length (ids b)" "r \<noteq> 0"
    and d: "dg_ok d" and hop: "ipv4_numeric hop = Inr (fst (ids a ! 0))" "ipv4_numeric hop' = Inr (fst (ids b ! r))"
    and fwd: "\<And>d1. dg_equiv d d1 \<Longrightarrow> forwards t d1 = Some (link_iface ! b, hop')" and len: "6 \<le> length rs"
  shows "\<exists>n M' d2. send_datagram (ai_base (M ! a ! s)) d hop = Inr n \<and> net_idle ids e1 e5 M' \<and> dg_equiv (dec_ttl d) d2 \<and>
    rfold simulate_round (net_of t e1 e5 (with_base M a s n) Es) rs = Inr (net_of t e1 e5 (with_queue M' b r [d2]) Es)"
proof -
  have "0 < length (ids a)" "0 < length (ids b)" using s r by linarith+
  from net_hop [OF M Es a s(1) this(1) s(2) d hop(1)] obtain n k M1 d1 where
    n: "send_datagram (ai_base (M ! a ! s)) d hop = Inr n" and k: "k \<le> 3" and d1: "dg_same d d1" and M1: "net_idle ids e1 e5 M1"
    and r1: "\<And>rs. length rs = k \<Longrightarrow> rfold simulate_round (net_of t e1 e5 (with_base M a s n) Es) rs = Inr (net_of t e1 e5 (with_queue M1 a 0 [d1]) Es)"
    by blast
  have ok1: "dg_ok (dec_ttl d1)" using dg_equiv_ok [OF dg_same_equiv [OF d1]] d by simp
  from net_hop [OF M1 Es b \<open>0 < length (ids b)\<close> r(1) _ ok1 hop(2)] r(2) obtain m k' M2 d2 where
    m: "send_datagram (ai_base (M1 ! b ! 0)) (dec_ttl d1) hop' = Inr m" and k': "0 < k'" "k' \<le> 3" and d2: "dg_same (dec_ttl d1) d2"
    and M2: "net_idle ids e1 e5 M2"
    and r2: "\<And>rs. length rs = k' \<Longrightarrow> rfold simulate_round (net_of t e1 e5 (with_base M1 b 0 m) Es) rs = Inr (net_of t e1 e5 (with_queue M2 b r [d2]) Es)"
    by blast
  define u where "u = take k rs"
  define v where "v = take k' (drop k rs)"
  define w where "w = drop k' (drop k rs)"
  have lens: "length u = k" "length v = k'" using len k k' by (simp_all add: u_def v_def)
  have "rs = u @ v @ w" unfolding u_def v_def w_def by (simp only: append_take_drop_id)
  note uv = this lens
  have "rfold simulate_round (net_of t e1 e5 (with_queue M1 a 0 [d1]) Es) v = rfold simulate_round (net_of t e1 e5 (with_base M1 b 0 m) Es) v"
    using round_route [OF net_idleD(1,3) [OF M1] a b fwd [OF dg_same_equiv [OF d1]] m] k'(1) uv(3) by (intro rfold_first) auto
  then have "rfold simulate_round (net_of t e1 e5 (with_queue M1 a 0 [d1]) Es) v = Inr (net_of t e1 e5 (with_queue M2 b r [d2]) Es)"
    using r2 [OF uv(3)] by simp
  moreover have "rfold simulate_round (net_of t e1 e5 (with_queue M2 b r [d2]) Es) w = Inr (net_of t e1 e5 (with_queue M2 b r [d2]) Es)"
    using with_queue_idle [OF M2 b r] by (intro rounds_idle Es)
  ultimately have "rfold simulate_round (net_of t e1 e5 (with_base M a s n) Es) rs = Inr (net_of t e1 e5 (with_queue M2 b r [d2]) Es)"
    using r1 [OF uv(2)] by (simp add: uv(1) rfold_append)
  moreover have "dg_equiv (dec_ttl d) d2"
    using dg_equiv_trans [OF dg_equiv_dec_ttl [OF dg_same_equiv [OF d1]] dg_same_equiv [OF d2]] .
  ultimately show ?thesis using n M2 by blast
qed

lemma dropped_hop:
  assumes M: "net_idle ids e1 e5 M" and Es: "length Es = 6" and a: "a < 5" and s: "s < length (ids a)" "s \<noteq> 0"
    and d: "dg_ok d" and hop: "ipv4_numeric hop = Inr (fst (ids a ! 0))"
    and fwd: "\<And>d1. dg_equiv d d1 \<Longrightarrow> forwards t d1 = None" and len: "6 \<le> length rs"
  shows "\<exists>n M'. send_datagram (ai_base (M ! a ! s)) d hop = Inr n \<and> net_idle ids e1 e5 M' \<and>
    rfold simulate_round (net_of t e1 e5 (with_base M a s n) Es) rs = Inr (net_of t e1 e5 M' Es)"
proof -
  have "0 < length (ids a)" using s by linarith
  from net_hop [OF M Es a s(1) this s(2) d hop] obtain n k M1 d1 where
    n: "send_datagram (ai_base (M ! a ! s)) d hop = Inr n" and k: "k \<le> 3" and d1: "dg_same d d1" and M1: "net_idle ids e1 e5 M1"
    and r1: "\<And>rs. length rs = k \<Longrightarrow> rfold simulate_round (net_of t e1 e5 (with_base M a s n) Es) rs = Inr (net_of t e1 e5 (with_queue M1 a 0 [d1]) Es)"
    by blast
  define u where "u = take k rs"
  define v where "v = drop k rs"
  have uv: "rs = u @ v" "length u = k" "v \<noteq> []" using len k by (simp_all add: u_def v_def)
  have "rfold simulate_round (net_of t e1 e5 (with_queue M1 a 0 [d1]) Es) v = rfold simulate_round (net_of t e1 e5 M1 Es) v"
    using round_drop [OF net_idleD(1,3) [OF M1] a fwd [OF dg_same_equiv [OF d1]]] uv(3) by (intro rfold_first)
  also have "\<dots> = Inr (net_of t e1 e5 M1 Es)"
    using net_idleD [OF M1] by (intro rounds_idle Es) auto
  finally show ?thesis using n M1 r1 [OF uv(2)] by (auto simp: uv(1) rfold_append)
qed

section \<open>Tests\<close>

definition test_dgram :: "u32 \<Rightarrow> u32 \<Rightarrow> u32 \<Rightarrow> u8 \<Rightarrow> IPv4Datagram" where
  "test_dgram x src dst ttl =
     (let payload = bytes_of (''random payload: {'' @ to_string (unat x) @ ''}'')
      in \<lparr>dg_header = IPv4Header_default\<lparr>ih_src := src, ih_dst := dst, ih_len := of_nat (20 + length payload), ih_ttl := ttl\<rparr>,
          dg_payload = [Buffer payload]\<rparr>)"

lemma length_to_string: "n < 10 ^ Suc k \<Longrightarrow> length (to_string n) \<le> Suc k"
proof (induction k arbitrary: n)
  case 0
  then show ?case by (subst to_string.simps) simp
next
  case (Suc k)
  then have "n div 10 < 10 ^ Suc k" by (simp add: less_mult_imp_div_less mult.commute)
  from Suc.IH [OF this] show ?case by (subst to_string.simps) simp
qed

lemma length_to_string_u32: "length (to_string (unat (x :: u32))) \<le> 10"
  using length_to_string [of "unat x" 9] unat_lt(3) [of x] by simp

lemma test_dgram_ok: "dg_ok (test_dgram x src dst ttl)"
proof -
  define p where "p = bytes_of (''random payload: {'' @ to_string (unat x) @ ''}'')"
  define m where "m = 20 + length p"
  have "length p \<le> 28" using length_to_string_u32 [of x] by (simp add: p_def bytes_of_def)
  then have "unat (of_nat m :: u16) = m" by (simp add: m_def unat_of_nat take_bit_eq_mod del: of_nat_add)
  then show ?thesis
    unfolding dg_ok_def test_dgram_def Let_def p_def [symmetric] m_def [symmetric] ip_valid_def
    by (simp add: IPv4Header_default_def IPv4Header_LENGTH_def m_def)
qed

lemma test_dgram_fields [simp]: "ih_dst (dg_header (test_dgram x src dst ttl)) = dst" "ih_ttl (dg_header (test_dgram x src dst ttl)) = ttl"
  by (simp_all add: test_dgram_def Let_def)

lemma send_to_eq:
  assumes "numeric_resolver gai gni" "h_my_address h = ipv4_address src p" "h_next_hop h = ipv4_address hop q" "ipv4_numeric dest = Inr dst"
    "send_datagram (ai_base (h_interface h)) (test_dgram (rd k) src dst ttl) (ipv4_address hop q) = Inr n"
  shows "send_to gni rd k h dest ttl =
    Inr (h\<lparr>h_interface := (h_interface h)\<lparr>ai_base := n\<rparr>\<rparr>, test_dgram (rd k) src dst ttl, k + 1)"
proof -
  define p where "p = bytes_of (''random payload: {'' @ to_string (unat (rd k)) @ ''}'')"
  have hl: "unat (ih_hlen (IPv4Header_default\<lparr>ih_src := src, ih_dst := dst\<rparr>)) * 4 = 20" by (simp add: IPv4Header_default_def IPv4Header_LENGTH_def)
  have "length p < U64" using length_to_string_u32 [of "rd k"] by (simp add: p_def bytes_of_def)
  then have sz: "BufferList_size (BufferList_of_string p) = length p" by (simp add: BufferList_size_eq BufferList_of_string_def)
  have dg: "\<lparr>dg_header = IPv4Header_default\<lparr>ih_src := src, ih_dst := dst, ih_len := of_nat (20 + length p), ih_ttl := ttl\<rparr>,
      dg_payload = BufferList_of_string p\<rparr> = test_dgram (rd k) src dst ttl"
    by (simp add: test_dgram_def Let_def p_def BufferList_of_string_def)
  show ?thesis
    unfolding send_to_def assms(2-4) ipv4_numeric_address rbind.simps Let_def p_def [symmetric] sz hl dg
      async_send_datagram_def assms(5) ip_port_ipv4 [OF assms(1)] ..
qed

lemma check_hosts_map:
  "(\<And>j. j \<in> set js \<Longrightarrow> host_check (f j) = Inr (g j)) \<Longrightarrow> check_hosts (map (\<lambda>j. (nm j, f j)) js) = Inr (map (\<lambda>j. (nm j, g j)) js)"
  by (induction js) simp_all

lemma host_check_idle:
  assumes "ai_datagrams_out (h_interface h) = []" "h_expecting h = []"
  shows "host_check h = Inr h"
  using assms by (cases h) (simp add: host_check_def queue_id)

lemma host_check_received:
  assumes "ai_datagrams_out (h_interface h) = [d]" "h_expecting h = [e]" "dg_equiv e d" "dg_ok e"
  shows "host_check h = Inr (h\<lparr>h_expecting := [], h_interface := (h_interface h)\<lparr>ai_datagrams_out := []\<rparr>\<rparr>)"
  using assms dg_equiv_same_bytes [OF assms(3,4)] by (simp add: host_check_def)

definition no_expectations :: "IPv4Datagram list list" where
  "no_expectations = replicate 6 []"

lemma the_host_idle:
  assumes "net_idle ids e1 e5 M" "j < 6" "Es ! j = []" "host_pos ! j < length (ids (host_link ! j))"
  shows "host_check (the_host M Es j) = Inr (the_host M Es j)"
  using assms host_place(2) [OF assms(2,2)] by (intro host_check_idle) (simp_all add: the_host_def net_idle_def)

lemma simulate_delivered:
  assumes M: "net_idle ids e1 e5 M" and j: "j < 6" and len: "\<And>i. i < 6 \<Longrightarrow> host_pos ! i < length (ids (host_link ! i))"
    and e: "dg_equiv e d" "dg_ok e"
    and run: "rfold simulate_round net [0..<256] = Inr (net_of t e1 e5 (with_queue M (host_link ! j) (host_pos ! j) [d]) (no_expectations[j := [e]]))"
  shows "simulate net = Inr (net_of t e1 e5 M no_expectations)"
proof -
  note I = net_idleD [OF M]
  let ?Ls = "with_queue M (host_link ! j) (host_pos ! j) [d]" and ?Es = "no_expectations[j := [e]]"
  have l: "host_link ! j < length M" "host_pos ! j < length (M ! (host_link ! j))"
    using host_place(2) [OF j j] I(2) I(4) [of "host_link ! j"] len [OF j] by simp_all
  have router: "router_interfaces ?Ls e1 e5 = router_interfaces M e1 e5"
    using host_place(1) [OF j j] unfolding router_interfaces_def with_queue_nth [OF l] by simp
  have "host_check (the_host ?Ls ?Es i) = Inr (the_host M no_expectations i)" if i: "i < 6" for i
  proof (cases "i = j")
    case True
    have q: "ai_datagrams_out (M ! (host_link ! j) ! (host_pos ! j)) = []"
      using M host_place(2) [OF j j] len [OF j] by (simp add: net_idle_def)
    have "host_check (the_host ?Ls ?Es j) = Inr ((the_host ?Ls ?Es j)\<lparr>h_expecting := [],
        h_interface := (h_interface (the_host ?Ls ?Es j))\<lparr>ai_datagrams_out := []\<rparr>\<rparr>)"
      using j e by (intro host_check_received [where e = e and d = d]) (simp_all add: the_host_def with_queue_nth [OF l] no_expectations_def)
    then show ?thesis using True j q by (simp add: the_host_def with_queue_nth [OF l] no_expectations_def queue_id)
  next
    case False
    then have "the_host ?Ls ?Es i = the_host M no_expectations i"
      using host_place(4) [OF i j] by (auto simp: the_host_def with_queue_nth [OF l])
    then show ?thesis using the_host_idle [OF M i _ len [OF i], of no_expectations] i by (simp add: no_expectations_def)
  qed
  then have "check_hosts (nt_hosts (net_of t e1 e5 ?Ls ?Es)) = Inr (map (\<lambda>i. (host_names ! i, the_host M no_expectations i)) [0..<6])"
    unfolding net_of_def sim_network.select_convs by (intro check_hosts_map) simp
  then show ?thesis
    by (simp add: simulate_def run) (simp add: net_of_def router)
qed

lemma forwards_equiv:
  assumes "dg_equiv d d1"
  shows "forwards t d1 = forwards t d"
proof -
  obtain c where "dg_header d1 = (dg_header d)\<lparr>ih_cksum := c\<rparr>" using dg_equiv_header [OF assms] by blast
  then have same: "ih_dst (dg_header d1) = ih_dst (dg_header d)" "ih_ttl (dg_header d1) = ih_ttl (dg_header d)" by simp_all
  show ?thesis unfolding forwards_def hop_of_def same ..
qed

definition placed :: "(nat \<Rightarrow> identity list) \<Rightarrow> bool" where
  "placed ids \<longleftrightarrow> (\<forall>i < 6. host_pos ! i < length (ids (host_link ! i)) \<and> fst (ids (host_link ! i) ! (host_pos ! i)) = host_ips ! i)"

lemma put_sender:
  assumes "shape M" "length Es = 6" "j < 6" "host_pos ! j < length (M ! (host_link ! j))"
  shows "put_host (net_of t e1 e5 M Es) (host_names ! j)
      ((the_host M Es j)\<lparr>h_interface := (h_interface (the_host M Es j))\<lparr>ai_base := n\<rparr>\<rparr>) =
    net_of t e1 e5 (with_base M (host_link ! j) (host_pos ! j) n) Es"
  using put_interface_host [where Ls' = M and Es' = Es and a = "(h_interface (the_host M Es j))\<lparr>ai_base := n\<rparr>",
    OF assms(1-3) refl refl assms(4) refl refl]
  by (simp add: with_base_def) (simp add: the_host_def)

lemma put_expectation:
  assumes "shape Ls" "j < 6" "host_pos ! j < length (Ls ! (host_link ! j))"
  shows "put_host (net_of t e1 e5 Ls no_expectations) (host_names ! j) (host_expect (the_host Ls no_expectations j) e) =
    net_of t e1 e5 Ls (no_expectations[j := [e]])"
proof -
  let ?h = "the_host Ls no_expectations j"
  have "h_expecting ?h = []" using assms(2) by (simp add: the_host_def no_expectations_def)
  then have "host_expect ?h e = ?h\<lparr>h_interface := Ls ! (host_link ! j) ! (host_pos ! j), h_expecting := [e]\<rparr>"
    by (simp add: host_expect_def the_host_def)
  then show ?thesis
    using put_host_net [where Es = no_expectations and a = "Ls ! (host_link ! j) ! (host_pos ! j)" and es = "[e]", OF assms(2,1) _ assms(3)]
    by (simp add: no_expectations_def)
qed

lemma with_base_shape: "shape M \<Longrightarrow> b < 5 \<Longrightarrow> shape (with_base M b q n) \<and> length (with_base M b q n ! c) = length (M ! c)"
  using shape_length [of M] by (cases "c = b") (simp_all add: with_base_def)

lemma run_test_delivers:
  assumes M: "net_idle ids e1 e5 M" and res: "numeric_resolver gai gni" and ids: "placed ids" and j: "j < 6" and j': "j' < 6"
    and hop: "fst (ids (host_link ! j) ! 0) = host_hops ! j" and dest: "ipv4_numeric dest = Inr dst" and ttl: "2 \<le> unat ttl"
    and find: "find_route t dst (- 1) 32 = Some (link_iface ! (host_link ! j'), nh)"
    and nh: "ipv4_numeric (case nh of Some a \<Rightarrow> a | None \<Rightarrow> ipv4_address dst 0) = Inr (host_ips ! j')"
  shows "\<exists>M'. net_idle ids e1 e5 M' \<and>
    run_test gni rd (host_names ! j) dest ttl (Some (host_names ! j')) (net_of t e1 e5 M no_expectations, k) =
      Inr (net_of t e1 e5 M' no_expectations, k + 1)"
proof -
  let ?d = "test_dgram (rd k) (host_ips ! j) dst ttl" and ?a = "host_link ! j" and ?s = "host_pos ! j"
  let ?b = "host_link ! j'" and ?r = "host_pos ! j'"
  note I = net_idleD [OF M] and pj = host_place(1,2) [OF j j] and pj' = host_place(1,2) [OF j' j']
  have at: "?s < length (ids ?a)" "?r < length (ids ?b)" "fst (ids ?b ! ?r) = host_ips ! j'"
    using ids j j' by (simp_all add: placed_def)
  let ?E = "no_expectations[j' := [dec_ttl ?d]]"
  have E: "length ?E = 6" "length no_expectations = 6" by (simp_all add: no_expectations_def)
  have hop1: "ipv4_numeric (ipv4_address (host_hops ! j) 0) = Inr (fst (ids ?a ! 0))" using hop by simp
  define hop' where "hop' = (case nh of Some a \<Rightarrow> a | None \<Rightarrow> ipv4_address dst 0)"
  have "forwards t ?d = Some (link_iface ! ?b, hop')"
    using ttl find by (simp add: forwards_def hop_of_def hop'_def cong: option.case_cong)
  then have fwd: "dg_equiv ?d d1 \<Longrightarrow> forwards t d1 = Some (link_iface ! ?b, hop')" for d1 using forwards_equiv by metis
  have hop2: "ipv4_numeric hop' = Inr (fst (ids ?b ! ?r))" using nh at(3) by (simp add: hop'_def)
  from two_hops [where d = ?d and rs = "[0..<256]", OF M E(1) pj(2) pj'(2) at(1) pj(1) at(2) pj'(1) test_dgram_ok hop1 hop2 fwd]
  obtain n M' d2 where n: "send_datagram (ai_base (M ! ?a ! ?s)) ?d (ipv4_address (host_hops ! j) 0) = Inr n"
    and M': "net_idle ids e1 e5 M'" and d2: "dg_equiv (dec_ttl ?d) d2"
    and run: "rfold simulate_round (net_of t e1 e5 (with_base M ?a ?s n) ?E) [0..<256] = Inr (net_of t e1 e5 (with_queue M' ?b ?r [d2]) ?E)"
    by auto
  let ?h = "the_host M no_expectations j"
  have sent: "send_to gni rd k ?h dest ttl = Inr (?h\<lparr>h_interface := (h_interface ?h)\<lparr>ai_base := n\<rparr>\<rparr>, ?d, k + 1)"
    using n by (intro send_to_eq [OF res _ _ dest]) (simp_all add: the_host_def)
  have len: "?s < length (M ! ?a)" "?r < length (with_base M ?a ?s n ! ?b)"
    using at I(4) [OF pj(2)] I(4) [OF pj'(2)] with_base_shape [OF I(1) pj(2)] by simp_all
  have "simulate (net_of t e1 e5 (with_base M ?a ?s n) ?E) = Inr (net_of t e1 e5 M' no_expectations)"
    using ids d2 test_dgram_ok run by (intro simulate_delivered [OF M' j' _ d2]) (simp_all add: placed_def)
  then have "run_test gni rd (host_names ! j) dest ttl (Some (host_names ! j')) (net_of t e1 e5 M no_expectations, k) =
      Inr (net_of t e1 e5 M' no_expectations, k + 1)"
    unfolding run_test_def Let_def prod.case find_host_net [OF j] rbind.simps sent put_sender [OF I(1) E(2) j len(1)] option.case
      find_host_net [OF j'] dec_ttl_def [symmetric] put_expectation [OF conjunct1 [OF with_base_shape [OF I(1) pj(2)]] j' len(2)]
    by simp
  with M' show ?thesis by blast
qed

lemma run_test_drops:
  assumes M: "net_idle ids e1 e5 M" and res: "numeric_resolver gai gni" and ids: "placed ids" and j: "j < 6"
    and hop: "fst (ids (host_link ! j) ! 0) = host_hops ! j" and dest: "ipv4_numeric dest = Inr dst" and ttl: "unat ttl \<le> 1"
  shows "\<exists>M'. net_idle ids e1 e5 M' \<and>
    run_test gni rd (host_names ! j) dest ttl None (net_of t e1 e5 M no_expectations, k) = Inr (net_of t e1 e5 M' no_expectations, k + 1)"
proof -
  let ?d = "test_dgram (rd k) (host_ips ! j) dst ttl" and ?a = "host_link ! j" and ?s = "host_pos ! j"
  note I = net_idleD [OF M] and pj = host_place(1,2) [OF j j]
  have at: "?s < length (ids ?a)" using ids j by (simp add: placed_def)
  have E: "length no_expectations = 6" by (simp add: no_expectations_def)
  have hop1: "ipv4_numeric (ipv4_address (host_hops ! j) 0) = Inr (fst (ids ?a ! 0))" using hop by simp
  have "forwards t ?d = None" using ttl by (simp add: forwards_def)
  then have fwd: "dg_equiv ?d d1 \<Longrightarrow> forwards t d1 = None" for d1 using forwards_equiv by metis
  from dropped_hop [where d = ?d and rs = "[0..<256]", OF M E pj(2) at pj(1) test_dgram_ok hop1 fwd]
  obtain n M' where n: "send_datagram (ai_base (M ! ?a ! ?s)) ?d (ipv4_address (host_hops ! j) 0) = Inr n" and M': "net_idle ids e1 e5 M'"
    and run: "rfold simulate_round (net_of t e1 e5 (with_base M ?a ?s n) no_expectations) [0..<256] = Inr (net_of t e1 e5 M' no_expectations)"
    by auto
  let ?h = "the_host M no_expectations j"
  have sent: "send_to gni rd k ?h dest ttl = Inr (?h\<lparr>h_interface := (h_interface ?h)\<lparr>ai_base := n\<rparr>\<rparr>, ?d, k + 1)"
    using n by (intro send_to_eq [OF res _ _ dest]) (simp_all add: the_host_def)
  have len: "?s < length (M ! ?a)" using at I(4) [OF pj(2)] by simp
  have "check_hosts (nt_hosts (net_of t e1 e5 M' no_expectations)) = Inr (nt_hosts (net_of t e1 e5 M' no_expectations))"
    unfolding net_of_def sim_network.select_convs using the_host_idle [OF M'] ids
    by (intro check_hosts_map) (simp add: placed_def no_expectations_def)
  then have "simulate (net_of t e1 e5 (with_base M ?a ?s n) no_expectations) = Inr (net_of t e1 e5 M' no_expectations)"
    by (simp add: simulate_def run)
  then have "run_test gni rd (host_names ! j) dest ttl None (net_of t e1 e5 M no_expectations, k) = Inr (net_of t e1 e5 M' no_expectations, k + 1)"
    unfolding run_test_def Let_def prod.case find_host_net [OF j] rbind.simps sent put_sender [OF I(1) E j len] option.case by simp
  with M' show ?thesis by blast
qed

section \<open>The network of the test program\<close>

definition fresh :: "identity \<Rightarrow> async_interface" where
  "fresh i = \<lparr>ai_base = \<lparr>ni_ethernet_address = snd i, ni_ip_address = ipv4_address (fst i) 0, ni_frames_out = [], ni_map = [],
     ni_already_sent_arp = [], ni_buffer = [], ni_ms_since_last_tick = 0\<rparr>, ai_datagrams_out = []\<rparr>"

definition router_ips :: "u32 list" where
  "router_ips = [0xab434c2e, 0x0a000001, 0xac100001, 0xc0a80001, 0xc6b2e501, 0x8fc30002, 0x801e4cff]"

definition router_id :: "random_source \<Rightarrow> nat \<Rightarrow> identity" where
  "router_id rd i = (router_ips ! i, fst (random_router_ethernet_address rd (6 * i)))"

definition host_id :: "random_source \<Rightarrow> nat \<Rightarrow> identity" where
  "host_id rd j = (host_ips ! j, fst (random_host_ethernet_address rd (42 + 6 * j)))"

definition sim_ids :: "random_source \<Rightarrow> nat \<Rightarrow> identity list" where
  "sim_ids rd b = [[router_id rd 0, host_id rd 1], [router_id rd 1, host_id rd 0], [router_id rd 3, host_id rd 2],
     [router_id rd 5, host_id rd 3], [router_id rd 4, host_id rd 4, host_id rd 5]] ! b"

definition sim_links :: "random_source \<Rightarrow> async_interface list list" where
  "sim_links rd = map (\<lambda>b. map fresh (sim_ids rd b)) [0, 1, 2, 3, 4]"

definition sim_rules :: "route_rule list" where
  "sim_rules =
     [\<lparr>rr_prefix = 0, rr_length = 0, rr_next_hop = Some (ipv4_address 0xab434c01 0), rr_interface = 0\<rparr>,
      \<lparr>rr_prefix = 0x0a000000, rr_length = 8, rr_next_hop = None, rr_interface = 1\<rparr>,
      \<lparr>rr_prefix = 0xac100000, rr_length = 16, rr_next_hop = None, rr_interface = 2\<rparr>,
      \<lparr>rr_prefix = 0xc0a80000, rr_length = 24, rr_next_hop = None, rr_interface = 3\<rparr>,
      \<lparr>rr_prefix = 0xc6b2e500, rr_length = 24, rr_next_hop = None, rr_interface = 4\<rparr>,
      \<lparr>rr_prefix = 0x8fc30000, rr_length = 17, rr_next_hop = Some (ipv4_address 0x8fc30001 0), rr_interface = 5\<rparr>,
      \<lparr>rr_prefix = 0x8fc38000, rr_length = 18, rr_next_hop = Some (ipv4_address 0x8fc30001 0), rr_interface = 5\<rparr>,
      \<lparr>rr_prefix = 0x8fc3c000, rr_length = 19, rr_next_hop = Some (ipv4_address 0x8fc30001 0), rr_interface = 5\<rparr>,
      \<lparr>rr_prefix = 0x801e4cff, rr_length = 16, rr_next_hop = Some (ipv4_address 0x801e0001 0), rr_interface = 6\<rparr>]"

lemma quads:
  "inet_ntoa 0xab434c2e = ''171.67.76.46''" "inet_ntoa 0x0a000001 = ''10.0.0.1''" "inet_ntoa 0xac100001 = ''172.16.0.1''"
  "inet_ntoa 0xc0a80001 = ''192.168.0.1''" "inet_ntoa 0xc6b2e501 = ''198.178.229.1''" "inet_ntoa 0x8fc30002 = ''143.195.0.2''"
  "inet_ntoa 0x801e4cff = ''128.30.76.255''" "inet_ntoa 0x0a000002 = ''10.0.0.2''" "inet_ntoa 0xab434c01 = ''171.67.76.1''"
  "inet_ntoa 0xc0a80002 = ''192.168.0.2''" "inet_ntoa 0x8fc30001 = ''143.195.0.1''" "inet_ntoa 0xc6b2e52a = ''198.178.229.42''"
  "inet_ntoa 0xc6b2e52b = ''198.178.229.43''" "inet_ntoa 0 = ''0.0.0.0''" "inet_ntoa 0x0a000000 = ''10.0.0.0''"
  "inet_ntoa 0xac100000 = ''172.16.0.0''" "inet_ntoa 0xc0a80000 = ''192.168.0.0''" "inet_ntoa 0xc6b2e500 = ''198.178.229.0''"
  "inet_ntoa 0x8fc30000 = ''143.195.0.0''" "inet_ntoa 0x8fc38000 = ''143.195.128.0''" "inet_ntoa 0x8fc3c000 = ''143.195.192.0''"
  "inet_ntoa 0x801e0001 = ''128.30.0.1''" "inet_ntoa 0x01020304 = ''1.2.3.4''" "inet_ntoa 0x8fc38311 = ''143.195.131.17''"
  "inet_ntoa 0x8fc3c134 = ''143.195.193.52''" "inet_ntoa 0x8fc3dfff = ''143.195.223.255''" "inet_ntoa 0x8fc3e000 = ''143.195.224.0''"
  by code_simp+

lemma fresh_interface:
  assumes "numeric_resolver gai gni"
  shows "NetworkInterface gni mac (ipv4_address ip 0) = Inr (ai_base (fresh (ip, mac)))"
    "AsyncNetworkInterface (ai_base (fresh i)) = fresh i"
  by (simp_all add: NetworkInterface_def ip_port_ipv4 [OF assms] fresh_def AsyncNetworkInterface_def)

lemma new_interface_eq:
  assumes "numeric_resolver gai gni" "Address_ip gai addr 0 = Inr (ipv4_address ip 0)"
  shows "new_interface gai gni rd (r, k) addr =
    Inr (r\<lparr>rt_interfaces := rt_interfaces r @ [fresh (ip, fst (random_router_ethernet_address rd k))]\<rparr>, length (rt_interfaces r), k + 6)"
proof -
  have "random_router_ethernet_address rd k = (fst (random_router_ethernet_address rd k), k + 6)"
    by (simp add: random_router_ethernet_address_def Let_def)
  then obtain mac where m: "random_router_ethernet_address rd k = (mac, k + 6)" by blast
  show ?thesis
    unfolding new_interface_def m Let_def prod.case assms(2) rbind.simps fresh_interface [OF assms(1)] add_interface_def by simp
qed

lemma insert_host_eq:
  assumes "numeric_resolver gai gni" "Address_ip gai addr 0 = Inr (ipv4_address ip 0)" "Address_ip gai next_hop 0 = Inr (ipv4_address hop 0)"
  shows "insert_host gai gni rd (hosts, k) name addr next_hop =
    Inr (emplace name \<lparr>h_name = name, h_my_address = ipv4_address ip 0,
      h_interface = fresh (ip, fst (random_host_ethernet_address rd k)), h_next_hop = ipv4_address hop 0, h_expecting = []\<rparr> hosts, k + 6)"
proof -
  have "random_host_ethernet_address rd k = (fst (random_host_ethernet_address rd k), k + 6)"
    by (simp add: random_host_ethernet_address_def Let_def)
  then obtain mac where m: "random_host_ethernet_address rd k = (mac, k + 6)" by blast
  show ?thesis
    unfolding insert_host_def Host_def m Let_def prod.case assms(2,3) rbind.simps fresh_interface [OF assms(1)] by simp
qed

lemma direct_route_eq:
  assumes "numeric_resolver gai gni" "Address_ip gai str 0 = Inr (ipv4_address p 0)" "unat len \<le> 32" "nh = map_option (\<lambda>ip. ipv4_address ip 0) hop"
  shows "direct_route gai gni str len nh num r = Inr (r\<lparr>rt_table :=
    emplace (rule_key \<lparr>rr_prefix = p, rr_length = len, rr_next_hop = nh, rr_interface = num\<rparr>) (num, nh) (rt_table r)\<rparr>)"
proof -
  have "rule_ok gni \<lparr>rr_prefix = p, rr_length = len, rr_next_hop = nh, rr_interface = num\<rparr>"
    using assms(3,4) by (auto simp: rule_ok_def)
  from add_rule_returns [OF assms(1) this, of r] show ?thesis
    by (simp add: direct_route_def ip_of_string_def assms(2) add_rule_def rule_target_def)
qed

lemmas route_direct = direct_route_eq [where hop = None, unfolded option.map]
lemmas route_via = direct_route_eq [where hop = "Some x" for x, unfolded option.map]

lemma good_mac:
  assumes "length m = 6" "bit (m ! 0) 1" "\<not> bit (m ! 0) 0"
  shows "eth_ok m \<and> m \<noteq> EMPTY_ADDRESS \<and> m \<noteq> ETHERNET_BROADCAST"
  using assms by (auto simp: eth_ok_def EMPTY_ADDRESS_def ETHERNET_BROADCAST_def)

lemma router_mac: "eth_ok (snd (router_id rd i)) \<and> snd (router_id rd i) \<noteq> EMPTY_ADDRESS \<and> snd (router_id rd i) \<noteq> ETHERNET_BROADCAST"
  by (rule good_mac) (simp_all add: router_id_def random_router_ethernet_address_def random_bytes_def Let_def)

lemma host_mac: "eth_ok (snd (host_id rd i)) \<and> snd (host_id rd i) \<noteq> EMPTY_ADDRESS \<and> snd (host_id rd i) \<noteq> ETHERNET_BROADCAST"
proof (rule good_mac)
  let ?m = "snd (host_id rd i)"
  obtain x :: u8 where x: "?m ! 0 = and (or x 2) 0xfe"
    by (simp add: host_id_def random_host_ethernet_address_def random_bytes_def Let_def)
  show "length ?m = 6" by (simp add: host_id_def random_host_ethernet_address_def random_bytes_def Let_def)
  show "bit (?m ! 0) 1" "\<not> bit (?m ! 0) 0" unfolding x by (simp_all add: bit_simps)
qed

lemma sim_ids_ok:
  assumes "b < 5" "distinct (map snd (sim_ids rd b))"
  shows "ids_ok (sim_ids rd b)"
proof -
  have "x \<in> set (sim_ids rd b) \<Longrightarrow> \<exists>i. x = router_id rd i \<or> x = host_id rd i" for x
    using less_numeral_cases(1) [OF assms(1)] by (auto simp: sim_ids_def)
  then have "\<forall>x \<in> set (sim_ids rd b). eth_ok (snd x) \<and> snd x \<noteq> EMPTY_ADDRESS \<and> snd x \<noteq> ETHERNET_BROADCAST"
    using router_mac host_mac by blast
  moreover have "distinct (map fst (sim_ids rd b))"
    using less_numeral_cases(1) [OF assms(1)] by (auto simp: sim_ids_def router_id_def host_id_def router_ips_def host_ips_def)
  ultimately show ?thesis using assms(2) by (simp add: ids_ok_def)
qed

lemma fresh_member: "i < length ids \<Longrightarrow> member ids i (ai_base (fresh (ids ! i))) \<and> knows ids (ai_base (fresh (ids ! i))) \<and> idle (ai_base (fresh (ids ! i))) \<and> settled (ai_base (fresh (ids ! i)))"
  by (simp add: member_def knows_def idle_def settled_def fresh_def host_ip_def is_ipv4_def)

lemma sim_links_nth: "b < 5 \<Longrightarrow> sim_links rd ! b = map fresh (sim_ids rd b)"
  using less_numeral_cases(1) [of b] by (auto simp: sim_links_def)

lemma sim_idle:
  assumes "\<And>b. b < 5 \<Longrightarrow> distinct (map snd (sim_ids rd b))"
  shows "net_idle (sim_ids rd) (fresh (router_id rd 2)) (fresh (router_id rd 6)) (sim_links rd)"
proof -
  have "shape (sim_links rd)" by (simp add: shape_def sim_links_def sim_ids_def)
  moreover have "link_idle (sim_ids rd b) (sim_links rd ! b)" if "b < 5" for b
    using fresh_member by (auto simp: link_idle_def link_true_def link_members_def sim_links_nth [OF that])
  ultimately show ?thesis
    using sim_ids_ok [OF _ assms] by (auto simp: net_idle_def sim_links_nth fresh_def)
qed

lemma sim_placed: "placed (sim_ids rd)"
  using less_numeral_cases(2) by (auto simp: placed_def sim_ids_def host_link_def host_pos_def host_id_def dest!: less_numeral_cases(2))

lemma sim_hops: "j \<in> {0, 2, 4} \<Longrightarrow> fst (sim_ids rd (host_link ! j) ! 0) = host_hops ! j"
  by (auto simp: sim_ids_def host_link_def host_hops_def router_id_def router_ips_def)

lemma sim_route: "find_route (table_of sim_rules) ip (- 1) 32 = map_option rule_target (best_route sim_rules ip)"
  by (rule find_route_table) (simp add: sim_rules_def)

lemma sim_routes:
  "find_route (table_of sim_rules) 0xc0a80002 (- 1) 32 = Some (link_iface ! (host_link ! 2), None)"
  "find_route (table_of sim_rules) 0x0a000002 (- 1) 32 = Some (link_iface ! (host_link ! 0), None)"
  "find_route (table_of sim_rules) 0x01020304 (- 1) 32 = Some (link_iface ! (host_link ! 1), Some (ipv4_address 0xab434c01 0))"
  "find_route (table_of sim_rules) 0x8fc38311 (- 1) 32 = Some (link_iface ! (host_link ! 3), Some (ipv4_address 0x8fc30001 0))"
  "find_route (table_of sim_rules) 0x8fc3c134 (- 1) 32 = Some (link_iface ! (host_link ! 3), Some (ipv4_address 0x8fc30001 0))"
  "find_route (table_of sim_rules) 0x8fc3dfff (- 1) 32 = Some (link_iface ! (host_link ! 3), Some (ipv4_address 0x8fc30001 0))"
  "find_route (table_of sim_rules) 0x8fc3e000 (- 1) 32 = Some (link_iface ! (host_link ! 1), Some (ipv4_address 0xab434c01 0))"
  "find_route (table_of sim_rules) 0xc6b2e52b (- 1) 32 = Some (link_iface ! (host_link ! 5), None)"
  unfolding sim_route by (simp_all add: best_route_def sim_rules_def rule_matches_def rule_target_def net_tables)

lemma Network_eq:
  assumes res: "numeric_resolver gai gni" and zero: "Address_ip gai ''0'' 0 = Inr (ipv4_address 0 0)"
  shows "Network gai gni rd 0 = Inr (net_of (table_of sim_rules) (fresh (router_id rd 2)) (fresh (router_id rd 6)) (sim_links rd) no_expectations, 78)"
proof -
  have a: "Address_ip gai (inet_ntoa ip) 0 = Inr (ipv4_address ip 0)" for ip by (rule Address_ip_ipv4 [OF res])
  note A = a [of "0xab434c2e", unfolded quads] a [of "0x0a000001", unfolded quads] a [of "0xac100001", unfolded quads]
    a [of "0xc0a80001", unfolded quads] a [of "0xc6b2e501", unfolded quads] a [of "0x8fc30002", unfolded quads]
    a [of "0x801e4cff", unfolded quads] a [of "0x0a000002", unfolded quads] a [of "0xab434c01", unfolded quads]
    a [of "0xc0a80002", unfolded quads] a [of "0x8fc30001", unfolded quads] a [of "0xc6b2e52a", unfolded quads]
    a [of "0xc6b2e52b", unfolded quads] a [of 0, unfolded quads] a [of "0x0a000000", unfolded quads]
    a [of "0xac100000", unfolded quads] a [of "0xc0a80000", unfolded quads] a [of "0xc6b2e500", unfolded quads]
    a [of "0x8fc30000", unfolded quads] a [of "0x8fc38000", unfolded quads] a [of "0x8fc3c000", unfolded quads]
    a [of "0x801e0001", unfolded quads]
  note I = new_interface_eq [OF res]
  show ?thesis
    unfolding Network_def I [OF A(1)] rbind.simps prod.case I [OF A(2)]  I [OF A(3)] I [OF A(4)] I [OF A(5)] I [OF A(6)] I [OF A(7)]
       insert_host_eq [OF res A(8) A(2)] insert_host_eq [OF res A(9) zero] insert_host_eq [OF res A(10) A(4)]
       insert_host_eq [OF res A(11) zero] insert_host_eq [OF res A(12) A(5)] insert_host_eq [OF res A(13) A(5)]
       Let_def
    apply (simp add: Router_default_def emplace_def find_host_def)
    apply (simp add: route_via [OF res A(14) _ refl] route_direct [OF res A(15) _ refl] route_direct [OF res A(16) _ refl] route_direct [OF res A(17) _ refl]
      route_direct [OF res A(18) _ refl] route_via [OF res A(19) _ refl] route_via [OF res A(20) _ refl] route_via [OF res A(21) _ refl] A(22)
      route_via [OF res A(7) _ refl])
    apply (simp add: net_of_def router_interfaces_def sim_links_def sim_ids_def router_id_def host_id_def
      the_host_def net_tables no_expectations_def upt_6 router_ips_def)
    apply (simp add: table_of_def sim_rules_def rule_target_def eval_nat_numeral)
    done
qed

section \<open>The test program\<close>

definition between_tests :: "random_source \<Rightarrow> sim_network \<times> nat \<Rightarrow> bool" where
  "between_tests rd nk \<longleftrightarrow> (\<exists>M k. net_idle (sim_ids rd) (fresh (router_id rd 2)) (fresh (router_id rd 6)) M \<and>
     nk = (net_of (table_of sim_rules) (fresh (router_id rd 2)) (fresh (router_id rd 6)) M no_expectations, k))"

lemma test_to_host:
  assumes "numeric_resolver gai gni" "between_tests rd nk" "j \<in> {0, 2, 4}" "j' < 6" "sender = host_names ! j" "receiver = host_names ! j'"
    and "find_route (table_of sim_rules) (host_ips ! j') (- 1) 32 = Some (link_iface ! (host_link ! j'), None)"
  shows "returns (rbind (address_of (fst nk) receiver) (\<lambda>a. run_test gni rd sender a 64 (Some receiver) nk)) (between_tests rd)"
proof -
  obtain M k where M: "net_idle (sim_ids rd) (fresh (router_id rd 2)) (fresh (router_id rd 6)) M"
    and nk: "nk = (net_of (table_of sim_rules) (fresh (router_id rd 2)) (fresh (router_id rd 6)) M no_expectations, k)"
    using assms(2) by (auto simp: between_tests_def)
  have j: "j < 6" using assms(3) by auto
  have a: "address_of (fst nk) receiver = Inr (ipv4_address (host_ips ! j') 0)"
    using find_host_net [OF assms(4)] by (simp add: address_of_def nk assms(6) the_host_def)
  from run_test_delivers [OF M assms(1) sim_placed j assms(4) sim_hops [OF assms(3)] ipv4_numeric_address [where port = 0] _ assms(7), where ttl = 64 and rd = rd and k = k] show ?thesis
    unfolding a rbind.simps by (auto simp: nk assms(5,6) between_tests_def)
qed

lemma test_to_address:
  assumes "numeric_resolver gai gni" "between_tests rd nk" "j \<in> {0, 2, 4}" "j' < 6" "sender = host_names ! j" "receiver = host_names ! j'"
    and "str = inet_ntoa dst"
    and "find_route (table_of sim_rules) dst (- 1) 32 = Some (link_iface ! (host_link ! j'), Some (ipv4_address (host_ips ! j') 0))"
  shows "returns (rbind (Address_ip gai str 0) (\<lambda>a. run_test gni rd sender a 64 (Some receiver) nk)) (between_tests rd)"
proof -
  obtain M k where M: "net_idle (sim_ids rd) (fresh (router_id rd 2)) (fresh (router_id rd 6)) M"
    and nk: "nk = (net_of (table_of sim_rules) (fresh (router_id rd 2)) (fresh (router_id rd 6)) M no_expectations, k)"
    using assms(2) by (auto simp: between_tests_def)
  have j: "j < 6" using assms(3) by auto
  from run_test_delivers [OF M assms(1) sim_placed j assms(4) sim_hops [OF assms(3)] ipv4_numeric_address [where port = 0] _ assms(8), where ttl = 64 and rd = rd and k = k] show ?thesis
    unfolding assms(7) Address_ip_ipv4 [OF assms(1)] rbind.simps by (auto simp: nk assms(5,6) between_tests_def)
qed

lemma test_expired:
  assumes "numeric_resolver gai gni" "between_tests rd nk" "j \<in> {0, 2, 4}" "sender = host_names ! j" "str = inet_ntoa dst" "unat ttl \<le> 1"
  shows "returns (rbind (Address_ip gai str 0) (\<lambda>a. run_test gni rd sender a ttl None nk)) (between_tests rd)"
proof -
  obtain M k where M: "net_idle (sim_ids rd) (fresh (router_id rd 2)) (fresh (router_id rd 6)) M"
    and nk: "nk = (net_of (table_of sim_rules) (fresh (router_id rd 2)) (fresh (router_id rd 6)) M no_expectations, k)"
    using assms(2) by (auto simp: between_tests_def)
  have j: "j < 6" using assms(3) by auto
  from run_test_drops [OF M assms(1) sim_placed j sim_hops [OF assms(3)] ipv4_numeric_address [where ip = dst and port = 0] assms(6), where rd = rd and k = k and t = "table_of sim_rules"] show ?thesis
    unfolding assms(5) Address_ip_ipv4 [OF assms(1)] rbind.simps by (auto simp: nk assms(4) between_tests_def)
qed

lemma returns_then: "(\<And>x. P x \<Longrightarrow> returns (f x) Q) \<Longrightarrow> returns m P \<Longrightarrow> returns (rbind m f) Q"
  by (rule returns_bind)

section \<open>Properties\<close>

text \<open>C2: The network simulator ends with success, whatever numbers its random generator draws, unless two
  interfaces on one wire draw the same Ethernet address. Between hosts on different wires and on
  the same one, to the Internet and to the other router, every datagram that the tests expect
  arrives where they expect it, unchanged except for the hop it has used up, and no other
  datagram arrives anywhere; those with no hop to live are dropped.\<close>

theorem network_simulator_succeeds:
  assumes "numeric_resolver gai gni" and "Address_ip gai ''0'' 0 = Inr (ipv4_address 0 0)"
    and "\<forall>b < 5. distinct (map snd (sim_ids rd b))"
  shows "returns (network_simulator gai gni rd) (between_tests rd)"
proof -
  have start: "returns (Network gai gni rd 0) (between_tests rd)"
    using sim_idle [of rd] assms(3) by (simp add: Network_eq [OF assms(1,2)] between_tests_def) blast
  note host = test_to_host [OF assms(1)] and addr = test_to_address [OF assms(1)] and expired = test_expired [OF assms(1)]
  note facts = host_names_def host_ips_def sim_routes quads
  show ?thesis
    unfolding network_simulator_def Let_def
    apply (rule returns_then [where P = "between_tests rd"])+
    subgoal by (rule expired [where j = 0 and dst = "0x01020304"]) (simp_all add: facts)
    subgoal by (rule expired [where j = 0 and dst = "0x01020304"]) (simp_all add: facts)
    subgoal by (rule host [where j = 4 and j' = 5]) (simp_all add: facts)
    subgoal by (rule addr [where j = 2 and j' = 1 and dst = "0x8fc3e000"]) (simp_all add: facts)
    subgoal by (rule addr [where j = 2 and j' = 3 and dst = "0x8fc3dfff"]) (simp_all add: facts)
    subgoal by (rule addr [where j = 2 and j' = 3 and dst = "0x8fc3c134"]) (simp_all add: facts)
    subgoal by (rule addr [where j = 0 and j' = 3 and dst = "0x8fc38311"]) (simp_all add: facts)
    subgoal by (rule addr [where j = 0 and j' = 1 and dst = "0x01020304"]) (simp_all add: facts)
    subgoal by (rule host [where j = 2 and j' = 0]) (simp_all add: facts)
    subgoal by (rule host [where j = 0 and j' = 2]) (simp_all add: facts)
    subgoal by (rule start)
    done
qed

theorem network_simulator_succeeds_witness:
  "returns (network_simulator quad_gai quad_gni of_nat) (between_tests of_nat)"
proof (rule network_simulator_succeeds [OF quad_resolver])
  show "Address_ip quad_gai ''0'' 0 = Inr (ipv4_address 0 0)" by code_simp
  show "\<forall>b < 5. distinct (map snd (sim_ids of_nat b))" by code_simp
qed

end
