(* ===== verification/File_Descriptor.thy ===== *)
theory File_Descriptor
  imports Net_Address
begin

unbundle bit_operations_syntax

text \<open>
  \<^verbatim>\<open>libsponge/util/file_descriptor.hh\<close> and \<^verbatim>\<open>.cc\<close>, with \<open>SystemCall\<close> of \<^verbatim>\<open>util/util.cc\<close>: file descriptors that
  count how often they are read and written.

  A \<open>FileDescriptor\<close> is a reference to an \<open>FDWrapper\<close> that its duplicates share, so a program state holds
  the wrappers in a list and a descriptor is a position in it. The operating system is a
  parameter: a \<open>kernel\<close> has a function for each system call, which changes a state of any type and
  returns the result of the call and \<open>errno\<close>. Results are of type \<open>int\<close>, as \<open>SystemCall\<close> takes them; no
  transfer is larger. \<open>write\<close> ends for every kernel, and with a kernel that takes bytes in order all
  bytes arrive.
\<close>

section \<open>The operating system\<close>

type_synonym sysret = "int \<times> int"   \<comment> \<open>the returned value and \<open>errno\<close>\<close>

record pollfd =
  pf_fd :: int
  pf_events :: u16
  pf_revents :: u16

record 'k kernel =
  sys_read :: "int \<Rightarrow> size_t \<Rightarrow> 'k \<Rightarrow> 'k \<times> sysret \<times> bytes"
  sys_writev :: "int \<Rightarrow> iovec list \<Rightarrow> 'k \<Rightarrow> 'k \<times> sysret"
  sys_close :: "int \<Rightarrow> 'k \<Rightarrow> 'k \<times> sysret"
  sys_fcntl :: "int \<Rightarrow> int \<Rightarrow> u32 \<Rightarrow> 'k \<Rightarrow> 'k \<times> sysret"
  sys_poll :: "pollfd list \<Rightarrow> int \<Rightarrow> 'k \<Rightarrow> 'k \<times> sysret \<times> (nat \<Rightarrow> u16)"   \<comment> \<open>\<open>revents\<close> of each entry\<close>
  sys_socket :: "int \<Rightarrow> int \<Rightarrow> int \<Rightarrow> 'k \<Rightarrow> 'k \<times> sysret"
  sys_getsockopt :: "int \<Rightarrow> int \<Rightarrow> int \<Rightarrow> 'k \<Rightarrow> 'k \<times> sysret \<times> int \<times> size_t"
  sys_setsockopt :: "int \<Rightarrow> int \<Rightarrow> int \<Rightarrow> int \<Rightarrow> 'k \<Rightarrow> 'k \<times> sysret"
  sys_getname :: "string \<Rightarrow> int \<Rightarrow> 'k \<Rightarrow> 'k \<times> sysret \<times> bytes \<times> size_t"
  sys_bind :: "int \<Rightarrow> Address \<Rightarrow> 'k \<Rightarrow> 'k \<times> sysret"
  sys_connect :: "int \<Rightarrow> Address \<Rightarrow> 'k \<Rightarrow> 'k \<times> sysret"
  sys_shutdown :: "int \<Rightarrow> int \<Rightarrow> 'k \<Rightarrow> 'k \<times> sysret"
  sys_recvfrom :: "int \<Rightarrow> size_t \<Rightarrow> 'k \<Rightarrow> 'k \<times> sysret \<times> bytes \<times> bytes \<times> size_t"
  sys_sendmsg :: "int \<Rightarrow> Address option \<Rightarrow> iovec list \<Rightarrow> 'k \<Rightarrow> 'k \<times> sysret"
  sys_listen :: "int \<Rightarrow> int \<Rightarrow> 'k \<Rightarrow> 'k \<times> sysret"
  sys_accept :: "int \<Rightarrow> 'k \<Rightarrow> 'k \<times> sysret"
  sys_socketpair :: "int \<Rightarrow> int \<Rightarrow> 'k \<Rightarrow> 'k \<times> sysret \<times> int \<times> int"
  sys_open :: "string \<Rightarrow> 'k \<Rightarrow> 'k \<times> sysret"
  sys_tunsetiff :: "int \<Rightarrow> u16 \<Rightarrow> string \<Rightarrow> 'k \<Rightarrow> 'k \<times> sysret"   \<comment> \<open>\<open>ioctl\<close> with \<open>TUNSETIFF\<close>\<close>
  sys_clock :: "'k \<Rightarrow> 'k \<times> u64"

definition SystemCall :: "string \<Rightarrow> sysret \<Rightarrow> int \<Rightarrow> int res" where
  "SystemCall attempt r errno_mask =
     (let (return_value, errno) = r
      in if return_value \<ge> 0 \<or> errno = errno_mask then Inr return_value else Inl (TaggedError attempt errno))"

section \<open>FileDescriptor\<close>

record fd_wrapper =
  fd_fd :: int
  fd_eof :: bool
  fd_closed :: bool
  fd_read_count :: u32
  fd_write_count :: u32

record 'k world =
  w_kernel :: 'k
  w_fds :: "fd_wrapper list"

type_synonym fd = nat

definition wrapper :: "('k, 'm) world_scheme \<Rightarrow> fd \<Rightarrow> fd_wrapper" where
  "wrapper w h = w_fds w ! h"

definition on_wrapper :: "fd \<Rightarrow> (fd_wrapper \<Rightarrow> fd_wrapper) \<Rightarrow> ('k, 'm) world_scheme \<Rightarrow> ('k, 'm) world_scheme" where
  "on_wrapper h f w = w\<lparr>w_fds := (w_fds w)[h := f (w_fds w ! h)]\<rparr>"

definition FDWrapper :: "int \<Rightarrow> fd_wrapper res" where
  "FDWrapper n =
     (if n < 0 then Inl (RuntimeError (''invalid fd number:-'' @ to_string (nat (- n))))
      else Inr \<lparr>fd_fd = n, fd_eof = False, fd_closed = False, fd_read_count = 0, fd_write_count = 0\<rparr>)"

definition FileDescriptor :: "int \<Rightarrow> ('k, 'm) world_scheme \<Rightarrow> (('k, 'm) world_scheme \<times> fd) res" where
  "FileDescriptor n w = rbind (FDWrapper n) (\<lambda>x. Inr (w\<lparr>w_fds := w_fds w @ [x]\<rparr>, length (w_fds w)))"

definition fd_num :: "('k, 'm) world_scheme \<Rightarrow> fd \<Rightarrow> int" where
  "fd_num w h = fd_fd (wrapper w h)"

definition fd_close :: "'k kernel \<Rightarrow> fd \<Rightarrow> ('k, 'm) world_scheme \<Rightarrow> ('k, 'm) world_scheme res" where
  "fd_close K h w =
     (let (k, r) = sys_close K (fd_num w h) (w_kernel w);
          w = w\<lparr>w_kernel := k\<rparr>
      in rbind (SystemCall ''close'' r 0) (\<lambda>_. Inr (on_wrapper h (\<lambda>x. x\<lparr>fd_eof := True, fd_closed := True\<rparr>) w)))"

text \<open>The destructor reports a failing \<open>close\<close> and goes on.\<close>

definition fd_destroy :: "'k kernel \<Rightarrow> fd \<Rightarrow> ('k, 'm) world_scheme \<Rightarrow> ('k, 'm) world_scheme" where
  "fd_destroy K h w =
     (if fd_closed (wrapper w h) then w
      else case fd_close K h w of
             Inr w \<Rightarrow> w
           | Inl _ \<Rightarrow> w\<lparr>w_kernel := fst (sys_close K (fd_num w h) (w_kernel w))\<rparr>)"

definition register_read :: "fd \<Rightarrow> ('k, 'm) world_scheme \<Rightarrow> ('k, 'm) world_scheme" where
  "register_read h = on_wrapper h (\<lambda>x. x\<lparr>fd_read_count := fd_read_count x + 1\<rparr>)"

definition register_write :: "fd \<Rightarrow> ('k, 'm) world_scheme \<Rightarrow> ('k, 'm) world_scheme" where
  "register_write h = on_wrapper h (\<lambda>x. x\<lparr>fd_write_count := fd_write_count x + 1\<rparr>)"

definition BUFFER_SIZE :: size_t where
  "BUFFER_SIZE = 1024 * 1024"

definition fd_read :: "'k kernel \<Rightarrow> fd \<Rightarrow> size_t \<Rightarrow> ('k, 'm) world_scheme \<Rightarrow> (('k, 'm) world_scheme \<times> bytes) res" where
  "fd_read K h limit w =
     (let size_to_read = min BUFFER_SIZE limit;
          (k, r, str) = sys_read K (fd_num w h) size_to_read (w_kernel w);
          w = w\<lparr>w_kernel := k\<rparr>
      in rbind (SystemCall ''read'' r 0) (\<lambda>bytes_read.
           let w = (if limit > 0 \<and> bytes_read = 0 then on_wrapper h (\<lambda>x. x\<lparr>fd_eof := True\<rparr>) w else w)
           in if bytes_read > int size_to_read then Inl (RuntimeError ''read() read more than requested'')
              else if bytes_read < 0 then Inl (LengthError ''basic_string::resize'')
              else Inr (register_read h w, string_resize (take size_to_read str) (nat bytes_read))))"

text \<open>One turn of the loop of \<open>write\<close>: the state, what is left to write, and the number of bytes written.
  A negative number would be a prefix longer than every string.\<close>

definition write_once :: "'k kernel \<Rightarrow> fd \<Rightarrow> buffer_view_list \<Rightarrow> ('k, 'm) world_scheme \<Rightarrow>
    (('k, 'm) world_scheme \<times> buffer_view_list \<times> size_t) res" where
  "write_once K h buffer w =
     (let (k, r) = sys_writev K (fd_num w h) (as_iovecs buffer) (w_kernel w);
          w = w\<lparr>w_kernel := k\<rparr>
      in rbind (SystemCall ''writev'' r 0) (\<lambda>bytes_written.
           if bytes_written = 0 \<and> BufferViewList_size buffer \<noteq> 0
           then Inl (RuntimeError ''write returned 0 given non-empty input buffer'')
           else if bytes_written > int (BufferViewList_size buffer)
           then Inl (RuntimeError ''write wrote more than length of input buffer'')
           else if bytes_written < 0 then Inl (OutOfRange ''BufferListView::remove_prefix'')
           else let n = nat bytes_written
                in rbind (BufferViewList_remove_prefix buffer n) (\<lambda>buffer. Inr (register_write h w, buffer, n))))"

lemma remove_prefix_Inr:
  assumes "BufferViewList_remove_prefix vs n = Inr vs'"
  shows "concat vs' = drop n (concat vs)" "n \<le> length (concat vs)"
  using assms bvl.discard_iff [of vs n] bvl.discard_law [of n vs] by (auto simp: returns_iff)

lemma write_once_Inr:
  assumes "write_once K h buffer w = Inr (w', buffer', n)"
  shows "concat buffer' = drop n (concat buffer)" "n \<le> length (concat buffer)" "n = 0 \<Longrightarrow> BufferViewList_size buffer = 0"
  using assms by (auto simp: write_once_def SystemCall_def rbind_Inr_iff Let_def split: prod.splits if_splits dest: remove_prefix_Inr)

lemma BufferViewList_size_concat: "BufferViewList_size vs = length (concat vs) mod U64"
proof -
  have "a < U64 \<Longrightarrow> foldl (\<lambda>ret buf. u64_add ret (length buf)) a vs = (a + length (concat vs)) mod U64" for a
    by (induction vs arbitrary: a) (simp_all add: u64_add_def mod_simps add.assoc)
  from this [of 0] show ?thesis by (simp add: BufferViewList_size_def)
qed

function write_loop :: "'k kernel \<Rightarrow> fd \<Rightarrow> bool \<Rightarrow> size_t \<Rightarrow> buffer_view_list \<Rightarrow> ('k, 'm) world_scheme \<Rightarrow>
    (('k, 'm) world_scheme \<times> size_t) res" where
  "write_loop K h write_all total_bytes_written buffer w =
     rbind (write_once K h buffer w) (\<lambda>x.
       let w = fst x; buffer = fst (snd x); total_bytes_written = u64_add total_bytes_written (snd (snd x))
       in if write_all \<and> BufferViewList_size buffer \<noteq> 0 then write_loop K h write_all total_bytes_written buffer w
          else Inr (w, total_bytes_written))"
  by pat_completeness auto

termination
proof (relation "measure (\<lambda>(K, h, write_all, total, buffer, w). length (concat buffer))", goal_cases)
  case (2 K h write_all total_bytes_written buffer w x xa xb xc)
  obtain w' buffer' n where x: "x = (w', buffer', n)" by (cases x)
  with 2 have n: "write_once K h buffer w = Inr (w', buffer', n)" and ne: "BufferViewList_size buffer' \<noteq> 0" by auto
  note facts = write_once_Inr [OF n]
  have "n \<noteq> 0" using ne facts(1) facts(3) by (cases "n = 0") (simp_all add: BufferViewList_size_concat)
  with facts show ?case using 2 x by simp
qed simp

declare write_loop.simps [simp del]

definition fd_write :: "'k kernel \<Rightarrow> fd \<Rightarrow> buffer_view_list \<Rightarrow> bool \<Rightarrow> ('k, 'm) world_scheme \<Rightarrow> (('k, 'm) world_scheme \<times> size_t) res" where
  "fd_write K h buffer write_all w = write_loop K h write_all 0 buffer w"

definition F_GETFL :: int where
  "F_GETFL = 3"

definition F_SETFL :: int where
  "F_SETFL = 4"

definition O_NONBLOCK :: u32 where
  "O_NONBLOCK = 2048"

definition set_blocking :: "'k kernel \<Rightarrow> fd \<Rightarrow> bool \<Rightarrow> ('k, 'm) world_scheme \<Rightarrow> ('k, 'm) world_scheme res" where
  "set_blocking K h blocking_state w =
     (let (k, r) = sys_fcntl K (fd_num w h) F_GETFL 0 (w_kernel w);
          w = w\<lparr>w_kernel := k\<rparr>
      in rbind (SystemCall ''fcntl'' r 0) (\<lambda>ret.
           let flags = (word_of_int ret :: u32);
               flags = (if blocking_state then flags XOR (flags AND O_NONBLOCK) else flags OR O_NONBLOCK);
               (k, r) = sys_fcntl K (fd_num w h) F_SETFL flags (w_kernel w);
               w = w\<lparr>w_kernel := k\<rparr>
           in rbind (SystemCall ''fcntl'' r 0) (\<lambda>_. Inr w)))"

section \<open>Wrappers and counters\<close>

named_theorems fd_simps

lemma wrapper_on_wrapper [fd_simps]:
  "h < length (w_fds w) \<Longrightarrow> wrapper (on_wrapper h f w) h' = (if h' = h then f (wrapper w h) else wrapper w h')"
  by (simp add: wrapper_def on_wrapper_def nth_list_update)

lemma on_wrapper_simps [fd_simps]:
  "w_kernel (on_wrapper h f w) = w_kernel w" "length (w_fds (on_wrapper h f w)) = length (w_fds w)"
  "world.more (on_wrapper h f w) = world.more w"
  by (simp_all add: on_wrapper_def)

lemma wrapper_kernel [fd_simps]: "wrapper (w\<lparr>w_kernel := k\<rparr>) h = wrapper w h" "world.more (w\<lparr>w_kernel := k\<rparr>) = world.more w"
  by (simp_all add: wrapper_def)

lemma register_simps [fd_simps]:
  "w_kernel (register_read h w) = w_kernel w" "w_kernel (register_write h w) = w_kernel w"
  "length (w_fds (register_read h w)) = length (w_fds w)" "length (w_fds (register_write h w)) = length (w_fds w)"
  "world.more (register_read h w) = world.more w" "world.more (register_write h w) = world.more w"
  by (simp_all add: register_read_def register_write_def fd_simps)

lemma fd_num_on_wrapper: "(\<And>x. fd_fd (f x) = fd_fd x) \<Longrightarrow> fd_num (on_wrapper h f w) h' = fd_num w h'"
  by (cases "h < length (w_fds w)") (auto simp: on_wrapper_def fd_num_def wrapper_def nth_list_update list_update_beyond)

lemma fd_num_register [fd_simps]:
  "fd_num (register_read h w) h' = fd_num w h'" "fd_num (register_write h w) h' = fd_num w h'"
  "fd_num (w\<lparr>w_kernel := k\<rparr>) h' = fd_num w h'"
  by (simp_all add: register_read_def register_write_def fd_num_on_wrapper) (simp add: fd_num_def wrapper_def)

text \<open>What the operations on one descriptor leave as it is: the number, the other descriptors and the rest of
  the program state.\<close>

definition only_fd :: "fd \<Rightarrow> ('k, 'm) world_scheme \<Rightarrow> ('k, 'm) world_scheme \<Rightarrow> bool" where
  "only_fd h w w' \<longleftrightarrow> length (w_fds w') = length (w_fds w) \<and> (\<forall>h'. fd_num w' h' = fd_num w h') \<and>
     (\<forall>h'. h' \<noteq> h \<longrightarrow> wrapper w' h' = wrapper w h') \<and> world.more w' = world.more w"

lemma only_fd_refl [simp]: "only_fd h w w"
  by (simp add: only_fd_def)

lemma only_fd_trans: "only_fd h w w1 \<Longrightarrow> only_fd h w1 w2 \<Longrightarrow> only_fd h w w2"
  by (simp add: only_fd_def)

lemma only_fd_on_wrapper: "(\<And>x. fd_fd (f x) = fd_fd x) \<Longrightarrow> only_fd h w (on_wrapper h f w)"
  by (auto simp: only_fd_def fd_num_on_wrapper) (auto simp: on_wrapper_def wrapper_def)

lemma only_fd_kernel: "only_fd h w (w\<lparr>w_kernel := k\<rparr>)"
  by (simp add: only_fd_def fd_simps)

lemma only_fd_register: "only_fd h w (register_read h w)" "only_fd h w (register_write h w)"
  by (simp_all add: register_read_def register_write_def only_fd_on_wrapper)

section \<open>Reading\<close>

lemma string_resize_0: "string_resize s 0 = []"
  by (simp add: string_resize_def)

lemma fd_read_Inr:
  assumes "fd_read K h limit w = Inr (w', data)"
  shows "length data \<le> limit" "length data \<le> BUFFER_SIZE" "only_fd h w w'"
    and "h < length (w_fds w) \<Longrightarrow> fd_read_count (wrapper w' h) = fd_read_count (wrapper w h) + 1 \<and>
      fd_write_count (wrapper w' h) = fd_write_count (wrapper w h) \<and> fd_closed (wrapper w' h) = fd_closed (wrapper w h) \<and>
      fd_eof (wrapper w' h) = (fd_eof (wrapper w h) \<or> (limit > 0 \<and> data = []))"
proof -
  obtain k r e str where s: "sys_read K (fd_num w h) (min BUFFER_SIZE limit) (w_kernel w) = (k, (r, e), str)" by (metis prod.exhaust)
  let ?w = "if limit > 0 \<and> r = 0 then on_wrapper h (\<lambda>x. x\<lparr>fd_eof := True\<rparr>) (w\<lparr>w_kernel := k\<rparr>) else w\<lparr>w_kernel := k\<rparr>"
  have r: "0 \<le> r" "r \<le> int (min BUFFER_SIZE limit)" and w': "w' = register_read h ?w" and data: "length data = nat r"
    using assms by (auto simp: fd_read_def s SystemCall_def Let_def string_resize_0 split: if_splits)
  show "length data \<le> limit" "length data \<le> BUFFER_SIZE" using r data by auto
  show "only_fd h w w'"
    unfolding w' by (auto intro!: only_fd_trans [OF _ only_fd_register(1)] only_fd_trans [OF only_fd_kernel only_fd_on_wrapper] only_fd_kernel)
  show "h < length (w_fds w) \<Longrightarrow> fd_read_count (wrapper w' h) = fd_read_count (wrapper w h) + 1 \<and>
      fd_write_count (wrapper w' h) = fd_write_count (wrapper w h) \<and> fd_closed (wrapper w' h) = fd_closed (wrapper w h) \<and>
      fd_eof (wrapper w' h) = (fd_eof (wrapper w h) \<or> (limit > 0 \<and> data = []))"
    using r data by (auto simp: w' register_read_def fd_simps)
qed

section \<open>Writing\<close>

lemma write_once_world:
  assumes "write_once K h buffer w = Inr (w', buffer', n)"
  shows "only_fd h w w'"
    and "h < length (w_fds w) \<Longrightarrow> wrapper w' h = (wrapper w h)\<lparr>fd_write_count := fd_write_count (wrapper w h) + 1\<rparr>"
proof -
  obtain k where w': "w' = register_write h (w\<lparr>w_kernel := k\<rparr>)"
    using assms by (auto simp: write_once_def SystemCall_def rbind_Inr_iff Let_def split: prod.splits if_splits)
  show "only_fd h w w'" unfolding w' by (rule only_fd_trans [OF only_fd_kernel only_fd_register(2)])
  show "h < length (w_fds w) \<Longrightarrow> wrapper w' h = (wrapper w h)\<lparr>fd_write_count := fd_write_count (wrapper w h) + 1\<rparr>"
    by (simp add: w' register_write_def fd_simps)
qed

lemma write_loop_step:
  "write_once K h buffer w = Inr (w', buffer', n) \<Longrightarrow> write_loop K h write_all written buffer w =
     (if write_all \<and> BufferViewList_size buffer' \<noteq> 0 then write_loop K h write_all (u64_add written n) buffer' w'
      else Inr (w', u64_add written n))"
  "write_once K h buffer w = Inl e \<Longrightarrow> write_loop K h write_all written buffer w = Inl e"
  by (subst write_loop.simps; auto simp: Let_def)+

text \<open>\<open>write\<close> with \<open>write_all = false\<close> is one system call.\<close>

lemma fd_write_once: "fd_write K h buffer False w = rbind (write_once K h buffer w) (\<lambda>(w, buffer, n). Inr (w, u64_add 0 n))"
  by (cases "write_once K h buffer w") (auto simp: fd_write_def write_loop_step)

lemma fd_write_Inr:
  assumes "fd_write K h buffer write_all w = Inr (w', n)"
  shows "only_fd h w w'" and "h < length (w_fds w) \<Longrightarrow> fd_read_count (wrapper w' h) = fd_read_count (wrapper w h)"
proof -
  have "write_loop K h write_all written buffer w = Inr (w', n) \<Longrightarrow> only_fd h w w' \<and>
      (h < length (w_fds w) \<longrightarrow> fd_read_count (wrapper w' h) = fd_read_count (wrapper w h))" for written
  proof (induction "length (concat buffer)" arbitrary: written buffer w rule: less_induct)
    case less
    then obtain w1 b m where once: "write_once K h buffer w = Inr (w1, b, m)"
      by (cases "write_once K h buffer w") (auto simp: write_loop_step)
    note facts = write_once_Inr [OF once] and world = write_once_world [OF once]
    show ?case
    proof (cases "write_all \<and> BufferViewList_size b \<noteq> 0")
      case True
      then have "m \<noteq> 0" using facts(1,3) by (cases "m = 0") (simp_all add: BufferViewList_size_concat)
      with facts(1,2) have "length (concat b) < length (concat buffer)" by simp
      from less.hyps [OF this] less.prems True world only_fd_trans show ?thesis
        by (auto simp: write_loop_step(1) [OF once] only_fd_def)
    next
      case False
      then show ?thesis using less.prems world by (auto simp: write_loop_step(1) [OF once])
    qed
  qed
  with assms show "only_fd h w w'" "h < length (w_fds w) \<Longrightarrow> fd_read_count (wrapper w' h) = fd_read_count (wrapper w h)"
    by (auto simp: fd_write_def)
qed

text \<open>A kernel that takes bytes in order. \<open>sent k n\<close> are the bytes that the file with number \<open>n\<close> has taken. A call of
  \<open>writev\<close> fails with an error code, or takes a part of its argument from the front, and of an
  argument that is not empty at least a byte.\<close>

definition takes_in_order :: "'k kernel \<Rightarrow> ('k \<Rightarrow> int \<Rightarrow> bytes) \<Rightarrow> bool" where
  "takes_in_order K sent \<longleftrightarrow> (\<forall>n vs k k' r e. sys_writev K n vs k = (k', (r, e)) \<longrightarrow>
     (r < 0 \<longrightarrow> e \<noteq> 0) \<and>
     (0 \<le> r \<longrightarrow> nat r \<le> length (concat (map iov_base vs)) \<and> sent k' = (sent k)(n := sent k n @ take (nat r) (concat (map iov_base vs)))) \<and>
     (r = 0 \<longrightarrow> concat (map iov_base vs) = []))"

definition writev_fails :: "'k kernel \<Rightarrow> bool" where
  "writev_fails K \<longleftrightarrow> (\<exists>n vs k. fst (snd (sys_writev K n vs k)) < 0)"

lemma write_once_taken:
  assumes K: "takes_in_order K sent" and len: "length (concat buffer) < U64"
  shows "(\<exists>e. write_once K h buffer w = Inl (TaggedError ''writev'' e)) \<and> writev_fails K \<or>
    (\<exists>w' buffer' n. write_once K h buffer w = Inr (w', buffer', n) \<and> n \<le> length (concat buffer) \<and> (n = 0 \<longrightarrow> concat buffer = []) \<and>
       concat buffer' = drop n (concat buffer) \<and> sent (w_kernel w') = (sent (w_kernel w))(fd_num w h := sent (w_kernel w) (fd_num w h) @ take n (concat buffer)))"
proof -
  obtain k r e where s: "sys_writev K (fd_num w h) (as_iovecs buffer) (w_kernel w) = (k, (r, e))" by (metis prod.exhaust)
  have bytes: "concat (map iov_base (as_iovecs buffer)) = concat buffer" by (simp add: as_iovecs_def foldl_snoc_map comp_def)
  note law = K [unfolded takes_in_order_def, rule_format, OF s, unfolded bytes]
  show ?thesis
  proof (cases "r < 0")
    case True
    moreover have "writev_fails K" unfolding writev_fails_def using True s by (metis fst_conv snd_conv)
    ultimately show ?thesis using law by (simp add: write_once_def s SystemCall_def)
  next
    case False
    then have n: "nat r \<le> length (concat buffer)" "r = 0 \<Longrightarrow> concat buffer = []" using law by auto
    obtain b where b: "BufferViewList_remove_prefix buffer (nat r) = Inr b" "concat b = drop (nat r) (concat buffer)"
      using bvl.discard_law [of "nat r" buffer] n(1) by (auto simp: returns_iff)
    have "write_once K h buffer w = Inr (register_write h (w\<lparr>w_kernel := k\<rparr>), b, nat r)"
      using False n b len by (auto simp: write_once_def s SystemCall_def BufferViewList_size_concat)
    then show ?thesis using False n b(2) law by (simp add: fd_simps)
  qed
qed

lemma write_loop_all:
  assumes K: "takes_in_order K sent" and len: "length (concat buffer) < U64" "written + length (concat buffer) < U64"
  shows "(\<exists>e. write_loop K h True written buffer w = Inl (TaggedError ''writev'' e)) \<and> writev_fails K \<or>
    (\<exists>w'. write_loop K h True written buffer w = Inr (w', written + length (concat buffer)) \<and>
       sent (w_kernel w') = (sent (w_kernel w))(fd_num w h := sent (w_kernel w) (fd_num w h) @ concat buffer) \<and> only_fd h w w')"
  using len
proof (induction "length (concat buffer)" arbitrary: written buffer w rule: less_induct)
  case less
  note once = write_once_taken [OF K less.prems(1), of h w]
  then show ?case
  proof (elim disjE exE conjE, goal_cases)
    case (1 e)
    then show ?case by (simp add: write_loop_step)
  next
    case (2 w1 b n)
    note w1 = write_once_world(1) [OF 2(1)]
    show ?case
    proof (cases "length (concat b) = 0")
      case True
      then have "write_loop K h True written buffer w = Inr (w1, written + n)" "n = length (concat buffer)"
        using 2(2,4) less.prems by (simp_all add: write_loop_step(1) [OF 2(1)] BufferViewList_size_concat del: concat_eq_Nil_conv length_0_conv)
      then show ?thesis using 2(5) w1 by simp
    next
      case False
      then have shorter: "n \<noteq> 0" "length (concat b) < length (concat buffer)" using 2(2-4) by (cases "n = 0"; simp)+
      have step: "write_loop K h True written buffer w = write_loop K h True (written + n) b w1"
        using 2(2,4) less.prems False by (simp add: write_loop_step(1) [OF 2(1)] BufferViewList_size_concat del: concat_eq_Nil_conv length_0_conv)
      have sum: "written + n + length (concat b) = written + length (concat buffer)" using 2(2,4) by simp
      have ih: "(\<exists>e. write_loop K h True written buffer w = Inl (TaggedError ''writev'' e)) \<and> writev_fails K \<or>
          (\<exists>w'. write_loop K h True written buffer w = Inr (w', written + length (concat buffer)) \<and>
             sent (w_kernel w') = (sent (w_kernel w1))(fd_num w1 h := sent (w_kernel w1) (fd_num w1 h) @ concat b) \<and> only_fd h w1 w')"
        unfolding step by (rule less.hyps [OF shorter(2), of "written + n" w1, unfolded sum]) (use shorter less.prems in linarith)+
      have fd: "fd_num w1 h = fd_num w h" using w1 by (simp add: only_fd_def)
      have sent: "(sent (w_kernel w1))(fd_num w1 h := sent (w_kernel w1) (fd_num w1 h) @ concat b) =
          (sent (w_kernel w))(fd_num w h := sent (w_kernel w) (fd_num w h) @ concat buffer)"
        unfolding fd 2(5) 2(4) by simp
      from ih show ?thesis unfolding sent using only_fd_trans [OF w1] by blast
    qed
  qed
qed

lemma fd_write_taken:
  assumes "takes_in_order K sent" and "length (concat buffer) < U64"
  shows "(\<exists>e. fd_write K h buffer True w = Inl (TaggedError ''writev'' e)) \<and> writev_fails K \<or>
    (\<exists>w'. fd_write K h buffer True w = Inr (w', length (concat buffer)) \<and>
       sent (w_kernel w') = (sent (w_kernel w))(fd_num w h := sent (w_kernel w) (fd_num w h) @ concat buffer) \<and> only_fd h w w')"
  using write_loop_all [OF assms(1,2), of 0 h w] assms(2) by (simp add: fd_write_def)

section \<open>Properties\<close>

text \<open>C34: \<open>FileDescriptor::write\<close> with \<open>write_all\<close> returns, whatever share of the bytes each call of \<open>writev\<close> takes: either the
  system reports an error, or all bytes have been taken, in order, and their number is
  returned. No other descriptor is touched.\<close>

theorem fd_write_all:
  assumes "takes_in_order K sent" and "length (concat buffer) < U64"
  shows "(\<exists>e. fd_write K h buffer True w = Inl (TaggedError ''writev'' e)) \<or>
    (\<exists>w'. fd_write K h buffer True w = Inr (w', length (concat buffer)) \<and>
       sent (w_kernel w') = (sent (w_kernel w))(fd_num w h := sent (w_kernel w) (fd_num w h) @ concat buffer) \<and> only_fd h w w')"
  using fd_write_taken [OF assms, of h w] by blast

text \<open>A kernel that takes at most two bytes at a time.\<close>

definition two_bytes_kernel :: "(int \<Rightarrow> bytes) kernel" where
  "two_bytes_kernel =
     \<lparr>sys_read = \<lambda>n limit k. (k, (0, 0), []),
      sys_writev = \<lambda>n vs k. (k(n := k n @ take 2 (concat (map iov_base vs))), (int (min 2 (length (concat (map iov_base vs)))), 0)),
      sys_close = \<lambda>n k. (k, (0, 0)), sys_fcntl = \<lambda>n cmd x k. (k, (0, 0)), sys_poll = \<lambda>fds t k. (k, (0, 0), \<lambda>_. 0),
      sys_socket = \<lambda>d t p k. (k, (3, 0)), sys_getsockopt = \<lambda>n l opt k. (k, (0, 0), 0, 4), sys_setsockopt = \<lambda>n l opt v k. (k, (0, 0)),
      sys_getname = \<lambda>f n k. (k, (0, 0), [], 0), sys_bind = \<lambda>n a k. (k, (0, 0)), sys_connect = \<lambda>n a k. (k, (0, 0)),
      sys_shutdown = \<lambda>n how k. (k, (0, 0)), sys_recvfrom = \<lambda>n mtu k. (k, (0, 0), [], [], 0), sys_sendmsg = \<lambda>n a vs k. (k, (0, 0)),
      sys_listen = \<lambda>n b k. (k, (0, 0)), sys_accept = \<lambda>n k. (k, (4, 0)), sys_socketpair = \<lambda>d t k. (k, (0, 0), 5, 6),
      sys_open = \<lambda>path k. (k, (7, 0)), sys_tunsetiff = \<lambda>n flags name k. (k, (0, 0)), sys_clock = \<lambda>k. (k, 0)\<rparr>"

theorem fd_write_all_witness:
  "\<exists>w'. fd_write two_bytes_kernel 0 [[1, 2, 3], [4, 5]] True
      \<lparr>w_kernel = \<lambda>_. [], w_fds = [\<lparr>fd_fd = 1, fd_eof = False, fd_closed = False, fd_read_count = 0, fd_write_count = 0\<rparr>]\<rparr> = Inr (w', 5) \<and>
    w_kernel w' 1 = [1, 2, 3, 4, 5]"
proof -
  have K: "takes_in_order two_bytes_kernel (\<lambda>k. k)"
    by (auto simp: takes_in_order_def two_bytes_kernel_def min_def take_all)
  let ?w = "\<lparr>w_kernel = \<lambda>_. [], w_fds = [\<lparr>fd_fd = 1, fd_eof = False, fd_closed = False, fd_read_count = 0, fd_write_count = 0\<rparr>]\<rparr>"
  have "fd_write two_bytes_kernel 0 [[1, 2, 3], [4, 5]] True ?w \<noteq> Inl e" for e
    by (simp add: fd_write_def write_loop.simps write_once_def two_bytes_kernel_def SystemCall_def as_iovecs_def
        BufferViewList_size_def u64_add_def fd_simps)
  with fd_write_all [OF K, of "[[1, 2, 3], [4, 5]]" 0 ?w] show ?thesis by (auto simp: fd_num_def wrapper_def)
qed

end
