(* ===== verification/Net_Socket.thy ===== *)
theory Net_Socket
  imports File_Descriptor
begin

text \<open>
  \<^verbatim>\<open>libsponge/util/socket.hh\<close> and \<^verbatim>\<open>.cc\<close>: sockets of the operating system. A socket is a file descriptor;
  each operation is a system call, its error check and the registration of a read or a write.
\<close>

section \<open>Socket\<close>

definition AF_UNIX :: int where "AF_UNIX = 1"
definition SOCK_STREAM :: int where "SOCK_STREAM = 1"
definition SOCK_DGRAM :: int where "SOCK_DGRAM = 2"
definition SOL_SOCKET :: int where "SOL_SOCKET = 1"
definition SO_REUSEADDR :: int where "SO_REUSEADDR = 2"
definition SO_TYPE :: int where "SO_TYPE = 3"
definition SO_DOMAIN :: int where "SO_DOMAIN = 39"
definition SHUT_RD :: int where "SHUT_RD = 0"
definition SHUT_WR :: int where "SHUT_WR = 1"
definition SHUT_RDWR :: int where "SHUT_RDWR = 2"

definition Socket :: "'k kernel \<Rightarrow> int \<Rightarrow> int \<Rightarrow> ('k, 'm) world_scheme \<Rightarrow> (('k, 'm) world_scheme \<times> fd) res" where
  "Socket K domain type w =
     (let (k, r) = sys_socket K domain type 0 (w_kernel w)
      in rbind (SystemCall ''socket'' r 0) (\<lambda>n. FileDescriptor n (w\<lparr>w_kernel := k\<rparr>)))"

definition verify_option :: "'k kernel \<Rightarrow> fd \<Rightarrow> int \<Rightarrow> int \<Rightarrow> string \<Rightarrow> ('k, 'm) world_scheme \<Rightarrow> ('k, 'm) world_scheme res" where
  "verify_option K h opt expected mismatch w =
     (let (k, r, actual_value, len) = sys_getsockopt K (fd_num w h) SOL_SOCKET opt (w_kernel w)
      in rbind (SystemCall ''getsockopt'' r 0) (\<lambda>_.
           if len \<noteq> 4 \<or> actual_value \<noteq> expected then Inl (RuntimeError mismatch) else Inr (w\<lparr>w_kernel := k\<rparr>)))"

definition Socket_of_fd :: "'k kernel \<Rightarrow> fd \<Rightarrow> int \<Rightarrow> int \<Rightarrow> ('k, 'm) world_scheme \<Rightarrow> ('k, 'm) world_scheme res" where
  "Socket_of_fd K h domain type w =
     rbind (verify_option K h SO_DOMAIN domain ''socket domain mismatch'' w) (verify_option K h SO_TYPE type ''socket type mismatch'')"

definition get_address :: "'k kernel \<Rightarrow> string \<Rightarrow> fd \<Rightarrow> ('k, 'm) world_scheme \<Rightarrow> (('k, 'm) world_scheme \<times> Address) res" where
  "get_address K name_of_function h w =
     (let (k, r, address, len) = sys_getname K name_of_function (fd_num w h) (w_kernel w)
      in rbind (SystemCall name_of_function r 0) (\<lambda>_.
         rbind (Address_of_sockaddr address len) (\<lambda>a. Inr (w\<lparr>w_kernel := k\<rparr>, a))))"

definition local_address :: "'k kernel \<Rightarrow> fd \<Rightarrow> ('k, 'm) world_scheme \<Rightarrow> (('k, 'm) world_scheme \<times> Address) res" where
  "local_address K = get_address K ''getsockname''"

definition peer_address :: "'k kernel \<Rightarrow> fd \<Rightarrow> ('k, 'm) world_scheme \<Rightarrow> (('k, 'm) world_scheme \<times> Address) res" where
  "peer_address K = get_address K ''getpeername''"

definition socket_call :: "string \<Rightarrow> 'k \<times> sysret \<Rightarrow> ('k, 'm) world_scheme \<Rightarrow> ('k, 'm) world_scheme res" where
  "socket_call attempt kr w = rbind (SystemCall attempt (snd kr) 0) (\<lambda>_. Inr (w\<lparr>w_kernel := fst kr\<rparr>))"

definition socket_bind :: "'k kernel \<Rightarrow> fd \<Rightarrow> Address \<Rightarrow> ('k, 'm) world_scheme \<Rightarrow> ('k, 'm) world_scheme res" where
  "socket_bind K h address w = socket_call ''bind'' (sys_bind K (fd_num w h) address (w_kernel w)) w"

definition socket_connect :: "'k kernel \<Rightarrow> fd \<Rightarrow> Address \<Rightarrow> ('k, 'm) world_scheme \<Rightarrow> ('k, 'm) world_scheme res" where
  "socket_connect K h address w = socket_call ''connect'' (sys_connect K (fd_num w h) address (w_kernel w)) w"

definition socket_shutdown :: "'k kernel \<Rightarrow> fd \<Rightarrow> int \<Rightarrow> ('k, 'm) world_scheme \<Rightarrow> ('k, 'm) world_scheme res" where
  "socket_shutdown K h how w =
     rbind (socket_call ''shutdown'' (sys_shutdown K (fd_num w h) how (w_kernel w)) w) (\<lambda>w.
       if how = SHUT_RD then Inr (register_read h w)
       else if how = SHUT_WR then Inr (register_write h w)
       else if how = SHUT_RDWR then Inr (register_write h (register_read h w))
       else Inl (RuntimeError ''Socket::shutdown() called with invalid `how`''))"

definition set_reuseaddr :: "'k kernel \<Rightarrow> fd \<Rightarrow> ('k, 'm) world_scheme \<Rightarrow> ('k, 'm) world_scheme res" where
  "set_reuseaddr K h w = socket_call ''setsockopt'' (sys_setsockopt K (fd_num w h) SOL_SOCKET SO_REUSEADDR 1 (w_kernel w)) w"

section \<open>UDPSocket\<close>

record received_datagram =
  source_address :: Address
  rd_payload :: bytes

definition UDPSocket :: "'k kernel \<Rightarrow> ('k, 'm) world_scheme \<Rightarrow> (('k, 'm) world_scheme \<times> fd) res" where
  "UDPSocket K = Socket K (uint AF_INET) SOCK_DGRAM"

definition udp_mtu :: size_t where
  "udp_mtu = 65536"

definition udp_recv :: "'k kernel \<Rightarrow> fd \<Rightarrow> size_t \<Rightarrow> ('k, 'm) world_scheme \<Rightarrow> (('k, 'm) world_scheme \<times> received_datagram) res" where
  "udp_recv K h mtu w =
     (let (k, r, payload, address, fromlen) = sys_recvfrom K (fd_num w h) mtu (w_kernel w);
          w = w\<lparr>w_kernel := k\<rparr>
      in rbind (SystemCall ''recvfrom'' r 0) (\<lambda>recv_len.
           if recv_len > int mtu then Inl (RuntimeError ''recvfrom (oversized datagram)'')
           else let w = register_read h w
                in rbind (Address_of_sockaddr address fromlen) (\<lambda>a.
                     if recv_len < 0 then Inl (LengthError ''basic_string::resize'')
                     else Inr (w, \<lparr>source_address = a, rd_payload = string_resize (take mtu payload) (nat recv_len)\<rparr>))))"

definition sendmsg_helper :: "'k kernel \<Rightarrow> int \<Rightarrow> Address option \<Rightarrow> buffer_view_list \<Rightarrow> ('k, 'm) world_scheme \<Rightarrow> ('k, 'm) world_scheme res" where
  "sendmsg_helper K n destination payload w =
     (let (k, r) = sys_sendmsg K n destination (as_iovecs payload) (w_kernel w)
      in rbind (SystemCall ''sendmsg'' r 0) (\<lambda>bytes_sent.
           if bytes_sent \<noteq> int (BufferViewList_size payload) then Inl (RuntimeError ''datagram payload too big for sendmsg()'')
           else Inr (w\<lparr>w_kernel := k\<rparr>)))"

definition udp_sendto :: "'k kernel \<Rightarrow> fd \<Rightarrow> Address \<Rightarrow> buffer_view_list \<Rightarrow> ('k, 'm) world_scheme \<Rightarrow> ('k, 'm) world_scheme res" where
  "udp_sendto K h destination payload w =
     rbind (sendmsg_helper K (fd_num w h) (Some destination) payload w) (\<lambda>w. Inr (register_write h w))"

definition udp_send :: "'k kernel \<Rightarrow> fd \<Rightarrow> buffer_view_list \<Rightarrow> ('k, 'm) world_scheme \<Rightarrow> ('k, 'm) world_scheme res" where
  "udp_send K h payload w = rbind (sendmsg_helper K (fd_num w h) None payload w) (\<lambda>w. Inr (register_write h w))"

section \<open>TCPSocket and LocalStreamSocket\<close>

definition TCPSocket :: "'k kernel \<Rightarrow> ('k, 'm) world_scheme \<Rightarrow> (('k, 'm) world_scheme \<times> fd) res" where
  "TCPSocket K = Socket K (uint AF_INET) SOCK_STREAM"

definition tcp_listen :: "'k kernel \<Rightarrow> fd \<Rightarrow> int \<Rightarrow> ('k, 'm) world_scheme \<Rightarrow> ('k, 'm) world_scheme res" where
  "tcp_listen K h backlog w = socket_call ''listen'' (sys_listen K (fd_num w h) backlog (w_kernel w)) w"

definition tcp_accept :: "'k kernel \<Rightarrow> fd \<Rightarrow> ('k, 'm) world_scheme \<Rightarrow> (('k, 'm) world_scheme \<times> fd) res" where
  "tcp_accept K h w =
     (let w = register_read h w;
          (k, r) = sys_accept K (fd_num w h) (w_kernel w)
      in rbind (SystemCall ''accept'' r 0) (\<lambda>n.
         rbind (FileDescriptor n (w\<lparr>w_kernel := k\<rparr>)) (\<lambda>(w, h').
         rbind (Socket_of_fd K h' (uint AF_INET) SOCK_STREAM w) (\<lambda>w. Inr (w, h')))))"

definition LocalStreamSocket :: "'k kernel \<Rightarrow> fd \<Rightarrow> ('k, 'm) world_scheme \<Rightarrow> ('k, 'm) world_scheme res" where
  "LocalStreamSocket K h = Socket_of_fd K h AF_UNIX SOCK_STREAM"

section \<open>What the operations change\<close>

lemma socket_call_Inr: "socket_call attempt kr w = Inr w' \<Longrightarrow> w' = w\<lparr>w_kernel := fst kr\<rparr>"
  by (auto simp: socket_call_def rbind_Inr_iff)

lemma udp_recv_Inr:
  assumes "udp_recv K h mtu w = Inr (w', d)"
  shows "only_fd h w w'" "length (rd_payload d) \<le> mtu"
    and "h < length (w_fds w) \<Longrightarrow> wrapper w' h = (wrapper w h)\<lparr>fd_read_count := fd_read_count (wrapper w h) + 1\<rparr>"
proof -
  obtain k where w': "w' = register_read h (w\<lparr>w_kernel := k\<rparr>)" and len: "length (rd_payload d) \<le> mtu"
    using assms by (auto simp: udp_recv_def rbind_Inr_iff Let_def split: prod.splits if_splits)
  show "only_fd h w w'" unfolding w' by (rule only_fd_trans [OF only_fd_kernel only_fd_register(1)])
  show "length (rd_payload d) \<le> mtu" by (fact len)
  show "h < length (w_fds w) \<Longrightarrow> wrapper w' h = (wrapper w h)\<lparr>fd_read_count := fd_read_count (wrapper w h) + 1\<rparr>"
    by (simp add: w' register_read_def fd_simps)
qed

lemma udp_sendto_Inr:
  assumes "udp_sendto K h a payload w = Inr w'"
  shows "only_fd h w w'"
    and "h < length (w_fds w) \<Longrightarrow> wrapper w' h = (wrapper w h)\<lparr>fd_write_count := fd_write_count (wrapper w h) + 1\<rparr>"
proof -
  obtain k where w': "w' = register_write h (w\<lparr>w_kernel := k\<rparr>)"
    using assms by (auto simp: udp_sendto_def sendmsg_helper_def rbind_Inr_iff Let_def split: prod.splits if_splits)
  show "only_fd h w w'" unfolding w' by (rule only_fd_trans [OF only_fd_kernel only_fd_register(2)])
  show "h < length (w_fds w) \<Longrightarrow> wrapper w' h = (wrapper w h)\<lparr>fd_write_count := fd_write_count (wrapper w h) + 1\<rparr>"
    by (simp add: w' register_write_def fd_simps)
qed

lemma socket_shutdown_Inr:
  assumes "socket_shutdown K h how w = Inr w'"
  shows "only_fd h w w'"
  using assms
  by (auto simp: socket_shutdown_def rbind_Inr_iff dest!: socket_call_Inr split: if_splits
      intro!: only_fd_trans [OF _ only_fd_register(1)] only_fd_trans [OF _ only_fd_register(2)] only_fd_kernel)

end
