(* ===== verification/FD_Adapters.thy ===== *)
theory FD_Adapters
  imports Net_Socket TCP_Segment Network_Interface
begin

unbundle bit_operations_syntax

text \<open>
  The adapters of \<^verbatim>\<open>libsponge/tcp_helpers/\<close> that carry TCP segments over a file descriptor: in UDP datagrams
  (\<^verbatim>\<open>fd_adapter.{hh,cc}\<close>), in IPv4 datagrams (\<^verbatim>\<open>tcp_over_ip.{hh,cc}\<close>) over a TUN device, and in IPv4 datagrams in
  Ethernet frames over a TAP device (\<^verbatim>\<open>tuntap_adapter.{hh,cc}\<close>); and the adapter that drops some of them
  (\<^verbatim>\<open>lossy_fd_adapter.hh\<close>).

  The classes are template arguments of the sockets that use them. A record \<open>adapter\<close> has the operations
  of such a class, and the locale \<open>datagram_adapter\<close> what the sockets rely on; every adapter is an
  interpretation, with any kernel. A segment that is wrapped into a datagram at one end comes out unchanged at the
  other.
\<close>

section \<open>FdAdapterBase\<close>

record FdAdapterConfig =
  ac_source :: Address
  ac_destination :: Address
  ac_loss_rate_dn :: u16
  ac_loss_rate_up :: u16

definition FdAdapterConfig_default :: "getaddrinfo_fn \<Rightarrow> FdAdapterConfig res" where
  "FdAdapterConfig_default gai =
     rbind (Address_ip gai ''0'' 0) (\<lambda>source.
     rbind (Address_ip gai ''0'' 0) (\<lambda>destination.
       Inr \<lparr>ac_source = source, ac_destination = destination, ac_loss_rate_dn = 0, ac_loss_rate_up = 0\<rparr>))"

record fd_adapter_base =
  fa_cfg :: FdAdapterConfig
  fa_listen :: bool

definition FdAdapterBase :: "getaddrinfo_fn \<Rightarrow> fd_adapter_base res" where
  "FdAdapterBase gai = rbind (FdAdapterConfig_default gai) (\<lambda>cfg. Inr \<lparr>fa_cfg = cfg, fa_listen = False\<rparr>)"

definition set_listening :: "bool \<Rightarrow> 'm fd_adapter_base_scheme \<Rightarrow> 'm fd_adapter_base_scheme" where
  "set_listening l a = a\<lparr>fa_listen := l\<rparr>"

definition set_config :: "FdAdapterConfig \<Rightarrow> 'm fd_adapter_base_scheme \<Rightarrow> 'm fd_adapter_base_scheme" where
  "set_config cfg a = a\<lparr>fa_cfg := cfg\<rparr>"

abbreviation set_source :: "Address \<Rightarrow> 'm fd_adapter_base_scheme \<Rightarrow> 'm fd_adapter_base_scheme" where
  "set_source s a \<equiv> a\<lparr>fa_cfg := (fa_cfg a)\<lparr>ac_source := s\<rparr>\<rparr>"

abbreviation set_destination :: "Address \<Rightarrow> 'm fd_adapter_base_scheme \<Rightarrow> 'm fd_adapter_base_scheme" where
  "set_destination d a \<equiv> a\<lparr>fa_cfg := (fa_cfg a)\<lparr>ac_destination := d\<rparr>\<rparr>"

definition set_ports :: "getnameinfo_fn \<Rightarrow> FdAdapterConfig \<Rightarrow> TCPSegment \<Rightarrow> TCPSegment res" where
  "set_ports gni cfg seg =
     rbind (addr_port gni (ac_source cfg)) (\<lambda>sport.
     rbind (addr_port gni (ac_destination cfg)) (\<lambda>dport.
       Inr (seg\<lparr>seg_header := (seg_header seg)\<lparr>th_sport := sport, th_dport := dport\<rparr>\<rparr>)))"

section \<open>TCPOverUDPSocketAdapter\<close>

record udp_adapter = fd_adapter_base +
  ua_sock :: fd

definition TCPOverUDPSocketAdapter :: "getaddrinfo_fn \<Rightarrow> fd \<Rightarrow> udp_adapter res" where
  "TCPOverUDPSocketAdapter gai sock =
     rbind (FdAdapterBase gai) (\<lambda>base. Inr \<lparr>fa_cfg = fa_cfg base, fa_listen = fa_listen base, ua_sock = sock\<rparr>)"

definition udp_adapter_read :: "'k kernel \<Rightarrow> udp_adapter \<Rightarrow> ('k, 'm) world_scheme \<Rightarrow>
    (('k, 'm) world_scheme \<times> udp_adapter \<times> TCPSegment option) res" where
  "udp_adapter_read K a w =
     rbind (udp_recv K (ua_sock a) udp_mtu w) (\<lambda>(w, datagram).
       if \<not> fa_listen a \<and> \<not> Address_eq (source_address datagram) (ac_destination (fa_cfg a)) then Inr (w, a, None)
       else rbind (TCPSegment_parse TCPSegment_default (Buffer (rd_payload datagram)) 0) (\<lambda>(seg, r).
         if r \<noteq> NoError then Inr (w, a, None)
         else if fa_listen a then
           if th_syn (seg_header seg) \<and> \<not> th_rst (seg_header seg)
           then Inr (w, set_listening False (set_destination (source_address datagram) a), Some seg)
           else Inr (w, a, None)
         else Inr (w, a, Some seg)))"

definition udp_adapter_write :: "'k kernel \<Rightarrow> getnameinfo_fn \<Rightarrow> udp_adapter \<Rightarrow> TCPSegment \<Rightarrow> ('k, 'm) world_scheme \<Rightarrow>
    (('k, 'm) world_scheme \<times> udp_adapter) res" where
  "udp_adapter_write K gni a seg w =
     rbind (set_ports gni (fa_cfg a) seg) (\<lambda>seg.
     rbind (TCPSegment_serialize seg 0) (\<lambda>bl.
     rbind (udp_sendto K (ua_sock a) (ac_destination (fa_cfg a)) (BufferViewList_of_BufferList bl) w) (\<lambda>w. Inr (w, a))))"

section \<open>TCPOverIPv4Adapter\<close>

definition unwrap_tcp_in_ip :: "getaddrinfo_fn \<Rightarrow> getnameinfo_fn \<Rightarrow> 'm fd_adapter_base_scheme \<Rightarrow> IPv4Datagram \<Rightarrow>
    ('m fd_adapter_base_scheme \<times> TCPSegment option) res" where
  "unwrap_tcp_in_ip gai gni a ip_dgram =
     rbind (if fa_listen a then Inr True
            else rbind (ipv4_numeric (ac_source (fa_cfg a))) (\<lambda>ip. Inr (ih_dst (dg_header ip_dgram) = ip))) (\<lambda>for_us.
     if \<not> for_us then Inr (a, None) else
     rbind (if fa_listen a then Inr True
            else rbind (ipv4_numeric (ac_destination (fa_cfg a))) (\<lambda>ip. Inr (ih_src (dg_header ip_dgram) = ip))) (\<lambda>from_peer.
     if \<not> from_peer then Inr (a, None)
     else if ih_proto (dg_header ip_dgram) \<noteq> PROTO_TCP then Inr (a, None) else
     rbind (BufferList_to_Buffer (dg_payload ip_dgram)) (\<lambda>payload.
     rbind (TCPSegment_parse TCPSegment_default payload (pseudo_cksum (dg_header ip_dgram))) (\<lambda>(tcp_seg, r).
     if r \<noteq> NoError then Inr (a, None) else
     rbind (addr_port gni (ac_source (fa_cfg a))) (\<lambda>port.
     if th_dport (seg_header tcp_seg) \<noteq> port then Inr (a, None)
     else if fa_listen a \<and> \<not> (th_syn (seg_header tcp_seg) \<and> \<not> th_rst (seg_header tcp_seg)) then Inr (a, None) else
     rbind (if fa_listen a
            then rbind (Address_ip gai (inet_ntoa (ih_dst (dg_header ip_dgram))) port) (\<lambda>source.
                 rbind (Address_ip gai (inet_ntoa (ih_src (dg_header ip_dgram))) (th_sport (seg_header tcp_seg))) (\<lambda>destination.
                   Inr (set_listening False (set_destination destination (set_source source a)))))
            else Inr a) (\<lambda>a.
     rbind (addr_port gni (ac_destination (fa_cfg a))) (\<lambda>port.
     if th_sport (seg_header tcp_seg) \<noteq> port then Inr (a, None) else Inr (a, Some tcp_seg))))))))"

definition wrap_tcp_in_ip :: "getnameinfo_fn \<Rightarrow> FdAdapterConfig \<Rightarrow> TCPSegment \<Rightarrow> IPv4Datagram res" where
  "wrap_tcp_in_ip gni cfg seg =
     rbind (set_ports gni cfg seg) (\<lambda>seg.
     rbind (ipv4_numeric (ac_source cfg)) (\<lambda>src.
     rbind (ipv4_numeric (ac_destination cfg)) (\<lambda>dst.
       let header = IPv4Header_default\<lparr>ih_src := src, ih_dst := dst\<rparr>;
           header = header\<lparr>ih_len := of_nat (unat (ih_hlen header) * 4 + unat (th_doff (seg_header seg)) * 4 + buf_size (seg_payload seg))\<rparr>
       in rbind (TCPSegment_serialize seg (pseudo_cksum header)) (\<lambda>payload.
            Inr (IPv4Datagram_default\<lparr>dg_header := header, dg_payload := payload\<rparr>)))))"

section \<open>TunTapFD\<close>

definition CLONEDEV :: string where
  "CLONEDEV = ''/dev/net/tun''"

definition IFF_TUN :: u16 where "IFF_TUN = 0x0001"
definition IFF_TAP :: u16 where "IFF_TAP = 0x0002"
definition IFF_NO_PI :: u16 where "IFF_NO_PI = 0x1000"
definition IFNAMSIZ :: nat where "IFNAMSIZ = 16"

text \<open>The name of the device is copied up to its terminating zero, and 15 characters at most.\<close>

definition ifr_name :: "string \<Rightarrow> string" where
  "ifr_name devname = take (IFNAMSIZ - 1) (takeWhile (\<lambda>c. c \<noteq> CHR 0x00) devname)"

definition TunTapFD :: "'k kernel \<Rightarrow> string \<Rightarrow> bool \<Rightarrow> ('k, 'm) world_scheme \<Rightarrow> (('k, 'm) world_scheme \<times> fd) res" where
  "TunTapFD K devname is_tun w =
     (let (k, r) = sys_open K CLONEDEV (w_kernel w)
      in rbind (SystemCall ''open'' r 0) (\<lambda>n.
         rbind (FileDescriptor n (w\<lparr>w_kernel := k\<rparr>)) (\<lambda>(w, h).
           let flags = (if is_tun then IFF_TUN else IFF_TAP) OR IFF_NO_PI
           in rbind (socket_call ''ioctl'' (sys_tunsetiff K (fd_num w h) flags (ifr_name devname) (w_kernel w)) w) (\<lambda>w. Inr (w, h)))))"

definition TunFD :: "'k kernel \<Rightarrow> string \<Rightarrow> ('k, 'm) world_scheme \<Rightarrow> (('k, 'm) world_scheme \<times> fd) res" where
  "TunFD K devname = TunTapFD K devname True"

definition TapFD :: "'k kernel \<Rightarrow> string \<Rightarrow> ('k, 'm) world_scheme \<Rightarrow> (('k, 'm) world_scheme \<times> fd) res" where
  "TapFD K devname = TunTapFD K devname False"

section \<open>TCPOverIPv4OverTunFdAdapter\<close>

record tun_adapter = fd_adapter_base +
  ta_tun :: fd

definition size_max :: size_t where
  "size_max = U64 - 1"

definition TCPOverIPv4OverTunFdAdapter :: "getaddrinfo_fn \<Rightarrow> fd \<Rightarrow> tun_adapter res" where
  "TCPOverIPv4OverTunFdAdapter gai tun =
     rbind (FdAdapterBase gai) (\<lambda>base. Inr \<lparr>fa_cfg = fa_cfg base, fa_listen = fa_listen base, ta_tun = tun\<rparr>)"

definition tun_adapter_read :: "'k kernel \<Rightarrow> getaddrinfo_fn \<Rightarrow> getnameinfo_fn \<Rightarrow> tun_adapter \<Rightarrow> ('k, 'm) world_scheme \<Rightarrow>
    (('k, 'm) world_scheme \<times> tun_adapter \<times> TCPSegment option) res" where
  "tun_adapter_read K gai gni a w =
     rbind (fd_read K (ta_tun a) size_max w) (\<lambda>(w, data).
     rbind (IPv4Datagram_parse IPv4Datagram_default (Buffer data)) (\<lambda>(ip_dgram, r).
       if r \<noteq> NoError then Inr (w, a, None)
       else rbind (unwrap_tcp_in_ip gai gni a ip_dgram) (\<lambda>(a, seg). Inr (w, a, seg))))"

definition tun_adapter_write :: "'k kernel \<Rightarrow> getnameinfo_fn \<Rightarrow> tun_adapter \<Rightarrow> TCPSegment \<Rightarrow> ('k, 'm) world_scheme \<Rightarrow>
    (('k, 'm) world_scheme \<times> tun_adapter) res" where
  "tun_adapter_write K gni a seg w =
     rbind (wrap_tcp_in_ip gni (fa_cfg a) seg) (\<lambda>ip_dgram.
     rbind (IPv4Datagram_serialize ip_dgram) (\<lambda>bl.
     rbind (fd_write K (ta_tun a) (BufferViewList_of_BufferList bl) True w) (\<lambda>(w, _). Inr (w, a))))"

section \<open>TCPOverIPv4OverEthernetAdapter\<close>

record ethernet_adapter = fd_adapter_base +
  ea_tap :: fd
  ea_interface :: network_interface
  ea_next_hop :: Address

fun write_frames :: "'k kernel \<Rightarrow> fd \<Rightarrow> EthernetFrame list \<Rightarrow> ('k, 'm) world_scheme \<Rightarrow> ('k, 'm) world_scheme res" where
  "write_frames K h [] w = Inr w"
| "write_frames K h (f # fs) w =
     rbind (fd_write K h (BufferViewList_of_BufferList (EthernetFrame_serialize f)) True w) (\<lambda>(w, _). write_frames K h fs w)"

definition send_pending :: "'k kernel \<Rightarrow> ethernet_adapter \<Rightarrow> ('k, 'm) world_scheme \<Rightarrow> (('k, 'm) world_scheme \<times> ethernet_adapter) res" where
  "send_pending K a w =
     rbind (write_frames K (ea_tap a) (ni_frames_out (ea_interface a)) w) (\<lambda>w.
       Inr (w, a\<lparr>ea_interface := (ea_interface a)\<lparr>ni_frames_out := []\<rparr>\<rparr>))"

definition TCPOverIPv4OverEthernetAdapter :: "'k kernel \<Rightarrow> getaddrinfo_fn \<Rightarrow> getnameinfo_fn \<Rightarrow> fd \<Rightarrow> EthernetAddress \<Rightarrow> Address \<Rightarrow> Address \<Rightarrow>
    ('k, 'm) world_scheme \<Rightarrow> (('k, 'm) world_scheme \<times> ethernet_adapter) res" where
  "TCPOverIPv4OverEthernetAdapter K gai gni tap eth_address ip_address next_hop w =
     rbind (FdAdapterBase gai) (\<lambda>base.
     rbind (NetworkInterface gni eth_address ip_address) (\<lambda>interface.
     rbind (fd_write K tap (BufferViewList_of_BufferList (EthernetFrame_serialize EthernetFrame_default)) True w) (\<lambda>(w, _).
       Inr (w, \<lparr>fa_cfg = fa_cfg base, fa_listen = fa_listen base, ea_tap = tap, ea_interface = interface, ea_next_hop = next_hop\<rparr>))))"

definition ethernet_adapter_read :: "'k kernel \<Rightarrow> getaddrinfo_fn \<Rightarrow> getnameinfo_fn \<Rightarrow> ethernet_adapter \<Rightarrow> ('k, 'm) world_scheme \<Rightarrow>
    (('k, 'm) world_scheme \<times> ethernet_adapter \<times> TCPSegment option) res" where
  "ethernet_adapter_read K gai gni a w =
     rbind (fd_read K (ea_tap a) size_max w) (\<lambda>(w, data).
     rbind (EthernetFrame_parse EthernetFrame_default (Buffer data)) (\<lambda>(frame, r).
       if r \<noteq> NoError then Inr (w, a, None)
       else rbind (recv_frame (ea_interface a) frame) (\<lambda>(interface, ip_dgram).
            rbind (send_pending K (a\<lparr>ea_interface := interface\<rparr>) w) (\<lambda>(w, a).
              case ip_dgram of
                Some d \<Rightarrow> rbind (unwrap_tcp_in_ip gai gni a d) (\<lambda>(a, seg). Inr (w, a, seg))
              | None \<Rightarrow> Inr (w, a, None)))))"

definition ethernet_adapter_tick :: "'k kernel \<Rightarrow> ethernet_adapter \<Rightarrow> size_t \<Rightarrow> ('k, 'm) world_scheme \<Rightarrow>
    (('k, 'm) world_scheme \<times> ethernet_adapter) res" where
  "ethernet_adapter_tick K a ms_since_last_tick w =
     send_pending K (a\<lparr>ea_interface := NetworkInterface_tick (ea_interface a) ms_since_last_tick\<rparr>) w"

definition ethernet_adapter_write :: "'k kernel \<Rightarrow> getnameinfo_fn \<Rightarrow> ethernet_adapter \<Rightarrow> TCPSegment \<Rightarrow> ('k, 'm) world_scheme \<Rightarrow>
    (('k, 'm) world_scheme \<times> ethernet_adapter) res" where
  "ethernet_adapter_write K gni a seg w =
     rbind (wrap_tcp_in_ip gni (fa_cfg a) seg) (\<lambda>ip_dgram.
     rbind (send_datagram (ea_interface a) ip_dgram (ea_next_hop a)) (\<lambda>interface.
       send_pending K (a\<lparr>ea_interface := interface\<rparr>) w))"

section \<open>Adapters\<close>

text \<open>The operations of an adapter class.\<close>

record ('k, 'm, 'a) adapter =
  ad_fd :: "'a \<Rightarrow> fd"
  ad_config :: "'a \<Rightarrow> FdAdapterConfig"
  ad_set_config :: "FdAdapterConfig \<Rightarrow> 'a \<Rightarrow> 'a"
  ad_set_listening :: "bool \<Rightarrow> 'a \<Rightarrow> 'a"
  ad_read :: "'a \<Rightarrow> ('k, 'm) world_scheme \<Rightarrow> (('k, 'm) world_scheme \<times> 'a \<times> TCPSegment option) res"
  ad_write :: "'a \<Rightarrow> TCPSegment \<Rightarrow> ('k, 'm) world_scheme \<Rightarrow> (('k, 'm) world_scheme \<times> 'a) res"
  ad_tick :: "'a \<Rightarrow> size_t \<Rightarrow> ('k, 'm) world_scheme \<Rightarrow> (('k, 'm) world_scheme \<times> 'a) res"

definition udp_class :: "'k kernel \<Rightarrow> getnameinfo_fn \<Rightarrow> ('k, 'm, udp_adapter) adapter" where
  "udp_class K gni =
     \<lparr>ad_fd = ua_sock, ad_config = fa_cfg, ad_set_config = set_config, ad_set_listening = set_listening,
      ad_read = udp_adapter_read K, ad_write = udp_adapter_write K gni, ad_tick = \<lambda>a ms w. Inr (w, a)\<rparr>"

definition tun_class :: "'k kernel \<Rightarrow> getaddrinfo_fn \<Rightarrow> getnameinfo_fn \<Rightarrow> ('k, 'm, tun_adapter) adapter" where
  "tun_class K gai gni =
     \<lparr>ad_fd = ta_tun, ad_config = fa_cfg, ad_set_config = set_config, ad_set_listening = set_listening,
      ad_read = tun_adapter_read K gai gni, ad_write = tun_adapter_write K gni, ad_tick = \<lambda>a ms w. Inr (w, a)\<rparr>"

definition ethernet_class :: "'k kernel \<Rightarrow> getaddrinfo_fn \<Rightarrow> getnameinfo_fn \<Rightarrow> ('k, 'm, ethernet_adapter) adapter" where
  "ethernet_class K gai gni =
     \<lparr>ad_fd = ea_tap, ad_config = fa_cfg, ad_set_config = set_config, ad_set_listening = set_listening,
      ad_read = ethernet_adapter_read K gai gni, ad_write = ethernet_adapter_write K gni, ad_tick = ethernet_adapter_tick K\<rparr>"

section \<open>LossyFdAdapter\<close>

text \<open>The random generator is a sequence of numbers; the adapter carries how many it has drawn.\<close>

record 'a lossy_adapter =
  lo_rand :: nat
  lo_adapter :: 'a

definition should_drop :: "(nat \<Rightarrow> u32) \<Rightarrow> FdAdapterConfig \<Rightarrow> bool \<Rightarrow> 'a lossy_adapter \<Rightarrow> bool \<times> 'a lossy_adapter" where
  "should_drop rd cfg uplink l =
     (let loss = (if uplink then ac_loss_rate_up cfg else ac_loss_rate_dn cfg)
      in if loss \<noteq> 0 then ((ucast (rd (lo_rand l)) :: u16) < loss, l\<lparr>lo_rand := lo_rand l + 1\<rparr>) else (False, l))"

definition lossy_read :: "(nat \<Rightarrow> u32) \<Rightarrow> ('k, 'm, 'a) adapter \<Rightarrow> 'a lossy_adapter \<Rightarrow> ('k, 'm) world_scheme \<Rightarrow>
    (('k, 'm) world_scheme \<times> 'a lossy_adapter \<times> TCPSegment option) res" where
  "lossy_read rd A l w =
     rbind (ad_read A (lo_adapter l) w) (\<lambda>(w, a, ret).
       let (drop, l) = should_drop rd (ad_config A a) False (l\<lparr>lo_adapter := a\<rparr>)
       in Inr (w, l, if drop then None else ret))"

definition lossy_write :: "(nat \<Rightarrow> u32) \<Rightarrow> ('k, 'm, 'a) adapter \<Rightarrow> 'a lossy_adapter \<Rightarrow> TCPSegment \<Rightarrow> ('k, 'm) world_scheme \<Rightarrow>
    (('k, 'm) world_scheme \<times> 'a lossy_adapter) res" where
  "lossy_write rd A l seg w =
     (let (drop, l) = should_drop rd (ad_config A (lo_adapter l)) True l
      in if drop then Inr (w, l)
         else rbind (ad_write A (lo_adapter l) seg w) (\<lambda>(w, a). Inr (w, l\<lparr>lo_adapter := a\<rparr>)))"

definition lossy_class :: "(nat \<Rightarrow> u32) \<Rightarrow> ('k, 'm, 'a) adapter \<Rightarrow> ('k, 'm, 'a lossy_adapter) adapter" where
  "lossy_class rd A =
     \<lparr>ad_fd = \<lambda>l. ad_fd A (lo_adapter l), ad_config = \<lambda>l. ad_config A (lo_adapter l),
      ad_set_config = \<lambda>cfg l. l\<lparr>lo_adapter := ad_set_config A cfg (lo_adapter l)\<rparr>,
      ad_set_listening = \<lambda>b l. l\<lparr>lo_adapter := ad_set_listening A b (lo_adapter l)\<rparr>,
      ad_read = lossy_read rd A, ad_write = lossy_write rd A,
      ad_tick = \<lambda>l ms w. rbind (ad_tick A (lo_adapter l) ms w) (\<lambda>(w, a). Inr (w, l\<lparr>lo_adapter := a\<rparr>))\<rparr>"

section \<open>What every adapter does\<close>

text \<open>An adapter touches no descriptor but its own, reads it once when it is asked to read, and leaves the rest of the program state as
  it is.\<close>

locale datagram_adapter =
  fixes A :: "('k, 'm, 'a) adapter"
  assumes read_law: "ad_read A a w = Inr (w', a', seg) \<Longrightarrow> ad_fd A a' = ad_fd A a \<and> only_fd (ad_fd A a) w w' \<and>
      (ad_fd A a < length (w_fds w) \<longrightarrow> fd_read_count (wrapper w' (ad_fd A a)) = fd_read_count (wrapper w (ad_fd A a)) + 1)"
    and write_law: "ad_write A a s w = Inr (w', a') \<Longrightarrow> ad_fd A a' = ad_fd A a \<and> only_fd (ad_fd A a) w w'"
    and tick_law: "ad_tick A a ms w = Inr (w', a') \<Longrightarrow> ad_fd A a' = ad_fd A a \<and> only_fd (ad_fd A a) w w'"
    and config_law: "ad_fd A (ad_set_config A cfg a) = ad_fd A a" "ad_fd A (ad_set_listening A b a) = ad_fd A a"
      "ad_config A (ad_set_config A cfg a) = cfg" "ad_config A (ad_set_listening A b a) = ad_config A a"
begin

lemma lossy_fd [simp]: "lo_adapter (snd (should_drop rd cfg up l)) = lo_adapter l"
  by (simp add: should_drop_def Let_def)

lemma lossy_adapter: "datagram_adapter (lossy_class rd A)"
proof (unfold_locales, goal_cases)
  case (1 a w w' a' seg)
  then obtain w1 b s where r: "ad_read A (lo_adapter a) w = Inr (w1, b, s)" and w: "w' = w1" "lo_adapter a' = b"
    by (auto simp: lossy_class_def lossy_read_def rbind_Inr_iff should_drop_def Let_def split: if_splits)
  show ?case using read_law [OF r] w by (simp add: lossy_class_def)
next
  case (2 a s w w' a')
  then show ?case
    by (auto simp: lossy_class_def lossy_write_def rbind_Inr_iff should_drop_def Let_def split: if_splits dest: write_law)
next
  case (3 a ms w w' a')
  then show ?case by (auto simp: lossy_class_def rbind_Inr_iff dest: tick_law)
qed (simp_all add: lossy_class_def config_law)

end

lemma unwrap_keeps:
  "unwrap_tcp_in_ip gai gni a d = Inr (a', seg) \<Longrightarrow> fd_adapter_base.more a' = fd_adapter_base.more a"
  by (auto simp: unwrap_tcp_in_ip_def rbind_Inr_iff set_listening_def split: if_splits prod.splits)

lemma unwrap_keeps_fd:
  "unwrap_tcp_in_ip gai gni (a :: tun_adapter) d = Inr (a', seg) \<Longrightarrow> ta_tun a' = ta_tun a"
  "unwrap_tcp_in_ip gai gni (b :: ethernet_adapter) d = Inr (b', seg) \<Longrightarrow> ea_tap b' = ea_tap b"
  using unwrap_keeps [of gai gni a d a' seg] unwrap_keeps [of gai gni b d b' seg]
  by (cases a; cases a'; cases b; cases b'; simp)+

lemma write_frames_Inr:
  assumes "write_frames K h fs w = Inr w'"
  shows "only_fd h w w' \<and> (h < length (w_fds w) \<longrightarrow> fd_read_count (wrapper w' h) = fd_read_count (wrapper w h))"
  using assms
proof (induction fs arbitrary: w)
  case (Cons f fs)
  then obtain w1 n where "fd_write K h (BufferViewList_of_BufferList (EthernetFrame_serialize f)) True w = Inr (w1, n)"
    "write_frames K h fs w1 = Inr w'" by (auto simp: rbind_Inr_iff)
  with Cons.IH [of w1] fd_write_Inr [of K h _ True w w1 n] show ?case
    by (auto simp: only_fd_def)
qed simp

lemma send_pending_Inr:
  assumes "send_pending K a w = Inr (w', a')"
  shows "ea_tap a' = ea_tap a" "only_fd (ea_tap a) w w'"
    "ea_tap a < length (w_fds w) \<Longrightarrow> fd_read_count (wrapper w' (ea_tap a)) = fd_read_count (wrapper w (ea_tap a))"
  using assms write_frames_Inr by (fastforce simp: send_pending_def rbind_Inr_iff)+

lemma udp_adapter_read_Inr:
  assumes "udp_adapter_read K a w = Inr (w', a', seg)"
  shows "\<exists>d. udp_recv K (ua_sock a) udp_mtu w = Inr (w', d) \<and> ua_sock a' = ua_sock a"
proof (cases "udp_recv K (ua_sock a) udp_mtu w")
  case (Inr x)
  obtain w1 d where x: "x = (w1, d)" by (cases x)
  have "w' = w1 \<and> ua_sock a' = ua_sock a"
  proof (cases "TCPSegment_parse TCPSegment_default (Buffer (rd_payload d)) 0")
    case (Inr y)
    then show ?thesis
      using assms \<open>udp_recv K (ua_sock a) udp_mtu w = Inr x\<close> x
      by (cases y) (auto simp: udp_adapter_read_def set_listening_def split: if_splits)
  qed (use assms Inr x in \<open>auto simp: udp_adapter_read_def split: if_splits\<close>)
  then show ?thesis using Inr x by simp
qed (use assms in \<open>simp add: udp_adapter_read_def\<close>)

interpretation udp: datagram_adapter "udp_class K gni" for K :: "'k kernel" and gni
proof (unfold_locales, goal_cases)
  case (1 a w w' a' seg)
  then obtain d where r: "udp_recv K (ua_sock a) udp_mtu w = Inr (w', d)" and a: "ua_sock a' = ua_sock a"
    using udp_adapter_read_Inr [of K a w w' a' seg] by (auto simp: udp_class_def)
  show ?case using udp_recv_Inr [OF r] a by (simp add: udp_class_def)
next
  case (2 a s w w' a')
  then show ?case by (auto simp: udp_class_def udp_adapter_write_def rbind_Inr_iff dest: udp_sendto_Inr)
qed (auto simp: udp_class_def set_config_def set_listening_def)

interpretation tun: datagram_adapter "tun_class K gai gni" for K :: "'k kernel" and gai gni
proof (unfold_locales, goal_cases)
  case (1 a w w' a' seg)
  then obtain d where r: "fd_read K (ta_tun a) size_max w = Inr (w', d)" and a: "ta_tun a' = ta_tun a"
    by (auto simp: tun_class_def tun_adapter_read_def rbind_Inr_iff split: if_splits prod.splits dest: unwrap_keeps_fd)
  show ?case using fd_read_Inr [OF r] a by (simp add: tun_class_def)
next
  case (2 a s w w' a')
  then show ?case by (auto simp: tun_class_def tun_adapter_write_def rbind_Inr_iff dest: fd_write_Inr)
qed (auto simp: tun_class_def set_config_def set_listening_def)

lemma ethernet_adapter_read_Inr:
  assumes "ethernet_adapter_read K gai gni a w = Inr (w', a', seg)"
  obtains w1 d where "fd_read K (ea_tap a) size_max w = Inr (w1, d)" "w' = w1" "a' = a"
  | w1 d b c where "fd_read K (ea_tap a) size_max w = Inr (w1, d)" "ea_tap b = ea_tap a" "send_pending K b w1 = Inr (w', c)" "ea_tap a' = ea_tap c"
proof -
  obtain w1 d frame r where one: "fd_read K (ea_tap a) size_max w = Inr (w1, d)"
    and two: "EthernetFrame_parse EthernetFrame_default (Buffer d) = Inr (frame, r)"
    and rest: "(if r \<noteq> NoError then Inr (w1, a, None)
       else rbind (recv_frame (ea_interface a) frame) (\<lambda>(interface, ip_dgram).
            rbind (send_pending K (a\<lparr>ea_interface := interface\<rparr>) w1) (\<lambda>(w, a).
              case ip_dgram of
                Some d \<Rightarrow> rbind (unwrap_tcp_in_ip gai gni a d) (\<lambda>(a, seg). Inr (w, a, seg))
              | None \<Rightarrow> Inr (w, a, None)))) = Inr (w', a', seg)"
    using assms unfolding ethernet_adapter_read_def by (elim rbind_pairE)
  show ?thesis
  proof (cases "r = NoError")
    case False
    then show ?thesis using that(1) [OF one] rest by simp
  next
    case True
    then obtain i c where "send_pending K (a\<lparr>ea_interface := i\<rparr>) w1 = Inr (w', c)" "ea_tap a' = ea_tap c"
      using rest unwrap_keeps_fd(2) by (auto elim!: rbind_pairE split: option.splits)
    then show ?thesis using that(2) [OF one, of "a\<lparr>ea_interface := i\<rparr>" c] by simp
  qed
qed

interpretation ethernet: datagram_adapter "ethernet_class K gai gni" for K :: "'k kernel" and gai gni
proof (unfold_locales, goal_cases)
  case (1 a w w' a' seg)
  then have "ethernet_adapter_read K gai gni a w = Inr (w', a', seg)" by (simp add: ethernet_class_def)
  then show ?case
  proof (cases rule: ethernet_adapter_read_Inr)
    case (1 w1 d)
    then show ?thesis using fd_read_Inr [OF 1(1)] by (simp add: ethernet_class_def)
  next
    case (2 w1 d b c)
    note first = fd_read_Inr [OF 2(1)] and second = send_pending_Inr [OF 2(3), unfolded 2(2)]
    have "length (w_fds w1) = length (w_fds w)" using first(3) by (simp add: only_fd_def)
    then show ?thesis
      using first(4) second only_fd_trans [OF first(3) second(2)] 2(4) by (simp add: ethernet_class_def)
  qed
next
  case (2 a s w w' a')
  then show ?case
    using send_pending_Inr by (fastforce simp: ethernet_class_def ethernet_adapter_write_def rbind_Inr_iff)
next
  case (3 a ms w w' a')
  then show ?case
    using send_pending_Inr by (fastforce simp: ethernet_class_def ethernet_adapter_tick_def rbind_Inr_iff)
qed (simp_all add: ethernet_class_def set_config_def set_listening_def)

interpretation lossy_udp: datagram_adapter "lossy_class rd (udp_class K gni)" for rd and K :: "'k kernel" and gni
  by (rule udp.lossy_adapter)

interpretation lossy_tun: datagram_adapter "lossy_class rd (tun_class K gai gni)" for rd and K :: "'k kernel" and gai gni
  by (rule tun.lossy_adapter)

section \<open>Segments over IPv4\<close>

text \<open>\<open>configured b ib pb id pd\<close>: the adapter \<open>b\<close> is configured for the addresses \<open>ib:pb\<close> and \<open>id:pd\<close>. It accepts a segment with
  header \<open>h\<close> from \<open>ip1:p1\<close> to \<open>ip2:p2\<close> when these are its peer's and its own address; while it listens, when the
  segment asks for a connection at its port.\<close>

definition configured :: "'m fd_adapter_base_scheme \<Rightarrow> u32 \<Rightarrow> u16 \<Rightarrow> u32 \<Rightarrow> u16 \<Rightarrow> bool" where
  "configured b ib pb id' pd \<longleftrightarrow> ac_source (fa_cfg b) = ipv4_address ib pb \<and> ac_destination (fa_cfg b) = ipv4_address id' pd"

definition accepts :: "bool \<Rightarrow> u32 \<times> u16 \<Rightarrow> u32 \<times> u16 \<Rightarrow> u32 \<times> u16 \<Rightarrow> u32 \<times> u16 \<Rightarrow> TCPHeader \<Rightarrow> bool" where
  "accepts listening own peer from to h \<longleftrightarrow>
     (if listening then snd own = snd to \<and> th_syn h \<and> \<not> th_rst h else own = to \<and> peer = from)"

definition connected :: "'m fd_adapter_base_scheme \<Rightarrow> u32 \<Rightarrow> u16 \<Rightarrow> u32 \<Rightarrow> u16 \<Rightarrow> bool" where
  "connected b ip1 p1 ip2 p2 \<longleftrightarrow> \<not> fa_listen b \<and> ac_source (fa_cfg b) = ipv4_address ip2 p2 \<and> ac_destination (fa_cfg b) = ipv4_address ip1 p1"

definition with_ports :: "u16 \<Rightarrow> u16 \<Rightarrow> TCPHeader \<Rightarrow> TCPHeader" where
  "with_ports p1 p2 h = h\<lparr>th_sport := p1, th_dport := p2\<rparr>"

definition seg_fits_ip :: "TCPSegment \<Rightarrow> bool" where
  "seg_fits_ip seg \<longleftrightarrow> 5 \<le> unat (th_doff (seg_header seg)) \<and> unat (th_doff (seg_header seg)) < 16 \<and>
     20 + 4 * unat (th_doff (seg_header seg)) + buf_size (seg_payload seg) \<le> 65535"

lemma set_ports_eq:
  assumes "numeric_resolver gai gni" and "ac_source cfg = ipv4_address ip1 p1" and "ac_destination cfg = ipv4_address ip2 p2"
  shows "set_ports gni cfg seg = Inr (seg\<lparr>seg_header := with_ports p1 p2 (seg_header seg)\<rparr>)"
  by (simp add: set_ports_def addr_port_def ip_port_ipv4 [OF assms(1)] assms(2,3) with_ports_def)

definition tcp_in_ip :: "u32 \<Rightarrow> u32 \<Rightarrow> TCPSegment \<Rightarrow> IPv4Header" where
  "tcp_in_ip ip1 ip2 seg = IPv4Header_default\<lparr>ih_src := ip1, ih_dst := ip2,
     ih_len := of_nat (20 + unat (th_doff (seg_header seg)) * 4 + buf_size (seg_payload seg))\<rparr>"

lemma wrap_eq:
  assumes res: "numeric_resolver gai gni" and cfg: "ac_source cfg = ipv4_address ip1 p1" "ac_destination cfg = ipv4_address ip2 p2"
    and fits: "seg_fits_ip seg"
  defines "seg1 \<equiv> seg\<lparr>seg_header := with_ports p1 p2 (seg_header seg)\<rparr>"
  obtains bl where "TCPSegment_serialize seg1 (pseudo_cksum (tcp_in_ip ip1 ip2 seg)) = Inr bl"
    "wrap_tcp_in_ip gni cfg seg = Inr \<lparr>dg_header = tcp_in_ip ip1 ip2 seg, dg_payload = bl\<rparr>"
    "ip_valid (tcp_in_ip ip1 ip2 seg) (length (concatenate bl))"
proof -
  have doff: "5 \<le> unat (th_doff (seg_header seg1))" using fits by (simp add: seg1_def seg_fits_ip_def with_ports_def)
  note ser = TCPSegment_serialize_eq [OF doff, of "pseudo_cksum (tcp_in_ip ip1 ip2 seg)"]
  have "wrap_tcp_in_ip gni cfg seg = rbind (TCPSegment_serialize seg1 (pseudo_cksum (tcp_in_ip ip1 ip2 seg)))
      (\<lambda>payload. Inr \<lparr>dg_header = tcp_in_ip ip1 ip2 seg, dg_payload = payload\<rparr>)"
    by (simp add: wrap_tcp_in_ip_def set_ports_eq [OF res cfg] cfg tcp_in_ip_def seg1_def with_ports_def IPv4Header_default_def
        IPv4Header_LENGTH_def IPv4Datagram_default_def Let_def)
  moreover have "ip_valid (tcp_in_ip ip1 ip2 seg) (length (concatenate bl))"
    if "TCPSegment_serialize seg1 (pseudo_cksum (tcp_in_ip ip1 ip2 seg)) = Inr bl" for bl
  proof -
    have small: "n \<le> 65535 \<Longrightarrow> unat (of_nat n :: u16) = n" for n by (simp add: unat_of_nat)
    have "unat (ih_len (tcp_in_ip ip1 ip2 seg)) = 20 + unat (th_doff (seg_header seg)) * 4 + buf_size (seg_payload seg)"
      using small [of "20 + unat (th_doff (seg_header seg)) * 4 + buf_size (seg_payload seg)"] fits
      by (simp add: tcp_in_ip_def seg_fits_ip_def mult.commute del: of_nat_add of_nat_mult of_nat_numeral)
    moreover have "length (concatenate bl) = 4 * unat (th_doff (seg_header seg)) + buf_size (seg_payload seg)"
      using that fits unfolding ser by (auto simp: length_concatenate seg1_def with_ports_def seg_fits_ip_def)
    ultimately show ?thesis
      by (simp add: ip_valid_def) (simp add: tcp_in_ip_def IPv4Header_default_def IPv4Header_LENGTH_def)
  qed
  ultimately show ?thesis using that ser by force
qed

lemma unwrap_eq:
  assumes res: "numeric_resolver gai gni" and b: "configured b ib pb id' pd"
    and dg: "ih_src h = ip1" "ih_dst h = ip2" "ih_proto h = PROTO_TCP"
    and parse: "TCPSegment_parse TCPSegment_default buf (pseudo_cksum h) = Inr (seg, NoError)"
    and ports: "th_sport (seg_header seg) = p1" "th_dport (seg_header seg) = p2"
  shows "if accepts (fa_listen b) (ib, pb) (id', pd) (ip1, p1) (ip2, p2) (seg_header seg)
    then \<exists>b'. unwrap_tcp_in_ip gai gni b \<lparr>dg_header = h, dg_payload = [buf]\<rparr> = Inr (b', Some seg) \<and> connected b' ip1 p1 ip2 p2
    else unwrap_tcp_in_ip gai gni b \<lparr>dg_header = h, dg_payload = [buf]\<rparr> = Inr (b, None)"
proof (cases "fa_listen b")
  case True
  then show ?thesis
    using b
    by (auto simp: unwrap_tcp_in_ip_def configured_def accepts_def dg parse ports BufferList_to_Buffer_def addr_port_def ip_port_ipv4 [OF res]
        Address_ip_ipv4 [OF res] connected_def set_listening_def)
next
  case False
  then show ?thesis
    using b
    by (auto simp: unwrap_tcp_in_ip_def configured_def accepts_def dg parse ports BufferList_to_Buffer_def addr_port_def ip_port_ipv4 [OF res] connected_def)
qed

text \<open>The header that arrives: the one that was sent, with the ports and a checksum.\<close>

definition arrived :: "TCPSegment \<Rightarrow> u16 \<Rightarrow> u16 \<Rightarrow> TCPSegment \<Rightarrow> bool" where
  "arrived seg p1 p2 seg' \<longleftrightarrow> (\<exists>v. seg_header seg' = (with_ports p1 p2 (seg_header seg))\<lparr>th_cksum := v\<rparr>) \<and>
     buf_str (seg_payload seg') = buf_str (seg_payload seg)"

lemma wrap_unwrap:
  assumes res: "numeric_resolver gai gni" and cfg: "ac_source cfg = ipv4_address ip1 p1" "ac_destination cfg = ipv4_address ip2 p2"
    and fits: "seg_fits_ip seg" and b: "configured b ib pb id' pd"
  obtains dg bl dg' where "wrap_tcp_in_ip gni cfg seg = Inr dg" "ip_valid (dg_header dg) (length (concatenate (dg_payload dg)))"
    "IPv4Datagram_serialize dg = Inr bl" "length (concatenate bl) \<le> 65535" "concatenate bl \<noteq> []"
    "IPv4Datagram_parse IPv4Datagram_default (Buffer (concatenate bl)) = Inr (dg', NoError)"
    "if accepts (fa_listen b) (ib, pb) (id', pd) (ip1, p1) (ip2, p2) (seg_header seg)
     then \<exists>b' seg'. unwrap_tcp_in_ip gai gni b dg' = Inr (b', Some seg') \<and> arrived seg p1 p2 seg' \<and> connected b' ip1 p1 ip2 p2
     else unwrap_tcp_in_ip gai gni b dg' = Inr (b, None)"
proof -
  let ?h = "tcp_in_ip ip1 ip2 seg" and ?seg1 = "seg\<lparr>seg_header := with_ports p1 p2 (seg_header seg)\<rparr>"
  obtain pay where pay: "TCPSegment_serialize ?seg1 (pseudo_cksum ?h) = Inr pay"
    "wrap_tcp_in_ip gni cfg seg = Inr \<lparr>dg_header = ?h, dg_payload = pay\<rparr>" "ip_valid ?h (length (concatenate pay))"
    by (rule wrap_eq [OF res cfg fits])
  let ?dg = "\<lparr>dg_header = ?h, dg_payload = pay\<rparr>"
  have valid: "ip_valid (dg_header ?dg) (length (concatenate (dg_payload ?dg)))" using pay(3) by simp
  obtain bl where bl: "IPv4Datagram_serialize ?dg = Inr bl" using IPv4Datagram_serialize_eq [OF valid] by blast
  have len: "length (concatenate bl) = unat (ih_len ?h)"
    using bl pay(3) unfolding IPv4Datagram_serialize_eq [OF valid] by (auto simp: ip_valid_def)
  then have "0 < length (concatenate bl)" using pay(3) by (simp add: ip_valid_def)
  then have ne: "concatenate bl \<noteq> []" by auto
  obtain dg' buf where dg': "IPv4Datagram_parse IPv4Datagram_default (Buffer (concatenate bl)) = Inr (dg', NoError)"
    "dg_header dg' = dg_out ?h" "dg_payload dg' = [buf]" "buf_ok buf" "buf_str buf = concatenate pay"
    using IPv4Datagram_parse_one_buffer [OF valid bl, of "Buffer (concatenate bl)" IPv4Datagram_default] by (auto simp: returns_iff)
  have out: "pseudo_cksum (dg_out ?h) = pseudo_cksum ?h" by (simp add: pseudo_cksum_def dg_out_def payload_length_def)
  obtain seg' where seg': "TCPSegment_parse TCPSegment_default buf (pseudo_cksum ?h) = Inr (seg', NoError)"
    "seg_header seg' = seg_out ?seg1 (pseudo_cksum ?h)" "buf_str (seg_payload seg') = buf_str (seg_payload seg)"
    using TCPSegment_parse_serialize [of ?seg1 "pseudo_cksum ?h" pay buf TCPSegment_default] pay(1) dg'(4,5) fits pseudo_cksum_le
    by (auto simp: returns_iff seg_fits_ip_def with_ports_def)
  have h: "seg_header seg' = (with_ports p1 p2 (seg_header seg))\<lparr>th_cksum := th_cksum (seg_header seg')\<rparr>"
    using seg'(2) by (simp add: seg_out_def)
  have ports: "th_sport (seg_header seg') = p1" "th_dport (seg_header seg') = p2" by (subst h, simp add: with_ports_def)+
  have hdr: "ih_src (dg_out ?h) = ip1" "ih_dst (dg_out ?h) = ip2" "ih_proto (dg_out ?h) = PROTO_TCP"
    by (simp_all add: dg_out_def tcp_in_ip_def IPv4Header_default_def)
  have acc: "accepts l x y f t (seg_header seg') = accepts l x y f t (seg_header seg)" for l x y f t
    by (subst h) (simp add: accepts_def with_ports_def)
  have "dg' = \<lparr>dg_header = dg_out ?h, dg_payload = [buf]\<rparr>" using dg'(2,3) by simp
  moreover have "arrived seg p1 p2 seg'" using h seg'(3) by (auto simp: arrived_def)
  moreover have "length (concatenate bl) \<le> 65535" using len unat_lt(2) [of "ih_len ?h"] by simp
  ultimately show ?thesis
    using that [OF pay(2) valid bl _ ne dg'(1)] unwrap_eq [OF res b hdr _ ports, of buf] seg'(1) unfolding out acc by (simp split: if_splits) blast+
qed

section \<open>Properties\<close>

text \<open>C35: TCP over IPv4 over TUN devices. A segment written at one end leaves as one IPv4 datagram, unless \<open>writev\<close> fails.
  The other end that reads these bytes from its device filters by address and port: a connected end gets the same
  segment, with the ports filled in and both checksums verified, when it comes from its peer's address
  and port and goes to its own; a listening end gets it when it goes to its port and is a SYN without RST, and
  is then connected to the sender. In all other cases the end gets nothing and stays as it is.\<close>

theorem tun_adapters_connect:
  fixes K :: "'k kernel" and K2 :: "'j kernel" and w :: "('k, 'm) world_scheme"
  assumes "numeric_resolver gai gni" and "takes_in_order K sent" and "seg_fits_ip seg"
    and "configured a ip1 p1 ip2 p2" and "configured b ib pb id' pd"
  shows "(\<exists>e. tun_adapter_write K gni a seg w = Inl (TaggedError ''writev'' e)) \<and> writev_fails K \<or>
    (\<exists>w' bs. tun_adapter_write K gni a seg w = Inr (w', a) \<and>
       sent (w_kernel w') = (sent (w_kernel w))(fd_num w (ta_tun a) := sent (w_kernel w) (fd_num w (ta_tun a)) @ bs) \<and>
       (\<forall>w2 :: ('j, 'n) world_scheme. \<forall>k2. sys_read K2 (fd_num w2 (ta_tun b)) BUFFER_SIZE (w_kernel w2) = (k2, (int (length bs), 0), bs) \<longrightarrow>
          (if accepts (fa_listen b) (ib, pb) (id', pd) (ip1, p1) (ip2, p2) (seg_header seg)
           then \<exists>b' seg'. tun_adapter_read K2 gai gni b w2 = Inr (register_read (ta_tun b) (w2\<lparr>w_kernel := k2\<rparr>), b', Some seg') \<and>
             arrived seg p1 p2 seg' \<and> connected b' ip1 p1 ip2 p2
           else tun_adapter_read K2 gai gni b w2 = Inr (register_read (ta_tun b) (w2\<lparr>w_kernel := k2\<rparr>), b, None))))"
proof -
  have cfg: "ac_source (fa_cfg a) = ipv4_address ip1 p1" "ac_destination (fa_cfg a) = ipv4_address ip2 p2"
    using assms(4) by (simp_all add: configured_def)
  obtain dg bl dg' where wrap: "wrap_tcp_in_ip gni (fa_cfg a) seg = Inr dg" "IPv4Datagram_serialize dg = Inr bl"
    and len: "length (concatenate bl) \<le> 65535" "concatenate bl \<noteq> []"
    and got: "IPv4Datagram_parse IPv4Datagram_default (Buffer (concatenate bl)) = Inr (dg', NoError)"
    "if accepts (fa_listen b) (ib, pb) (id', pd) (ip1, p1) (ip2, p2) (seg_header seg)
     then \<exists>b' seg'. unwrap_tcp_in_ip gai gni b dg' = Inr (b', Some seg') \<and> arrived seg p1 p2 seg' \<and> connected b' ip1 p1 ip2 p2
     else unwrap_tcp_in_ip gai gni b dg' = Inr (b, None)"
    by (rule wrap_unwrap [OF assms(1) cfg assms(3,5)])
  have bytes: "concat (BufferViewList_of_BufferList bl) = concatenate bl"
    by (simp add: BufferViewList_of_BufferList_def foldl_snoc_map concatenate_concat)
  have short: "length (concat (BufferViewList_of_BufferList bl)) < U64" using len(1) unfolding bytes by simp
  have reads: "fd_read K2 (ta_tun b) size_max w2 = Inr (register_read (ta_tun b) (w2\<lparr>w_kernel := k2\<rparr>), concatenate bl)"
    if "sys_read K2 (fd_num w2 (ta_tun b)) BUFFER_SIZE (w_kernel w2) = (k2, (int (length (concatenate bl)), 0), concatenate bl)" for k2 and w2 :: "('j, 'n) world_scheme"
    using that len by (simp add: fd_read_def size_max_def BUFFER_SIZE_def SystemCall_def string_resize_def)
  from fd_write_taken [OF assms(2) short, of "ta_tun a" w] show ?thesis
    unfolding bytes tun_adapter_write_def tun_adapter_read_def wrap rbind.simps
    using reads got by (elim disjE exE conjE) (force split: if_splits)+
qed

definition end_1 :: tun_adapter where
  "end_1 = \<lparr>fa_cfg = \<lparr>ac_source = ipv4_address 0x0a000001 1000, ac_destination = ipv4_address 0x0a000002 80, ac_loss_rate_dn = 0, ac_loss_rate_up = 0\<rparr>,
     fa_listen = False, ta_tun = 0\<rparr>"

definition end_2 :: tun_adapter where
  "end_2 = \<lparr>fa_cfg = \<lparr>ac_source = ipv4_address 0 80, ac_destination = ipv4_address 0 0, ac_loss_rate_dn = 0, ac_loss_rate_up = 0\<rparr>,
     fa_listen = True, ta_tun = 0\<rparr>"

definition one_file :: "'k \<Rightarrow> 'k world" where
  "one_file k = \<lparr>w_kernel = k, w_fds = [\<lparr>fd_fd = 3, fd_eof = False, fd_closed = False, fd_read_count = 0, fd_write_count = 0\<rparr>]\<rparr>"

text \<open>The listening end takes the SYN and drops a segment without one.\<close>

theorem tun_adapters_connect_witness:
  "\<exists>w1 w2 b' seg'.
     tun_adapter_write two_bytes_kernel quad_gni end_1 (TCPSegment_default\<lparr>seg_header := TCPHeader_default\<lparr>th_syn := True\<rparr>\<rparr>) (one_file (\<lambda>_. [])) =
       Inr (w1, end_1) \<and>
     tun_adapter_read (two_bytes_kernel\<lparr>sys_read := \<lambda>n limit k. (k, (int (length (k n)), 0), k n)\<rparr>) quad_gai quad_gni end_2
       (one_file (w_kernel w1)) = Inr (register_read 0 (one_file (w_kernel w1)), b', Some seg') \<and>
     th_syn (seg_header seg') \<and> th_sport (seg_header seg') = 1000 \<and> connected b' 0x0a000001 1000 0x0a000002 80 \<and>
     tun_adapter_write two_bytes_kernel quad_gni end_1 TCPSegment_default (one_file (\<lambda>_. [])) = Inr (w2, end_1) \<and>
     tun_adapter_read (two_bytes_kernel\<lparr>sys_read := \<lambda>n limit k. (k, (int (length (k n)), 0), k n)\<rparr>) quad_gai quad_gni end_2
       (one_file (w_kernel w2)) = Inr (register_read 0 (one_file (w_kernel w2)), end_2, None)"
proof -
  let ?seg = "TCPSegment_default\<lparr>seg_header := TCPHeader_default\<lparr>th_syn := True\<rparr>\<rparr>"
  let ?K2 = "two_bytes_kernel\<lparr>sys_read := \<lambda>n limit k. (k, (int (length (k n)), 0), k n)\<rparr>"
  have K: "takes_in_order two_bytes_kernel (\<lambda>k. k)" "\<not> writev_fails two_bytes_kernel"
    by (auto simp: takes_in_order_def writev_fails_def two_bytes_kernel_def min_def take_all)
  have fits: "seg_fits_ip ?seg" "seg_fits_ip TCPSegment_default"
    by (simp_all add: seg_fits_ip_def TCPHeader_default_def TCPHeader_LENGTH_def TCPSegment_default_def)
  have cfg: "configured end_1 0x0a000001 1000 0x0a000002 80" "configured end_2 0 80 0 0"
    by (simp_all add: end_1_def end_2_def configured_def)
  have acc: "accepts (fa_listen end_2) (0, 80) (0, 0) (0x0a000001, 1000) (0x0a000002, 80) (seg_header ?seg)"
    "\<not> accepts (fa_listen end_2) (0, 80) (0, 0) (0x0a000001, 1000) (0x0a000002, 80) (seg_header TCPSegment_default)"
    by (simp_all add: accepts_def end_2_def TCPHeader_default_def TCPSegment_default_def)
  note connects = tun_adapters_connect [where ?'n = unit, OF quad_resolver K(1) _ cfg, of _ "one_file (\<lambda>_. [])" ?K2]
  have fd: "fd_num (one_file k) 0 = 3" "w_kernel (one_file k) = k" "(one_file k)\<lparr>w_kernel := k'\<rparr> = one_file k'" for k k' :: "int \<Rightarrow> bytes"
    by (simp_all add: one_file_def fd_num_def wrapper_def)
  have tun: "ta_tun end_1 = 0" "ta_tun end_2 = 0" by (simp_all add: end_1_def end_2_def)
  from connects [OF fits(1)] K(2) acc(1) obtain w1 bs where 1: "tun_adapter_write two_bytes_kernel quad_gni end_1 ?seg (one_file (\<lambda>_. [])) = Inr (w1, end_1)"
    "w_kernel w1 = (\<lambda>_. [])(3 := bs)" and r1: "\<And>w2 :: (int \<Rightarrow> bytes, unit) world_scheme. \<And>k2. sys_read ?K2 (fd_num w2 0) BUFFER_SIZE (w_kernel w2) = (k2, (int (length bs), 0), bs) \<Longrightarrow>
      \<exists>b' seg'. tun_adapter_read ?K2 quad_gai quad_gni end_2 w2 = Inr (register_read 0 (w2\<lparr>w_kernel := k2\<rparr>), b', Some seg') \<and>
             arrived ?seg 1000 80 seg' \<and> connected b' 0x0a000001 1000 0x0a000002 80"
    unfolding fd tun by (simp only: if_True append_Nil) blast
  from connects [OF fits(2)] K(2) acc(2) obtain w2 cs where 2: "tun_adapter_write two_bytes_kernel quad_gni end_1 TCPSegment_default (one_file (\<lambda>_. [])) = Inr (w2, end_1)"
    "w_kernel w2 = (\<lambda>_. [])(3 := cs)" and r2: "\<And>w :: (int \<Rightarrow> bytes, unit) world_scheme. \<And>k2. sys_read ?K2 (fd_num w 0) BUFFER_SIZE (w_kernel w) = (k2, (int (length cs), 0), cs) \<Longrightarrow>
      tun_adapter_read ?K2 quad_gai quad_gni end_2 w = Inr (register_read 0 (w\<lparr>w_kernel := k2\<rparr>), end_2, None)"
    unfolding fd tun by (simp only: if_False append_Nil) blast
  obtain b' seg' where "tun_adapter_read ?K2 quad_gai quad_gni end_2 (one_file (w_kernel w1)) = Inr (register_read 0 (one_file (w_kernel w1)), b', Some seg')"
    "arrived ?seg 1000 80 seg'" "connected b' 0x0a000001 1000 0x0a000002 80"
    using r1 [of "one_file (w_kernel w1)" "w_kernel w1"] by (auto simp: fd 1(2))
  moreover have "tun_adapter_read ?K2 quad_gai quad_gni end_2 (one_file (w_kernel w2)) = Inr (register_read 0 (one_file (w_kernel w2)), end_2, None)"
    using r2 [of "one_file (w_kernel w2)" "w_kernel w2"] by (auto simp: fd 2(2))
  ultimately show ?thesis using 1(1) 2(1) by (fastforce simp: arrived_def with_ports_def)
qed

end
