(* ===== verification/Event_Loop.thy ===== *)
theory Event_Loop
  imports File_Descriptor "HOL-Library.Sublist"
begin

unbundle bit_operations_syntax

text \<open>
  \<^verbatim>\<open>libsponge/util/eventloop.hh\<close> and \<^verbatim>\<open>.cc\<close>: rules that say which file descriptors to wait for and what to do
  when they are ready.

  A rule's callbacks are functions on the state of the program, which is a \<open>world\<close> with more fields. The
  locale \<open>event_client\<close> is the contract between the loop and the program that uses it: an invariant that
  every callback keeps, and that a callback that is called does something about its event. A program that
  meets it never has the loop complain about a busy wait.
\<close>

section \<open>EventLoop\<close>

definition POLLIN :: u16 where "POLLIN = 1"
definition POLLOUT :: u16 where "POLLOUT = 4"
definition POLLERR :: u16 where "POLLERR = 8"
definition POLLHUP :: u16 where "POLLHUP = 16"
definition POLLNVAL :: u16 where "POLLNVAL = 32"
definition EINTR :: int where "EINTR = 4"

datatype Direction = In | Out

fun direction_events :: "Direction \<Rightarrow> u16" where
  "direction_events In = POLLIN"
| "direction_events Out = POLLOUT"

record ('k, 'm) rule =
  ru_fd :: fd
  ru_direction :: Direction
  ru_callback :: "('k, 'm) world_scheme \<Rightarrow> ('k, 'm) world_scheme res"
  ru_interest :: "('k, 'm) world_scheme \<Rightarrow> bool res"
  ru_cancel :: "('k, 'm) world_scheme \<Rightarrow> ('k, 'm) world_scheme res"

datatype Result = Success | Timeout | Exit

definition service_count :: "('k, 'm) rule \<Rightarrow> ('k, 'm) world_scheme \<Rightarrow> u32" where
  "service_count r w =
     (if ru_direction r = In then fd_read_count (wrapper w (ru_fd r)) else fd_write_count (wrapper w (ru_fd r)))"

definition add_rule :: "('k, 'm) rule list \<Rightarrow> fd \<Rightarrow> Direction \<Rightarrow> (('k, 'm) world_scheme \<Rightarrow> ('k, 'm) world_scheme res) \<Rightarrow>
    (('k, 'm) world_scheme \<Rightarrow> bool res) \<Rightarrow> (('k, 'm) world_scheme \<Rightarrow> ('k, 'm) world_scheme res) \<Rightarrow> ('k, 'm) rule list" where
  "add_rule rules h direction callback interest cancel =
     rules @ [\<lparr>ru_fd = h, ru_direction = direction, ru_callback = callback, ru_interest = interest, ru_cancel = cancel\<rparr>]"

text \<open>The first loop of \<open>wait_next_event\<close>: the rules that are kept, an entry for each, and whether one of them is interested.\<close>

fun poll_setup :: "('k, 'm) rule list \<Rightarrow> ('k, 'm) world_scheme \<Rightarrow> (('k, 'm) world_scheme \<times> ('k, 'm) rule list \<times> pollfd list \<times> bool) res" where
  "poll_setup [] w = Inr (w, [], [], False)"
| "poll_setup (r # rs) w =
     (if ru_direction r = In \<and> fd_eof (wrapper w (ru_fd r)) then rbind (ru_cancel r w) (poll_setup rs)
      else if fd_closed (wrapper w (ru_fd r)) then rbind (ru_cancel r w) (poll_setup rs)
      else rbind (ru_interest r w) (\<lambda>interested.
           rbind (poll_setup rs w) (\<lambda>(w', rs', fds, something_to_poll).
             Inr (w', r # rs',
                  \<lparr>pf_fd = fd_num w (ru_fd r), pf_events = (if interested then direction_events (ru_direction r) else 0), pf_revents = 0\<rparr> # fds,
                  interested \<or> something_to_poll))))"

text \<open>The second loop: what \<open>poll\<close> reported for each rule.\<close>

definition poll_service :: "('k, 'm) rule \<Rightarrow> ('k, 'm) world_scheme \<Rightarrow> ('k, 'm) world_scheme res" where
  "poll_service r w =
     (let count_before = service_count r w
      in rbind (ru_callback r w) (\<lambda>w.
           if count_before = service_count r w
           then rbind (ru_interest r w) (\<lambda>interested.
                  if interested then Inl (RuntimeError ''EventLoop: busy wait detected: callback did not read/write fd and is still interested'')
                  else Inr w)
           else Inr w))"

fun poll_results :: "('k, 'm) rule list \<Rightarrow> pollfd list \<Rightarrow> ('k, 'm) world_scheme \<Rightarrow> (('k, 'm) world_scheme \<times> ('k, 'm) rule list) res" where
  "poll_results [] fds w = Inr (w, [])"
| "poll_results (r # rs) [] w = Inl OutOfBounds"
| "poll_results (r # rs) (p # fds) w =
     (if pf_revents p AND (POLLERR OR POLLNVAL) \<noteq> 0 then Inl (RuntimeError ''EventLoop: error on polled file descriptor'')
      else let poll_ready = (pf_revents p AND pf_events p \<noteq> 0); poll_hup = (pf_revents p AND POLLHUP \<noteq> 0)
           in if poll_hup \<and> pf_events p \<noteq> 0 \<and> \<not> poll_ready then rbind (ru_cancel r w) (poll_results rs fds)
              else rbind (if poll_ready then poll_service r w else Inr w) (\<lambda>w.
                   rbind (poll_results rs fds w) (\<lambda>(w, rs'). Inr (w, r # rs'))))"

definition with_revents :: "pollfd list \<Rightarrow> (nat \<Rightarrow> u16) \<Rightarrow> pollfd list" where
  "with_revents fds revents = map (\<lambda>i. (fds ! i)\<lparr>pf_revents := revents i\<rparr>) [0..<length fds]"

definition wait_next_event :: "'k kernel \<Rightarrow> ('k, 'm) rule list \<Rightarrow> int \<Rightarrow> ('k, 'm) world_scheme \<Rightarrow>
    (Result \<times> ('k, 'm) world_scheme \<times> ('k, 'm) rule list) res" where
  "wait_next_event K rules timeout_ms w =
     rbind (poll_setup rules w) (\<lambda>(w, rules, pollfds, something_to_poll).
       if \<not> something_to_poll then Inr (Exit, w, rules)
       else let (k, r, revents) = sys_poll K pollfds timeout_ms (w_kernel w);
                w = w\<lparr>w_kernel := k\<rparr>;
                results = rbind (poll_results rules (with_revents pollfds revents) w) (\<lambda>(w, rules). Inr (Success, w, rules))
            in case SystemCall ''poll'' r 0 of
                 Inr n \<Rightarrow> if n = 0 then Inr (Timeout, w, rules) else results
               | Inl e \<Rightarrow> if snd r = EINTR then Inr (Exit, w, rules) else results)"

section \<open>Errors that are allowed\<close>

text \<open>\<open>within E m P\<close>: \<open>m\<close> throws an exception of \<open>E\<close>, or returns a value with \<open>P\<close>.\<close>

definition within :: "(cxx_error \<Rightarrow> bool) \<Rightarrow> 'a res \<Rightarrow> ('a \<Rightarrow> bool) \<Rightarrow> bool" where
  "within E m P \<longleftrightarrow> (case m of Inl e \<Rightarrow> E e | Inr x \<Rightarrow> P x)"

lemma within_simps [simp]: "within E (Inr x) P = P x" "within E (Inl e) P = E e"
  by (simp_all add: within_def)

lemma within_bind: "within E m P \<Longrightarrow> (\<And>x. m = Inr x \<Longrightarrow> P x \<Longrightarrow> within E (f x) Q) \<Longrightarrow> within E (rbind m f) Q"
  by (cases m) simp_all

lemma within_mono: "within E m P \<Longrightarrow> (\<And>e. E e \<Longrightarrow> F e) \<Longrightarrow> (\<And>x. m = Inr x \<Longrightarrow> P x \<Longrightarrow> Q x) \<Longrightarrow> within F m Q"
  by (cases m) simp_all

lemma within_conj: "within E m P \<Longrightarrow> within E m Q \<Longrightarrow> within E m (\<lambda>x. P x \<and> Q x)"
  by (cases m) simp_all

lemma within_returns: "returns m P \<Longrightarrow> within E m P"
  by (cases m) simp_all

lemma withinI: "(\<And>e. m = Inl e \<Longrightarrow> E e) \<Longrightarrow> (\<And>x. m = Inr x \<Longrightarrow> P x) \<Longrightarrow> within E m P"
  by (cases m) simp_all

section \<open>Programs that use the loop\<close>

lemma subseq_member: "subseq xs ys \<Longrightarrow> x \<in> set xs \<Longrightarrow> x \<in> set ys"
  by (auto elim: list_emb_set)

text \<open>The contract. \<open>inv rs\<close> is the invariant while the rules \<open>rs\<close> are installed; a rule that is cancelled may change it. \<open>armed r\<close>
  holds when the rule \<open>r\<close> says that it is interested, and until its turn comes. The callbacks throw exceptions
  of \<open>E\<close> at most.\<close>

locale event_client =
  fixes K :: "'k kernel" and rules :: "('k, 'm) rule list" and inv :: "('k, 'm) rule list \<Rightarrow> ('k, 'm) world_scheme \<Rightarrow> bool"
    and armed :: "('k, 'm) rule \<Rightarrow> ('k, 'm) world_scheme \<Rightarrow> bool" and E :: "cxx_error \<Rightarrow> bool"
  assumes interest: "subseq rs rules \<Longrightarrow> r \<in> set rs \<Longrightarrow> inv rs w \<Longrightarrow> \<not> (ru_direction r = In \<and> fd_eof (wrapper w (ru_fd r))) \<Longrightarrow>
        within E (ru_interest r w) (\<lambda>b. b \<longrightarrow> armed r w)"
    and cancel: "subseq (pre @ r # post) rules \<Longrightarrow> inv (pre @ r # post) w \<Longrightarrow> within E (ru_cancel r w) (inv (pre @ post))"
    and callback: "subseq rs rules \<Longrightarrow> r \<in> set rs \<Longrightarrow> inv rs w \<Longrightarrow> armed r w \<Longrightarrow> within E (ru_callback r w) (\<lambda>w'. inv rs w' \<and>
        (service_count r w' = service_count r w \<longrightarrow> within E (ru_interest r w') Not))"
    and undisturbed: "sorted_wrt (\<lambda>a b. (\<forall>rs w w'. inv rs w \<longrightarrow> armed b w \<longrightarrow> ru_cancel a w = Inr w' \<longrightarrow> armed b w') \<and>
        (\<forall>rs w w'. inv rs w \<longrightarrow> armed a w \<longrightarrow> ru_cancel b w = Inr w' \<longrightarrow> armed a w') \<and>
        (\<forall>rs w w'. inv rs w \<longrightarrow> armed a w \<longrightarrow> armed b w \<longrightarrow> ru_callback a w = Inr w' \<longrightarrow> armed b w')) rules"
    and polled: "inv rs w \<Longrightarrow> sys_poll K fds t (w_kernel w) = (k, x) \<Longrightarrow> inv rs (w\<lparr>w_kernel := k\<rparr>)"
    and armed_polled: "armed r (w\<lparr>w_kernel := k\<rparr>) = armed r w"
    and poll_errors: "E (RuntimeError ''EventLoop: error on polled file descriptor'')"
begin

definition calm :: "('k, 'm) rule \<Rightarrow> ('k, 'm) rule \<Rightarrow> bool" where
  "calm a b \<longleftrightarrow> (\<forall>rs w w'. inv rs w \<longrightarrow> armed b w \<longrightarrow> ru_cancel a w = Inr w' \<longrightarrow> armed b w') \<and>
     (\<forall>rs w w'. inv rs w \<longrightarrow> armed a w \<longrightarrow> ru_cancel b w = Inr w' \<longrightarrow> armed a w') \<and>
     (\<forall>rs w w'. inv rs w \<longrightarrow> armed a w \<longrightarrow> armed b w \<longrightarrow> ru_callback a w = Inr w' \<longrightarrow> armed b w')"

definition polled_ok :: "('k, 'm) rule list \<Rightarrow> pollfd list \<Rightarrow> ('k, 'm) world_scheme \<Rightarrow> bool" where
  "polled_ok rs fds w \<longleftrightarrow> list_all2 (\<lambda>r p. pf_events p \<noteq> 0 \<longrightarrow> armed r w) rs fds"

definition untouched :: "('k, 'm) rule \<Rightarrow> ('k, 'm) rule list \<Rightarrow> bool" where
  "untouched a rs \<longleftrightarrow> (\<forall>r \<in> set rs. \<forall>us w w'. inv us w \<longrightarrow> armed a w \<longrightarrow> ru_cancel r w = Inr w' \<longrightarrow> armed a w')"

lemma sub_sorted: "subseq rs xs \<Longrightarrow> sorted_wrt P xs \<Longrightarrow> sorted_wrt P rs"
  by (induction rule: list_emb.induct) (auto dest: list_emb_set)

lemma sub_tail:
  assumes "subseq (pre @ r # rs) rules"
  shows "subseq (pre @ rs) rules" "subseq ((pre @ [r]) @ rs) rules" "\<And>b. b \<in> set rs \<Longrightarrow> calm r b"
proof -
  have "subseq (pre @ rs) (pre @ r # rs)" by (intro list_emb_append_mono) auto
  then show "subseq (pre @ rs) rules" using assms subseq_order.order_trans by blast
  show "subseq ((pre @ [r]) @ rs) rules" using assms by simp
  have "calm = (\<lambda>a b. (\<forall>rs w w'. inv rs w \<longrightarrow> armed b w \<longrightarrow> ru_cancel a w = Inr w' \<longrightarrow> armed b w') \<and>
      (\<forall>rs w w'. inv rs w \<longrightarrow> armed a w \<longrightarrow> ru_cancel b w = Inr w' \<longrightarrow> armed a w') \<and>
      (\<forall>rs w w'. inv rs w \<longrightarrow> armed a w \<longrightarrow> armed b w \<longrightarrow> ru_callback a w = Inr w' \<longrightarrow> armed b w'))"
    unfolding calm_def by (intro ext) (rule refl)
  with undisturbed have "sorted_wrt calm rules" by (simp only:)
  from sub_sorted [OF assms this] show "calm r b" if "b \<in> set rs" for b
    using that by (simp add: sorted_wrt_append)
qed

lemma poll_setup_ok:
  assumes "inv (pre @ rs) w" "subseq (pre @ rs) rules"
  shows "within E (poll_setup rs w) (\<lambda>(w', rs', fds, b). inv (pre @ rs') w' \<and> subseq rs' rs \<and> polled_ok rs' fds w' \<and>
    (\<forall>a. armed a w \<longrightarrow> untouched a rs \<longrightarrow> armed a w'))"
  using assms
proof (induction rs arbitrary: pre w)
  case Nil
  then show ?case by (simp add: polled_ok_def)
next
  case (Cons r rs)
  note r = sub_tail [OF Cons.prems(2)]
  have cancelled: "within E (rbind (ru_cancel r w) (poll_setup rs)) (\<lambda>(w', rs', fds, b). inv (pre @ rs') w' \<and> subseq rs' (r # rs) \<and> polled_ok rs' fds w' \<and>
      (\<forall>a. armed a w \<longrightarrow> untouched a (r # rs) \<longrightarrow> armed a w'))"
  proof (rule within_bind [OF cancel [OF Cons.prems(2,1)]])
    fix w1 assume w1: "ru_cancel r w = Inr w1" "inv (pre @ rs) w1"
    have "armed a w1 \<and> untouched a rs" if "armed a w" "untouched a (r # rs)" for a
      using that w1(1) Cons.prems(1) unfolding untouched_def list.set by blast
    then show "within E (poll_setup rs w1) (\<lambda>(w', rs', fds, b). inv (pre @ rs') w' \<and> subseq rs' (r # rs) \<and> polled_ok rs' fds w' \<and>
      (\<forall>a. armed a w \<longrightarrow> untouched a (r # rs) \<longrightarrow> armed a w'))"
      by (intro within_mono [OF Cons.IH [OF w1(2) r(1)]]) auto
  qed
  have inv: "inv ((pre @ [r]) @ rs) w" using Cons.prems(1) by simp
  have kept: "within E (rbind (poll_setup rs w) (\<lambda>(w', rs', fds, b). Inr (w', r # rs', f b # fds, g b)))
      (\<lambda>(w', rs', fds, b). inv (pre @ rs') w' \<and> subseq rs' (r # rs) \<and> polled_ok rs' fds w' \<and> (\<forall>a. armed a w \<longrightarrow> untouched a (r # rs) \<longrightarrow> armed a w'))"
    if "\<And>b. pf_events (f b) \<noteq> 0 \<Longrightarrow> armed r w" for f g
  proof (rule within_bind [OF Cons.IH [OF inv r(2)]], clarify, goal_cases)
    case (1 w1 rs1 fds b)
    have "untouched r rs" using r(3) unfolding untouched_def calm_def by blast
    then have "pf_events (f b) \<noteq> 0 \<Longrightarrow> armed r w1" using 1 that by blast
    moreover have "untouched a rs" if "untouched a (r # rs)" for a using that unfolding untouched_def list.set by blast
    ultimately show ?case using 1 by (auto simp: polled_ok_def)
  qed
  show ?case
  proof (cases "ru_direction r = In \<and> fd_eof (wrapper w (ru_fd r)) \<or> fd_closed (wrapper w (ru_fd r))")
    case True
    then have "poll_setup (r # rs) w = rbind (ru_cancel r w) (poll_setup rs)" by auto
    then show ?thesis by (simp only: cancelled)
  next
    case False
    have law: "within E (ru_interest r w) (\<lambda>b. b \<longrightarrow> armed r w)"
      using False by (intro interest [OF Cons.prems(2) _ Cons.prems(1)]) auto
    show ?thesis
    proof (cases "ru_interest r w")
      case (Inl e)
      then show ?thesis using False law by auto
    next
      case (Inr b)
      let ?p = "\<lparr>pf_fd = fd_num w (ru_fd r), pf_events = (if b then direction_events (ru_direction r) else 0), pf_revents = 0\<rparr>"
      have "poll_setup (r # rs) w = rbind (poll_setup rs w) (\<lambda>(w', rs', fds, s). Inr (w', r # rs', ?p # fds, b \<or> s))"
        using False Inr by auto
      moreover have "pf_events ?p \<noteq> 0 \<Longrightarrow> armed r w" using Inr law by (auto split: if_splits)
      ultimately show ?thesis using kept [of "\<lambda>_. ?p" "\<lambda>s. b \<or> s"] by simp
    qed
  qed
qed

lemma polled_tail:
  assumes "polled_ok rs fds w" and "\<And>b. b \<in> set rs \<Longrightarrow> armed b w \<Longrightarrow> armed b w'"
  shows "polled_ok rs fds w'"
  using assms unfolding polled_ok_def by (auto simp: list_all2_conv_all_nth)

lemma poll_service_ok:
  assumes r: "subseq rs rules" "r \<in> set rs" and inv: "inv rs w" and armed: "armed r w"
  shows "within E (poll_service r w) (\<lambda>w'. inv rs w' \<and> ru_callback r w = Inr w')"
proof -
  note cb = callback [OF r inv armed]
  show ?thesis
  proof (cases "ru_callback r w")
    case (Inl e)
    with cb show ?thesis by (simp add: poll_service_def)
  next
    case (Inr w')
    with cb have w': "inv rs w'" "service_count r w' = service_count r w \<Longrightarrow> within E (ru_interest r w') Not" by auto
    show ?thesis
      using w' Inr by (cases "ru_interest r w'") (auto simp: poll_service_def)
  qed
qed

lemma poll_results_ok:
  assumes "inv (pre @ rs) w" "subseq (pre @ rs) rules" "polled_ok rs fds w"
  shows "within E (poll_results rs fds w) (\<lambda>(w', rs'). inv (pre @ rs') w' \<and> subseq rs' rs)"
  using assms
proof (induction rs arbitrary: pre fds w)
  case Nil
  then show ?case by simp
next
  case (Cons r rs)
  note r = sub_tail [OF Cons.prems(2)]
  obtain p fds' where fds: "fds = p # fds'" and p: "pf_events p \<noteq> 0 \<Longrightarrow> armed r w" and rest: "polled_ok rs fds' w"
    using Cons.prems(3) by (auto simp: polled_ok_def list_all2_Cons1)
  have cancelled: "within E (rbind (ru_cancel r w) (poll_results rs fds')) (\<lambda>(w', rs'). inv (pre @ rs') w' \<and> subseq rs' (r # rs))"
  proof (rule within_bind [OF cancel [OF Cons.prems(2,1)]])
    fix w1 assume w1: "ru_cancel r w = Inr w1" "inv (pre @ rs) w1"
    have "armed b w1" if "b \<in> set rs" "armed b w" for b
      using r(3) [OF that(1)] that(2) w1(1) Cons.prems(1) unfolding calm_def by blast
    then show "within E (poll_results rs fds' w1) (\<lambda>(w', rs'). inv (pre @ rs') w' \<and> subseq rs' (r # rs))"
      by (intro within_mono [OF Cons.IH [OF w1(2) r(1) polled_tail [OF rest]]]) auto
  qed
  have called: "within E (if ready then poll_service r w else Inr w) (\<lambda>w'. inv ((pre @ [r]) @ rs) w' \<and> (\<forall>b \<in> set rs. armed b w \<longrightarrow> armed b w'))"
    if ready: "ready \<Longrightarrow> armed r w" for ready
  proof (cases ready)
    case True
    have "armed b w'" if "b \<in> set rs" "armed b w" "ru_callback r w = Inr w'" for b w'
      using r(3) [OF that(1)] that(2,3) ready [OF True] Cons.prems(1) unfolding calm_def by blast
    then show ?thesis
      using True by (auto intro!: within_mono [OF poll_service_ok [OF Cons.prems(2) _ Cons.prems(1) ready [OF True]]])
  qed (use Cons.prems in simp)
  have later: "within E (poll_results rs fds' w') (\<lambda>(w', rs'). inv ((pre @ [r]) @ rs') w' \<and> subseq rs' rs)"
    if "inv ((pre @ [r]) @ rs) w'" "\<And>b. b \<in> set rs \<Longrightarrow> armed b w \<Longrightarrow> armed b w'" for w'
    using Cons.IH [OF that(1) r(2) polled_tail [OF rest that(2)]] .
  have kept: "within E (rbind (if ready then poll_service r w else Inr w) (\<lambda>w. rbind (poll_results rs fds' w) (\<lambda>(w, rs'). Inr (w, r # rs'))))
      (\<lambda>(w', rs'). inv (pre @ rs') w' \<and> subseq rs' (r # rs))" if "ready \<Longrightarrow> armed r w" for ready
    by (rule within_bind [OF called [OF that]]) (auto intro!: within_bind [OF later])
  have "pf_revents p AND pf_events p \<noteq> 0 \<Longrightarrow> armed r w" using p by (cases "pf_events p = 0") auto
  then show ?case
    using cancelled kept [of "pf_revents p AND pf_events p \<noteq> 0"] poll_errors by (auto simp: fds Let_def)
qed

lemma with_revents_ok: "polled_ok rs fds w \<Longrightarrow> polled_ok rs (with_revents fds revents) w"
  by (auto simp: polled_ok_def with_revents_def list_all2_conv_all_nth)

lemma wait_ok:
  assumes "inv rs w" "subseq rs rules"
  shows "within E (wait_next_event K rs timeout w) (\<lambda>(res, w', rs'). inv rs' w' \<and> subseq rs' rs)"
  unfolding wait_next_event_def
proof (rule within_bind [OF poll_setup_ok [of "[]" rs w, simplified, OF assms]], clarify)
  fix w1 rs1 fds b
  assume w1: "inv rs1 w1" "subseq rs1 rs" "polled_ok rs1 fds w1"
  obtain k r revents where p: "sys_poll K fds timeout (w_kernel w1) = (k, r, revents)" by (metis prod.exhaust)
  have sub: "subseq rs1 rules" using w1(2) assms(2) subseq_order.order_trans by blast
  have "inv rs1 (w1\<lparr>w_kernel := k\<rparr>)" by (rule polled [OF w1(1) p])
  moreover have "polled_ok rs1 (with_revents fds revents) (w1\<lparr>w_kernel := k\<rparr>)"
    using with_revents_ok [OF w1(3)] armed_polled by (simp add: polled_ok_def)
  ultimately have res: "within E (rbind (poll_results rs1 (with_revents fds revents) (w1\<lparr>w_kernel := k\<rparr>)) (\<lambda>(w, rules). Inr (Success, w, rules)))
      (\<lambda>(res, w', rs'). inv rs' w' \<and> subseq rs' rs)"
    using w1(2) sub by (intro within_bind [OF poll_results_ok [of "[]", simplified]]) (auto intro: subseq_order.order_trans)
  show "within E (if \<not> b then Inr (Exit, w1, rs1)
       else let (k, r, revents) = sys_poll K fds timeout (w_kernel w1); w = w1\<lparr>w_kernel := k\<rparr>;
                results = rbind (poll_results rs1 (with_revents fds revents) w) (\<lambda>(w, rules). Inr (Success, w, rules))
            in case SystemCall ''poll'' r 0 of Inr n \<Rightarrow> if n = 0 then Inr (Timeout, w, rs1) else results
               | Inl e \<Rightarrow> if snd r = EINTR then Inr (Exit, w, rs1) else results)
      (\<lambda>(res, w', rs'). inv rs' w' \<and> subseq rs' rs)"
    using res w1(1,2) polled [OF w1(1) p] by (auto simp: p Let_def split: sum.split)
qed

end

text \<open>A program in which no rule that is cancelled changes what the rules before it are interested in. When the loop
  ends without a signal, no rule is interested in anything any more.\<close>

definition never_interrupted :: "'k kernel \<Rightarrow> bool" where
  "never_interrupted K \<longleftrightarrow> (\<forall>fds t k. fst (fst (snd (sys_poll K fds t k))) < 0 \<longrightarrow> snd (fst (snd (sys_poll K fds t k))) \<noteq> EINTR)"

locale steady_client = event_client +
  assumes steady: "sorted_wrt (\<lambda>a b. \<forall>rs w w'. inv rs w \<longrightarrow> ru_cancel b w = Inr w' \<longrightarrow> ru_interest a w' = ru_interest a w) rules"
begin

lemma setup_steady:
  assumes "poll_setup rs w = Inr (w', rs', fds, b)" and "inv (pre @ rs) w" "subseq (pre @ rs) rules"
    and "\<And>r us u u'. r \<in> set rs \<Longrightarrow> inv us u \<Longrightarrow> ru_cancel r u = Inr u' \<Longrightarrow> ru_interest a u' = ru_interest a u"
  shows "ru_interest a w' = ru_interest a w"
  using assms
proof (induction rs arbitrary: pre w w' rs' fds b)
  case (Cons r rs)
  note r = sub_tail [OF Cons.prems(3)]
  have rest: "ru_interest a u' = ru_interest a u" if "x \<in> set rs" "inv us u" "ru_cancel x u = Inr u'" for x us u u'
    using that(2,3) by (rule Cons.prems(4) [rotated]) (simp add: that(1))
  show ?case
  proof (cases "ru_direction r = In \<and> fd_eof (wrapper w (ru_fd r)) \<or> fd_closed (wrapper w (ru_fd r))")
    case True
    then obtain w1 where w1: "ru_cancel r w = Inr w1" "poll_setup rs w1 = Inr (w', rs', fds, b)"
      using Cons.prems(1) by (auto simp: rbind_Inr_iff split: if_splits)
    have "inv (pre @ rs) w1" using cancel [OF Cons.prems(3,2)] w1(1) by simp
    then have "ru_interest a w' = ru_interest a w1" using Cons.IH [OF w1(2) _ r(1) rest] by simp
    moreover have "ru_interest a w1 = ru_interest a w" by (rule Cons.prems(4) [OF _ Cons.prems(2) w1(1)]) simp
    ultimately show ?thesis by simp
  next
    case False
    then obtain rs1 fds1 b1 where w1: "poll_setup rs w = Inr (w', rs1, fds1, b1)"
      using Cons.prems(1) by (auto simp: rbind_Inr_iff split: if_splits)
    have "inv ((pre @ [r]) @ rs) w" using Cons.prems(2) by simp
    then show ?thesis using Cons.IH [OF w1 _ r(2) rest] by simp
  qed
qed simp

lemma setup_idle:
  assumes "poll_setup rs w = Inr (w', rs', fds, False)" and "inv (pre @ rs) w" "subseq (pre @ rs) rules" "r \<in> set rs'"
  shows "ru_interest r w' = Inr False"
  using assms
proof (induction rs arbitrary: pre w w' rs' fds)
  case (Cons a rs)
  note sub = sub_tail [OF Cons.prems(3)]
  show ?case
  proof (cases "ru_direction a = In \<and> fd_eof (wrapper w (ru_fd a)) \<or> fd_closed (wrapper w (ru_fd a))")
    case True
    then obtain w1 where w1: "ru_cancel a w = Inr w1" "poll_setup rs w1 = Inr (w', rs', fds, False)"
      using Cons.prems(1) by (auto simp: rbind_Inr_iff split: if_splits)
    have "inv (pre @ rs) w1" using cancel [OF Cons.prems(3,2)] w1(1) by simp
    from Cons.IH [OF w1(2) this sub(1) Cons.prems(4)] show ?thesis .
  next
    case False
    then obtain rs1 fds1 where w1: "ru_interest a w = Inr False" "poll_setup rs w = Inr (w', rs1, fds1, False)" "rs' = a # rs1"
      using Cons.prems(1) by (auto simp: rbind_Inr_iff split: if_splits)
    have inv: "inv ((pre @ [a]) @ rs) w" using Cons.prems(2) by simp
    have rest: "ru_interest a u' = ru_interest a u" if "x \<in> set rs" "inv us u" "ru_cancel x u = Inr u'" for x us u u'
      using sub_sorted [OF Cons.prems(3) steady] that unfolding sorted_wrt_append sorted_wrt.simps by blast
    have "ru_interest a w' = Inr False" using setup_steady [OF w1(2) inv sub(2) rest] w1(1) by simp
    then show ?thesis using Cons.IH [OF w1(2) inv sub(2)] Cons.prems(4) w1(3) by auto
  qed
qed simp

lemma wait_idle:
  assumes "wait_next_event K rs timeout w = Inr (Exit, w', rs')" and "inv rs w" "subseq rs rules" "never_interrupted K" "r \<in> set rs'"
  shows "ru_interest r w' = Inr False"
proof -
  obtain w1 rs1 fds b where p: "poll_setup rs w = Inr (w1, rs1, fds, b)"
    using assms(1) by (cases "poll_setup rs w") (auto simp: wait_next_event_def)
  obtain k c e revents where s: "sys_poll K fds timeout (w_kernel w1) = (k, (c, e), revents)" by (metis prod.exhaust)
  have "c < 0 \<Longrightarrow> e \<noteq> EINTR" using assms(4) s unfolding never_interrupted_def by (metis fst_conv snd_conv)
  then have "\<not> b" "w' = w1" "rs' = rs1"
    using assms(1) by (auto simp: wait_next_event_def p s SystemCall_def Let_def rbind_Inr_iff split: if_splits)
  then show ?thesis using setup_idle [of rs w w1 rs1 fds "[]" r] p assms by simp
qed

end

section \<open>Properties\<close>

lemma poll_results_silent: "length rs \<le> length fds \<Longrightarrow> poll_results rs (with_revents fds (\<lambda>_. 0)) w = Inr (w, rs)"
proof -
  have *: "length rs \<le> length fds \<Longrightarrow> poll_results rs (map (\<lambda>p. p\<lparr>pf_revents := 0\<rparr>) fds) w = Inr (w, rs)"
  proof (induction rs arbitrary: fds)
    case (Cons r rs)
    then show ?case by (cases fds) (simp_all add: Let_def)
  qed simp
  have "with_revents fds (\<lambda>_. 0) = map (\<lambda>p. p\<lparr>pf_revents := 0\<rparr>) fds"
    by (rule nth_equalityI) (simp_all add: with_revents_def)
  then show "length rs \<le> length fds \<Longrightarrow> poll_results rs (with_revents fds (\<lambda>_. 0)) w = Inr (w, rs)"
    using * by simp
qed

lemma poll_setup_length: "poll_setup rs w = Inr (w', rs', fds, b) \<Longrightarrow> length fds = length rs'"
  by (induction rs arbitrary: w w' rs' fds b) (fastforce simp: rbind_Inr_iff split: if_splits)+

text \<open>C36: When \<open>poll\<close> fails with another error than an interruption, \<open>wait_next_event\<close> does not throw, as its
  documentation says: it reports \<open>Success\<close> although nothing was waited for and no callback was
  called.\<close>

theorem poll_failure_ignored:
  assumes "poll_setup rules w = Inr (w1, rules1, fds, True)"
    and "sys_poll K fds timeout (w_kernel w1) = (k, (- 1, errno), \<lambda>_. 0)" and "errno \<noteq> EINTR" and "errno \<noteq> 0"
  shows "wait_next_event K rules timeout w = Inr (Success, w1\<lparr>w_kernel := k\<rparr>, rules1)"
  using assms poll_results_silent [of rules1 fds] poll_setup_length [OF assms(1)]
  by (simp add: wait_next_event_def SystemCall_def)

theorem poll_failure_ignored_witness:
  "wait_next_event (two_bytes_kernel\<lparr>sys_poll := \<lambda>fds t k. (k, (- 1, 22), \<lambda>_. 0)\<rparr>)
     [\<lparr>ru_fd = 0, ru_direction = In, ru_callback = \<lambda>_. Inl NonTermination, ru_interest = \<lambda>_. Inr True, ru_cancel = Inr\<rparr>] 10
     \<lparr>w_kernel = \<lambda>_. [], w_fds = [\<lparr>fd_fd = 7, fd_eof = False, fd_closed = False, fd_read_count = 0, fd_write_count = 0\<rparr>]\<rparr> =
   Inr (Success, \<lparr>w_kernel = \<lambda>_. [], w_fds = [\<lparr>fd_fd = 7, fd_eof = False, fd_closed = False, fd_read_count = 0, fd_write_count = 0\<rparr>]\<rparr>,
     [\<lparr>ru_fd = 0, ru_direction = In, ru_callback = \<lambda>_. Inl NonTermination, ru_interest = \<lambda>_. Inr True, ru_cancel = Inr\<rparr>])"
proof -
  let ?w = "\<lparr>w_kernel = \<lambda>_. [], w_fds = [\<lparr>fd_fd = 7, fd_eof = False, fd_closed = False, fd_read_count = 0, fd_write_count = 0\<rparr>]\<rparr>"
  let ?r = "\<lparr>ru_fd = 0, ru_direction = In, ru_callback = \<lambda>_. Inl NonTermination, ru_interest = \<lambda>_. Inr True, ru_cancel = Inr\<rparr>"
  have "wait_next_event (two_bytes_kernel\<lparr>sys_poll := \<lambda>fds t k. (k, (- 1, 22), \<lambda>_. 0)\<rparr>) [?r] 10 ?w =
      Inr (Success, ?w\<lparr>w_kernel := w_kernel ?w\<rparr>, [?r])"
    by (rule poll_failure_ignored [where errno = 22]) (simp_all add: wrapper_def EINTR_def)
  then show ?thesis by simp
qed

end
