(* ===== verification/Sponge_Socket.thy ===== *)
theory Sponge_Socket
  imports FD_Adapters Event_Loop TCP_Connection
begin

unbundle bit_operations_syntax

text \<open>
  \<^verbatim>\<open>libsponge/tcp_helpers/tcp_sponge_socket.hh\<close> and \<^verbatim>\<open>.cc\<close>: a socket whose TCP connection runs in an event loop of
  its own, between a pair of connected local sockets and a datagram adapter.

  The state of the socket extends the \<open>world\<close> of descriptors. The rules of the event loop are functions on
  it; the adapter class is the argument \<open>A\<close>. The loop runs in a thread; it is a function with the number of turns
  as an argument, and what is shown holds for every number. The flag \<open>_abort\<close>, which the owner of the socket may
  set at any time, is a part of the state.
\<close>

section \<open>TCPSpongeSocket\<close>

record ('k, 'a) sponge_socket = "'k world" +
  sp_socket :: fd
  sp_thread_data :: fd
  sp_adapter :: 'a
  sp_tcp :: "tcp_connection option"
  sp_abort :: bool
  sp_inbound_shutdown :: bool
  sp_outbound_shutdown :: bool
  sp_fully_acked :: bool

type_synonym ('k, 'a) sponge_adapter = "('k, ('a, unit) sponge_socket_ext, 'a) adapter"
type_synonym ('k, 'a) sponge_rule = "('k, ('a, unit) sponge_socket_ext) rule"

definition TCP_TICK_MS :: int where
  "TCP_TICK_MS = 10"

definition the_tcp :: "('k, 'a) sponge_socket \<Rightarrow> tcp_connection res" where
  "the_tcp s = (case sp_tcp s of Some c \<Rightarrow> Inr c | None \<Rightarrow> Inl BadOptional)"

definition peer_text :: "getnameinfo_fn \<Rightarrow> ('k, 'a) sponge_adapter \<Rightarrow> ('k, 'a) sponge_socket \<Rightarrow> string res" where
  "peer_text gni A s = addr_to_string gni (ac_destination (ad_config A (sp_adapter s)))"

subsection \<open>Rule 1: from the adapter to the connection\<close>

definition rule1_callback :: "getnameinfo_fn \<Rightarrow> ('k, 'a) sponge_adapter \<Rightarrow> ('k, 'a) sponge_socket \<Rightarrow> ('k, 'a) sponge_socket res" where
  "rule1_callback gni A s =
     rbind (ad_read A (sp_adapter s) s) (\<lambda>(s, a, seg).
       let s = s\<lparr>sp_adapter := a\<rparr>
       in rbind (case seg of
                   None \<Rightarrow> Inr s
                 | Some seg \<Rightarrow> rbind (the_tcp s) (\<lambda>c.
                     rbind (TCPConnection_segment_received c seg) (\<lambda>c. Inr (s\<lparr>sp_tcp := Some c\<rparr>)))) (\<lambda>s.
          if \<not> fd_eof (wrapper s (sp_thread_data s)) then Inr s
          else rbind (the_tcp s) (\<lambda>c.
               if TCPConnection_bytes_in_flight c = 0 \<and> \<not> sp_fully_acked s
               then rbind (peer_text gni A s) (\<lambda>_. Inr (s\<lparr>sp_fully_acked := True\<rparr>))
               else Inr s)))"

definition rule1_interest :: "('k, 'a) sponge_socket \<Rightarrow> bool res" where
  "rule1_interest s = rbind (the_tcp s) (\<lambda>c. Inr (conn_active c))"

subsection \<open>Rule 2: from the application to the connection\<close>

definition rule2_callback :: "'k kernel \<Rightarrow> getnameinfo_fn \<Rightarrow> ('k, 'a) sponge_adapter \<Rightarrow> ('k, 'a) sponge_socket \<Rightarrow> ('k, 'a) sponge_socket res" where
  "rule2_callback K gni A s =
     rbind (the_tcp s) (\<lambda>c.
     rbind (fd_read K (sp_thread_data s) (remaining_outbound_capacity c) s) (\<lambda>(s, data).
     rbind (TCPConnection_write c data) (\<lambda>(c, amount_written).
       let s = s\<lparr>sp_tcp := Some c\<rparr>
       in if amount_written \<noteq> length data
          then Inl (RuntimeError ''TCPConnection::write() accepted less than advertised length'')
          else if fd_eof (wrapper s (sp_thread_data s))
          then rbind (end_input_stream c) (\<lambda>c.
                 let s = s\<lparr>sp_tcp := Some c, sp_outbound_shutdown := True\<rparr>
                 in rbind (peer_text gni A s) (\<lambda>_. Inr s))
          else Inr s)))"

definition rule2_interest :: "('k, 'a) sponge_socket \<Rightarrow> bool res" where
  "rule2_interest s = rbind (the_tcp s) (\<lambda>c.
     Inr (conn_active c \<and> \<not> sp_outbound_shutdown s \<and> remaining_outbound_capacity c > 0))"

definition rule2_cancel :: "('k, 'a) sponge_socket \<Rightarrow> ('k, 'a) sponge_socket res" where
  "rule2_cancel s = rbind (the_tcp s) (\<lambda>c. rbind (end_input_stream c) (\<lambda>c.
     Inr (s\<lparr>sp_tcp := Some c, sp_outbound_shutdown := True\<rparr>)))"

subsection \<open>Rule 3: from the connection to the application\<close>

definition set_inbound :: "byte_stream \<Rightarrow> tcp_connection \<Rightarrow> tcp_connection" where
  "set_inbound out c = c\<lparr>conn_receiver := (conn_receiver c)\<lparr>rcv_reassembler := (rcv_reassembler (conn_receiver c))\<lparr>sr_output := out\<rparr>\<rparr>\<rparr>"

definition rule3_callback :: "'k kernel \<Rightarrow> getnameinfo_fn \<Rightarrow> ('k, 'a) sponge_adapter \<Rightarrow> ('k, 'a) sponge_socket \<Rightarrow> ('k, 'a) sponge_socket res" where
  "rule3_callback K gni A s =
     rbind (the_tcp s) (\<lambda>c.
       let inbound = inbound_stream c;
           amount_to_write = min 65536 (buffer_size inbound)
       in rbind (peek_output inbound amount_to_write) (\<lambda>buffer.
          rbind (fd_write K (sp_thread_data s) (BufferViewList_of_view buffer) False s) (\<lambda>(s, bytes_written).
          rbind (pop_output inbound bytes_written) (\<lambda>inbound.
            let s = s\<lparr>sp_tcp := Some (set_inbound inbound c)\<rparr>
            in if ByteStream_eof inbound \<or> bs_error inbound
               then rbind (socket_shutdown K (sp_thread_data s) SHUT_WR s) (\<lambda>s.
                      let s = s\<lparr>sp_inbound_shutdown := True\<rparr>
                      in rbind (peer_text gni A s) (\<lambda>_. Inr s))
               else Inr s))))"

definition rule3_interest :: "('k, 'a) sponge_socket \<Rightarrow> bool res" where
  "rule3_interest s = rbind (the_tcp s) (\<lambda>c.
     Inr (\<not> buffer_empty (inbound_stream c) \<or>
       ((ByteStream_eof (inbound_stream c) \<or> bs_error (inbound_stream c)) \<and> \<not> sp_inbound_shutdown s)))"

subsection \<open>Rule 4: from the connection to the adapter\<close>

fun write_segments :: "('k, 'a) sponge_adapter \<Rightarrow> TCPSegment list \<Rightarrow> ('k, 'a) sponge_socket \<Rightarrow> ('k, 'a) sponge_socket res" where
  "write_segments A [] s = Inr s"
| "write_segments A (seg # segs) s =
     rbind (ad_write A (sp_adapter s) seg s) (\<lambda>(s, a). write_segments A segs (s\<lparr>sp_adapter := a\<rparr>))"

definition rule4_callback :: "('k, 'a) sponge_adapter \<Rightarrow> ('k, 'a) sponge_socket \<Rightarrow> ('k, 'a) sponge_socket res" where
  "rule4_callback A s =
     rbind (the_tcp s) (\<lambda>c.
     rbind (write_segments A (conn_segments_out c) s) (\<lambda>s. Inr (s\<lparr>sp_tcp := Some (c\<lparr>conn_segments_out := []\<rparr>)\<rparr>)))"

definition rule4_interest :: "('k, 'a) sponge_socket \<Rightarrow> bool res" where
  "rule4_interest s = rbind (the_tcp s) (\<lambda>c. Inr (conn_segments_out c \<noteq> []))"

subsection \<open>The event loop\<close>

definition sponge_rules :: "'k kernel \<Rightarrow> getnameinfo_fn \<Rightarrow> ('k, 'a) sponge_adapter \<Rightarrow> fd \<Rightarrow> fd \<Rightarrow> ('k, 'a) sponge_rule list" where
  "sponge_rules K gni A adapter_fd thread_data =
     (let rules = add_rule [] adapter_fd In (rule1_callback gni A) rule1_interest Inr;
          rules = add_rule rules thread_data In (rule2_callback K gni A) rule2_interest rule2_cancel;
          rules = add_rule rules thread_data Out (rule3_callback K gni A) rule3_interest Inr
      in add_rule rules adapter_fd Out (rule4_callback A) rule4_interest Inr)"

definition initialize_TCP :: "'k kernel \<Rightarrow> getnameinfo_fn \<Rightarrow> ('k, 'a) sponge_adapter \<Rightarrow> u32 \<Rightarrow> TCPConfig \<Rightarrow> ('k, 'a) sponge_socket \<Rightarrow>
    ('k, 'a) sponge_socket \<times> ('k, 'a) sponge_rule list" where
  "initialize_TCP K gni A random_value config s =
     (s\<lparr>sp_tcp := Some (TCPConnection random_value config)\<rparr>, sponge_rules K gni A (ad_fd A (sp_adapter s)) (sp_thread_data s))"

text \<open>\<open>timestamp_ms\<close> is the time of the kernel's clock.\<close>

definition timestamp_ms :: "'k kernel \<Rightarrow> ('k, 'm) world_scheme \<Rightarrow> ('k, 'm) world_scheme \<times> u64" where
  "timestamp_ms K w = (let (k, t) = sys_clock K (w_kernel w) in (w\<lparr>w_kernel := k\<rparr>, t))"

definition tick_both :: "'k kernel \<Rightarrow> ('k, 'a) sponge_adapter \<Rightarrow> u64 \<Rightarrow> ('k, 'a) sponge_socket \<Rightarrow> (('k, 'a) sponge_socket \<times> u64) res" where
  "tick_both K A base_time s =
     rbind (the_tcp s) (\<lambda>c.
       if \<not> conn_active c then Inr (s, base_time)
       else let (s, next_time) = timestamp_ms K s
            in rbind (TCPConnection_tick c (u64_sub next_time base_time)) (\<lambda>c.
               let s = s\<lparr>sp_tcp := Some c\<rparr>
               in rbind (ad_tick A (sp_adapter s) (u64_sub next_time base_time) s) (\<lambda>(s, a). Inr (s\<lparr>sp_adapter := a\<rparr>, next_time))))"

text \<open>\<open>tcp_turns n\<close>: at most \<open>n\<close> turns of the loop. The last component says whether the loop has ended.\<close>

fun tcp_turns :: "nat \<Rightarrow> 'k kernel \<Rightarrow> ('k, 'a) sponge_adapter \<Rightarrow> (('k, 'a) sponge_socket \<Rightarrow> bool res) \<Rightarrow> ('k, 'a) sponge_rule list \<Rightarrow> u64 \<Rightarrow>
    ('k, 'a) sponge_socket \<Rightarrow> (('k, 'a) sponge_socket \<times> ('k, 'a) sponge_rule list \<times> bool) res" where
  "tcp_turns 0 K A condition rules base_time s = Inr (s, rules, False)"
| "tcp_turns (Suc n) K A condition rules base_time s =
     rbind (condition s) (\<lambda>continue.
       if \<not> continue then Inr (s, rules, True)
       else rbind (wait_next_event K rules TCP_TICK_MS s) (\<lambda>(ret, s, rules).
            if ret = Exit \<or> sp_abort s then Inr (s, rules, True)
            else rbind (tick_both K A base_time s) (\<lambda>(s, base_time). tcp_turns n K A condition rules base_time s)))"

definition tcp_loop :: "nat \<Rightarrow> 'k kernel \<Rightarrow> ('k, 'a) sponge_adapter \<Rightarrow> (('k, 'a) sponge_socket \<Rightarrow> bool res) \<Rightarrow> ('k, 'a) sponge_rule list \<Rightarrow>
    ('k, 'a) sponge_socket \<Rightarrow> (('k, 'a) sponge_socket \<times> ('k, 'a) sponge_rule list \<times> bool) res" where
  "tcp_loop turns K A condition rules s =
     (let (s, base_time) = timestamp_ms K s in tcp_turns turns K A condition rules base_time s)"

subsection \<open>Connecting, listening, and closing\<close>

definition in_state :: "State \<Rightarrow> ('k, 'a) sponge_socket \<Rightarrow> bool res" where
  "in_state st s = rbind (the_tcp s) (\<lambda>c. Inr (TCPState_eq (conn_state c) (TCPState_of st)))"

definition sponge_connect :: "nat \<Rightarrow> 'k kernel \<Rightarrow> getnameinfo_fn \<Rightarrow> ('k, 'a) sponge_adapter \<Rightarrow> u32 \<Rightarrow> TCPConfig \<Rightarrow> FdAdapterConfig \<Rightarrow>
    ('k, 'a) sponge_socket \<Rightarrow> (('k, 'a) sponge_socket \<times> ('k, 'a) sponge_rule list \<times> bool) res" where
  "sponge_connect turns K gni A random_value c_tcp c_ad s =
     (if sp_tcp s \<noteq> None then Inl (RuntimeError ''connect() with TCPConnection already initialized'')
      else let (s, rules) = initialize_TCP K gni A random_value c_tcp s;
               s = s\<lparr>sp_adapter := ad_set_config A c_ad (sp_adapter s)\<rparr>
           in rbind (addr_to_string gni (ac_destination c_ad)) (\<lambda>_.
              rbind (the_tcp s) (\<lambda>c.
              rbind (conn_connect c) (\<lambda>c.
                let s = s\<lparr>sp_tcp := Some c\<rparr>
                in if \<not> TCPState_eq (conn_state c) (TCPState_of SYN_SENT)
                   then Inl (RuntimeError (''After TCPConnection::connect(), state was '' @ TCPState_name (conn_state c) @
                          '' but expected '' @ TCPState_name (TCPState_of SYN_SENT)))
                   else rbind (tcp_loop turns K A (in_state SYN_SENT) rules s) (\<lambda>(s, rules, ended).
                        if \<not> ended then Inr (s, rules, False)
                        else rbind (addr_to_string gni (ac_destination c_ad)) (\<lambda>_. Inr (s, rules, True)))))))"

definition accepting :: "('k, 'a) sponge_socket \<Rightarrow> bool res" where
  "accepting s =
     rbind (in_state LISTEN s) (\<lambda>listen. rbind (in_state SYN_RCVD s) (\<lambda>syn_rcvd. rbind (in_state SYN_SENT s) (\<lambda>syn_sent.
       Inr (listen \<or> syn_rcvd \<or> syn_sent))))"

definition listen_and_accept :: "nat \<Rightarrow> 'k kernel \<Rightarrow> getnameinfo_fn \<Rightarrow> ('k, 'a) sponge_adapter \<Rightarrow> u32 \<Rightarrow> TCPConfig \<Rightarrow> FdAdapterConfig \<Rightarrow>
    ('k, 'a) sponge_socket \<Rightarrow> (('k, 'a) sponge_socket \<times> ('k, 'a) sponge_rule list \<times> bool) res" where
  "listen_and_accept turns K gni A random_value c_tcp c_ad s =
     (if sp_tcp s \<noteq> None then Inl (RuntimeError ''listen_and_accept() with TCPConnection already initialized'')
      else let (s, rules) = initialize_TCP K gni A random_value c_tcp s;
               s = s\<lparr>sp_adapter := ad_set_listening A True (ad_set_config A c_ad (sp_adapter s))\<rparr>
           in rbind (tcp_loop turns K A accepting rules s) (\<lambda>(s, rules, ended).
              if \<not> ended then Inr (s, rules, False)
              else rbind (peer_text gni A s) (\<lambda>_. Inr (s, rules, True))))"

definition tcp_main :: "nat \<Rightarrow> 'k kernel \<Rightarrow> ('k, 'a) sponge_adapter \<Rightarrow> ('k, 'a) sponge_rule list \<Rightarrow>
    ('k, 'a) sponge_socket \<Rightarrow> (('k, 'a) sponge_socket \<times> ('k, 'a) sponge_rule list \<times> bool) res" where
  "tcp_main turns K A rules s =
     (if sp_tcp s = None then Inl (RuntimeError ''no TCP'')
      else rbind (tcp_loop turns K A (\<lambda>_. Inr True) rules s) (\<lambda>(s, rules, ended).
           if \<not> ended then Inr (s, rules, False)
           else rbind (socket_shutdown K (sp_socket s) SHUT_RDWR s) (\<lambda>s.
                rbind (the_tcp s) (\<lambda>_. Inr (s\<lparr>sp_tcp := None\<rparr>, rules, True)))))"

definition TCPSpongeSocket :: "'k kernel \<Rightarrow> fd \<times> fd \<Rightarrow> 'a \<Rightarrow> 'k world \<Rightarrow> ('k, 'a) sponge_socket res" where
  "TCPSpongeSocket K data_socket_pair datagram_interface w =
     rbind (LocalStreamSocket K (fst data_socket_pair) w) (\<lambda>w.
     rbind (LocalStreamSocket K (snd data_socket_pair) w) (\<lambda>w.
     rbind (set_blocking K (snd data_socket_pair) False w) (\<lambda>w.
       Inr \<lparr>w_kernel = w_kernel w, w_fds = w_fds w, sp_socket = fst data_socket_pair, sp_thread_data = snd data_socket_pair,
            sp_adapter = datagram_interface, sp_tcp = None, sp_abort = False, sp_inbound_shutdown = False,
            sp_outbound_shutdown = False, sp_fully_acked = False\<rparr>)))"

definition socket_pair_helper :: "'k kernel \<Rightarrow> int \<Rightarrow> 'k world \<Rightarrow> ('k world \<times> fd \<times> fd) res" where
  "socket_pair_helper K type w =
     (let (k, r, fd0, fd1) = sys_socketpair K AF_UNIX type (w_kernel w)
      in rbind (SystemCall ''socketpair'' r 0) (\<lambda>_.
         rbind (FileDescriptor fd0 (w\<lparr>w_kernel := k\<rparr>)) (\<lambda>(w, h0).
         rbind (FileDescriptor fd1 w) (\<lambda>(w, h1). Inr (w, h0, h1)))))"

definition TCPSpongeSocket_new :: "'k kernel \<Rightarrow> 'a \<Rightarrow> 'k world \<Rightarrow> ('k, 'a) sponge_socket res" where
  "TCPSpongeSocket_new K datagram_interface w =
     rbind (socket_pair_helper K SOCK_STREAM w) (\<lambda>(w, pair). TCPSpongeSocket K pair datagram_interface w)"

text \<open>\<open>wait_until_closed\<close> and the destructor then wait for the thread, which goes on with the state they leave.\<close>

definition wait_until_closed :: "'k kernel \<Rightarrow> ('k, 'a) sponge_socket \<Rightarrow> ('k, 'a) sponge_socket res" where
  "wait_until_closed K s = socket_shutdown K (sp_socket s) SHUT_RDWR s"

definition sponge_destroy :: "bool \<Rightarrow> ('k, 'a) sponge_socket \<Rightarrow> ('k, 'a) sponge_socket" where
  "sponge_destroy joinable s = (if joinable then s\<lparr>sp_abort := True\<rparr> else s)"

section \<open>CS144TCPSocket and FullStackSocket\<close>

definition CS144TCPSocket :: "'k kernel \<Rightarrow> getaddrinfo_fn \<Rightarrow> 'k world \<Rightarrow> ('k, tun_adapter) sponge_socket res" where
  "CS144TCPSocket K gai w =
     rbind (TunFD K ''tun144'' w) (\<lambda>(w, tun).
     rbind (TCPOverIPv4OverTunFdAdapter gai tun) (\<lambda>a. TCPSpongeSocket_new K a w))"

definition CS144TCPSocket_connect :: "nat \<Rightarrow> 'k kernel \<Rightarrow> getaddrinfo_fn \<Rightarrow> getnameinfo_fn \<Rightarrow> u32 \<Rightarrow> u32 \<Rightarrow> Address \<Rightarrow>
    ('k, tun_adapter) sponge_socket \<Rightarrow> (('k, tun_adapter) sponge_socket \<times> ('k, tun_adapter) sponge_rule list \<times> bool) res" where
  "CS144TCPSocket_connect turns K gai gni random_port random_value address s =
     (let tcp_config = TCPConfig_default\<lparr>cfg_rt_timeout := 100\<rparr>
      in rbind (FdAdapterConfig_default gai) (\<lambda>multiplexer_config.
         rbind (Address_hostname gai ''169.254.144.9'' (to_string (unat (ucast random_port :: u16)))) (\<lambda>source.
           let multiplexer_config = multiplexer_config\<lparr>ac_source := source, ac_destination := address\<rparr>
           in sponge_connect turns K gni (tun_class K gai gni) random_value tcp_config multiplexer_config s)))"

definition LOCAL_TAP_IP_ADDRESS :: string where
  "LOCAL_TAP_IP_ADDRESS = ''169.254.10.9''"

definition LOCAL_TAP_NEXT_HOP_ADDRESS :: string where
  "LOCAL_TAP_NEXT_HOP_ADDRESS = ''169.254.10.1''"

definition random_private_ethernet_address :: "(nat \<Rightarrow> u32) \<Rightarrow> EthernetAddress" where
  "random_private_ethernet_address random_device =
     (let addr = map (\<lambda>i. ucast (random_device i) :: u8) [0..<6];
          addr = addr[0 := (addr ! 0) OR 0x02]
      in addr[0 := (addr ! 0) AND 0xfe])"

definition FullStackSocket :: "'k kernel \<Rightarrow> getaddrinfo_fn \<Rightarrow> getnameinfo_fn \<Rightarrow> (nat \<Rightarrow> u32) \<Rightarrow> 'k world \<Rightarrow> ('k, ethernet_adapter) sponge_socket res" where
  "FullStackSocket K gai gni random_device w =
     rbind (TapFD K ''tap10'' w) (\<lambda>(w, tap).
     rbind (Address_hostname gai LOCAL_TAP_IP_ADDRESS ''0'') (\<lambda>ip_address.
     rbind (Address_hostname gai LOCAL_TAP_NEXT_HOP_ADDRESS ''0'') (\<lambda>next_hop.
     rbind (TCPOverIPv4OverEthernetAdapter K gai gni tap (random_private_ethernet_address random_device) ip_address next_hop w) (\<lambda>(w, a).
       TCPSpongeSocket_new K a w))))"

definition FullStackSocket_connect :: "nat \<Rightarrow> 'k kernel \<Rightarrow> getaddrinfo_fn \<Rightarrow> getnameinfo_fn \<Rightarrow> u32 \<Rightarrow> u32 \<Rightarrow> Address \<Rightarrow>
    ('k, ethernet_adapter) sponge_socket \<Rightarrow> (('k, ethernet_adapter) sponge_socket \<times> ('k, ethernet_adapter) sponge_rule list \<times> bool) res" where
  "FullStackSocket_connect turns K gai gni random_port random_value address s =
     (let tcp_config = TCPConfig_default\<lparr>cfg_rt_timeout := 100\<rparr>
      in rbind (FdAdapterConfig_default gai) (\<lambda>multiplexer_config.
         rbind (Address_hostname gai LOCAL_TAP_IP_ADDRESS (to_string (unat (ucast random_port :: u16)))) (\<lambda>source.
           let multiplexer_config = multiplexer_config\<lparr>ac_source := source, ac_destination := address\<rparr>
           in sponge_connect turns K gni (ethernet_class K gai gni) random_value tcp_config multiplexer_config s)))"

end
