(* ===== verification/Stream_Files.thy ===== *)
theory Stream_Files
  imports Net_Socket Event_Loop
begin

unbundle bit_operations_syntax

text \<open>
  What programs rely on when they use a file descriptor as a stream of bytes in each direction. A kernel
  and the bytes read from and written to each of its files are the argument of \<open>stream_files\<close>, which states the
  documented behaviour of the system calls: \<open>read\<close> returns the next bytes, at most as many as were asked for, and
  \<open>writev\<close> takes a part of its argument from the front. The operations on descriptors then add exactly the
  bytes they return or report, and throw only when a system call fails.
\<close>

section \<open>Files that are streams\<close>

text \<open>\<open>f_stream\<close> are the numbers of the files, and \<open>f_ok\<close> the states that the kernel stays in.\<close>

record 'k files =
  f_stream :: "int \<Rightarrow> bool"
  f_ok :: "'k \<Rightarrow> bool"
  f_read :: "'k \<Rightarrow> int \<Rightarrow> bytes"
  f_written :: "'k \<Rightarrow> int \<Rightarrow> bytes"

definition same_files :: "('k, 'm) files_scheme \<Rightarrow> 'k \<Rightarrow> 'k \<Rightarrow> bool" where
  "same_files F k k' \<longleftrightarrow> f_ok F k' \<and> f_read F k' = f_read F k \<and> f_written F k' = f_written F k"

definition reads_files :: "'k kernel \<Rightarrow> ('k, 'm) files_scheme \<Rightarrow> bool" where
  "reads_files K F \<longleftrightarrow> (\<forall>n m k k' r e str. f_stream F n \<longrightarrow> f_ok F k \<longrightarrow> sys_read K n m k = (k', (r, e), str) \<longrightarrow>
     f_ok F k' \<and> f_written F k' = f_written F k \<and> (r < 0 \<longrightarrow> e \<noteq> 0) \<and>
     (0 \<le> r \<longrightarrow> nat r \<le> m \<and> nat r \<le> length str \<and> f_read F k' = (f_read F k)(n := f_read F k n @ take (nat r) str)))"

definition writes_files :: "'k kernel \<Rightarrow> ('k, 'm) files_scheme \<Rightarrow> bool" where
  "writes_files K F \<longleftrightarrow> (\<forall>n vs k k' r e. f_stream F n \<longrightarrow> f_ok F k \<longrightarrow> sys_writev K n vs k = (k', (r, e)) \<longrightarrow>
     f_ok F k' \<and> f_read F k' = f_read F k \<and> (r < 0 \<longrightarrow> e \<noteq> 0) \<and>
     (0 \<le> r \<longrightarrow> nat r \<le> length (concat (map iov_base vs)) \<and>
        f_written F k' = (f_written F k)(n := f_written F k n @ take (nat r) (concat (map iov_base vs)))) \<and>
     (r = 0 \<longrightarrow> concat (map iov_base vs) = []))"

text \<open>A call that moves no bytes, and reports an error when it fails.\<close>

definition keeps_files :: "('k, 'm) files_scheme \<Rightarrow> 'k \<Rightarrow> 'k \<times> sysret \<Rightarrow> bool" where
  "keeps_files F k kr \<longleftrightarrow> same_files F k (fst kr) \<and> (fst (snd kr) < 0 \<longrightarrow> snd (snd kr) \<noteq> 0)"

definition stream_files :: "'k kernel \<Rightarrow> ('k, 'm) files_scheme \<Rightarrow> bool" where
  "stream_files K F \<longleftrightarrow> reads_files K F \<and> writes_files K F \<and>
     (\<forall>k. f_ok F k \<longrightarrow> (\<forall>n how. keeps_files F k (sys_shutdown K n how k)) \<and> (\<forall>n. keeps_files F k (sys_close K n k)) \<and>
        (\<forall>n cmd x. keeps_files F k (sys_fcntl K n cmd x k)) \<and>
        (\<forall>fds t. same_files F k (fst (sys_poll K fds t k))) \<and> same_files F k (fst (sys_clock K k)))"

section \<open>The operations on such files\<close>

text \<open>The exceptions of failing system calls.\<close>

definition system_error :: "cxx_error \<Rightarrow> bool" where
  "system_error e \<longleftrightarrow> (\<exists>t n. e = TaggedError t n)"

lemma system_error_tagged [simp]: "system_error (TaggedError t n)"
  by (simp add: system_error_def)

lemma fd_read_files:
  assumes K: "stream_files K F" and w: "f_ok F (w_kernel w)" "f_stream F (fd_num w h)" and h: "h < length (w_fds w)"
  shows "within system_error (fd_read K h limit w) (\<lambda>(w', data). length data \<le> limit \<and> f_ok F (w_kernel w') \<and>
    f_written F (w_kernel w') = f_written F (w_kernel w) \<and>
    f_read F (w_kernel w') = (f_read F (w_kernel w))(fd_num w h := f_read F (w_kernel w) (fd_num w h) @ data) \<and>
    only_fd h w w' \<and> fd_read_count (wrapper w' h) = fd_read_count (wrapper w h) + 1 \<and>
    fd_closed (wrapper w' h) = fd_closed (wrapper w h))"
proof -
  obtain k r e str where s: "sys_read K (fd_num w h) (min BUFFER_SIZE limit) (w_kernel w) = (k, (r, e), str)" by (metis prod.exhaust)
  have "reads_files K F" using K by (simp add: stream_files_def)
  note law = this [unfolded reads_files_def, rule_format, OF w(2,1) s]
  show ?thesis
  proof (cases "r < 0")
    case True
    then show ?thesis using law by (simp add: fd_read_def s SystemCall_def)
  next
    case False
    then have "string_resize (take (min BUFFER_SIZE limit) str) (nat r) = take (nat r) str"
      using law by (simp add: string_resize_def min_def)
    then have "\<exists>w'. fd_read K h limit w = Inr (w', take (nat r) str) \<and> w_kernel w' = k"
      using law False by (auto simp: fd_read_def s SystemCall_def fd_simps Let_def)
    then obtain w' where w': "fd_read K h limit w = Inr (w', take (nat r) str)" "w_kernel w' = k" by blast
    show ?thesis using w' law False fd_read_Inr [OF w'(1)] h by simp
  qed
qed

lemma fd_write_files:
  assumes K: "stream_files K F" and w: "f_ok F (w_kernel w)" "f_stream F (fd_num w h)" and len: "length (concat buffer) < U64"
    and h: "h < length (w_fds w)"
  shows "within system_error (fd_write K h buffer False w) (\<lambda>(w', n). n \<le> length (concat buffer) \<and> f_ok F (w_kernel w') \<and>
    f_read F (w_kernel w') = f_read F (w_kernel w) \<and>
    f_written F (w_kernel w') = (f_written F (w_kernel w))(fd_num w h := f_written F (w_kernel w) (fd_num w h) @ take n (concat buffer)) \<and>
    only_fd h w w' \<and> wrapper w' h = (wrapper w h)\<lparr>fd_write_count := fd_write_count (wrapper w h) + 1\<rparr>)"
proof -
  obtain k r e where s: "sys_writev K (fd_num w h) (as_iovecs buffer) (w_kernel w) = (k, (r, e))" by (metis prod.exhaust)
  have bytes: "concat (map iov_base (as_iovecs buffer)) = concat buffer" by (simp add: as_iovecs_def foldl_snoc_map comp_def)
  have "writes_files K F" using K by (simp add: stream_files_def)
  note law = this [unfolded writes_files_def, rule_format, OF w(2,1) s, unfolded bytes]
  show ?thesis
  proof (cases "r < 0")
    case True
    then show ?thesis using law by (simp add: fd_write_once write_once_def s SystemCall_def)
  next
    case False
    then have n: "nat r \<le> length (concat buffer)" "r = 0 \<Longrightarrow> concat buffer = []" using law by auto
    obtain b where b: "BufferViewList_remove_prefix buffer (nat r) = Inr b"
      using bvl.discard_law [of "nat r" buffer] n(1) by (auto simp: returns_iff)
    have once: "write_once K h buffer w = Inr (register_write h (w\<lparr>w_kernel := k\<rparr>), b, nat r)"
      using False n b len by (auto simp: write_once_def s SystemCall_def BufferViewList_size_concat)
    have "u64_add 0 (nat r) = nat r" using n(1) len by (simp add: u64_add_def)
    then show ?thesis
      using law False n(1) write_once_world [OF once] h by (simp add: fd_write_once once fd_simps)
  qed
qed

lemma shutdown_files:
  assumes K: "stream_files K F" and w: "f_ok F (w_kernel w)" and how: "how = SHUT_WR \<or> how = SHUT_RDWR"
  shows "within system_error (socket_shutdown K h how w) (\<lambda>w'. same_files F (w_kernel w) (w_kernel w') \<and> only_fd h w w' \<and>
    (h < length (w_fds w) \<longrightarrow> fd_eof (wrapper w' h) = fd_eof (wrapper w h) \<and> fd_closed (wrapper w' h) = fd_closed (wrapper w h) \<and>
       fd_write_count (wrapper w' h) = fd_write_count (wrapper w h) + 1))"
proof -
  obtain k r e where s: "sys_shutdown K (fd_num w h) how (w_kernel w) = (k, (r, e))" by (metis prod.exhaust)
  have "keeps_files F (w_kernel w) (sys_shutdown K (fd_num w h) how (w_kernel w))" using K w by (simp add: stream_files_def)
  then have law: "same_files F (w_kernel w) k" "r < 0 \<longrightarrow> e \<noteq> 0" by (simp_all add: s keeps_files_def)
  show ?thesis
  proof (cases "socket_shutdown K h how w")
    case (Inl e)
    then show ?thesis
      using law how by (auto simp: socket_shutdown_def socket_call_def s SystemCall_def SHUT_WR_def SHUT_RDWR_def SHUT_RD_def Let_def split: if_splits)
  next
    case (Inr w')
    then show ?thesis
      using law how socket_shutdown_Inr [OF Inr]
      by (auto simp: socket_shutdown_def socket_call_def s SystemCall_def SHUT_WR_def SHUT_RDWR_def SHUT_RD_def register_read_def
          register_write_def fd_simps Let_def split: if_splits)
  qed
qed

lemma close_files:
  assumes K: "stream_files K F" and w: "f_ok F (w_kernel w)"
  shows "within system_error (fd_close K h w) (\<lambda>w'. same_files F (w_kernel w) (w_kernel w') \<and> only_fd h w w' \<and>
    (h < length (w_fds w) \<longrightarrow> wrapper w' h = (wrapper w h)\<lparr>fd_eof := True, fd_closed := True\<rparr>))"
proof -
  obtain k r e where s: "sys_close K (fd_num w h) (w_kernel w) = (k, (r, e))" by (metis prod.exhaust)
  have "keeps_files F (w_kernel w) (sys_close K (fd_num w h) (w_kernel w))" using K w by (simp add: stream_files_def)
  then have law: "same_files F (w_kernel w) k" "r < 0 \<longrightarrow> e \<noteq> 0" by (simp_all add: s keeps_files_def)
  have "only_fd h w (on_wrapper h (\<lambda>x. x\<lparr>fd_eof := True, fd_closed := True\<rparr>) (w\<lparr>w_kernel := k\<rparr>))"
    by (rule only_fd_trans [OF only_fd_kernel only_fd_on_wrapper]) simp
  then show ?thesis using law by (auto simp: fd_close_def s SystemCall_def fd_simps)
qed

lemma set_blocking_files:
  assumes K: "stream_files K F" and w: "f_ok F (w_kernel w)"
  shows "within system_error (set_blocking K h b w) (\<lambda>w'. same_files F (w_kernel w) (w_kernel w') \<and> w_fds w' = w_fds w)"
proof -
  have law: "keeps_files F k (sys_fcntl K n cmd x k)" if "f_ok F k" for n cmd x k using K that by (simp add: stream_files_def)
  obtain k1 r1 e1 where s1: "sys_fcntl K (fd_num w h) F_GETFL 0 (w_kernel w) = (k1, (r1, e1))" by (metis prod.exhaust)
  have k1: "same_files F (w_kernel w) k1" "r1 < 0 \<longrightarrow> e1 \<noteq> 0" using law [OF w, of "fd_num w h" F_GETFL 0] by (simp_all add: s1 keeps_files_def)
  define flags where "flags = (if b then (word_of_int r1 :: u32) XOR ((word_of_int r1 :: u32) AND O_NONBLOCK) else (word_of_int r1 :: u32) OR O_NONBLOCK)"
  obtain k2 r2 e2 where s2: "sys_fcntl K (fd_num w h) F_SETFL flags k1 = (k2, (r2, e2))" by (metis prod.exhaust)
  have k2: "same_files F k1 k2" "r2 < 0 \<longrightarrow> e2 \<noteq> 0" using law [of k1 "fd_num w h" F_SETFL flags] k1 by (simp_all add: s2 keeps_files_def same_files_def)
  show ?thesis
    using k1 k2 s2 unfolding flags_def by (auto simp: set_blocking_def s1 SystemCall_def Let_def same_files_def fd_simps split: if_splits)
qed

section \<open>A kernel in memory\<close>

text \<open>A kernel whose files are always ready: the bytes each file has yet to give, those it has given, and those it
  has taken. It takes at most two bytes at a time. \<open>memory_files\<close> bounds what a file can give by three bytes.\<close>

record memory =
  m_pending :: "int \<Rightarrow> bytes"
  m_given :: "int \<Rightarrow> bytes"
  m_taken :: "int \<Rightarrow> bytes"

definition memory_kernel :: "memory kernel" where
  "memory_kernel =
     \<lparr>sys_read = \<lambda>n m k. (k\<lparr>m_pending := (m_pending k)(n := drop m (m_pending k n)), m_given := (m_given k)(n := m_given k n @ take m (m_pending k n))\<rparr>,
        (int (min m (length (m_pending k n))), 0), take m (m_pending k n)),
      sys_writev = \<lambda>n vs k. (k\<lparr>m_taken := (m_taken k)(n := m_taken k n @ take 2 (concat (map iov_base vs)))\<rparr>,
        (int (min 2 (length (concat (map iov_base vs)))), 0)),
      sys_close = \<lambda>n k. (k, (0, 0)), sys_fcntl = \<lambda>n cmd x k. (k, (0, 0)),
      sys_poll = \<lambda>fds t k. (k, (int (length fds), 0), \<lambda>_. POLLIN OR POLLOUT),
      sys_socket = \<lambda>d t p k. (k, (3, 0)), sys_getsockopt = \<lambda>n l opt k. (k, (0, 0), 0, 4), sys_setsockopt = \<lambda>n l opt v k. (k, (0, 0)),
      sys_getname = \<lambda>f n k. (k, (0, 0), [], 0), sys_bind = \<lambda>n a k. (k, (0, 0)), sys_connect = \<lambda>n a k. (k, (0, 0)),
      sys_shutdown = \<lambda>n how k. (k, (0, 0)), sys_recvfrom = \<lambda>n mtu k. (k, (0, 0), [], [], 0), sys_sendmsg = \<lambda>n a vs k. (k, (0, 0)),
      sys_listen = \<lambda>n b k. (k, (0, 0)), sys_accept = \<lambda>n k. (k, (4, 0)), sys_socketpair = \<lambda>d t k. (k, (0, 0), 5, 6),
      sys_open = \<lambda>path k. (k, (7, 0)), sys_tunsetiff = \<lambda>n flags name k. (k, (0, 0)), sys_clock = \<lambda>k. (k, 0)\<rparr>"

definition memory_files :: "memory files" where
  "memory_files = \<lparr>f_stream = \<lambda>_. True, f_ok = \<lambda>k. \<forall>n. length (m_given k n) + length (m_pending k n) \<le> 3, f_read = m_given, f_written = m_taken\<rparr>"

lemma memory_kernel_files:
  "f_ok F = f_ok memory_files \<Longrightarrow> f_read F = m_given \<Longrightarrow> f_written F = m_taken \<Longrightarrow> stream_files memory_kernel F"
  by (auto simp: stream_files_def reads_files_def writes_files_def keeps_files_def same_files_def memory_kernel_def memory_files_def min_def take_all)

lemma memory_kernel_calm: "never_interrupted memory_kernel"
  by (simp add: never_interrupted_def memory_kernel_def)

end
