(* ===== verification/Sponge_Loop.thy ===== *)
theory Sponge_Loop
  imports Sponge_Socket Stream_Files
begin

text \<open>
  What the event loop of a \<open>TCPSpongeSocket\<close> guarantees. The four rules of the socket meet the contract
  \<open>event_client\<close>, so a turn of the loop never busy-waits and keeps the invariant \<open>sponge_inv\<close>: the connection's
  invariant, for the bytes that the application's socket has given and has taken.

  What the loop relies on is collected in a \<open>setting\<close>. The kernel treats the socket between the thread and the
  application as a stream of bytes in each direction, and the adapter brings segments of the peer's
  stream, or resets.
\<close>

section \<open>The environment of a socket\<close>

text \<open>The file of the thread's end of the socket pair and of the adapter, the states that the adapter stays in, the
  stream of the peer, and the exceptions of the adapter.\<close>

record ('k, 'a) setting = "'k files" +
  e_thread :: int
  e_device :: int
  e_adapter :: "'a \<Rightarrow> bool"
  e_peer :: bytes
  e_isn :: WrappingInt32
  e_errors :: "cxx_error \<Rightarrow> bool"

text \<open>The bytes taken from the application and given to it.\<close>

abbreviation e_taken :: "('k, 'a) setting \<Rightarrow> 'k \<Rightarrow> bytes" where
  "e_taken S k \<equiv> f_read S k (e_thread S)"

abbreviation e_sent :: "('k, 'a) setting \<Rightarrow> 'k \<Rightarrow> bytes" where
  "e_sent S k \<equiv> f_written S k (e_thread S)"

definition quiet :: "('k, 'a) setting \<Rightarrow> 'k \<Rightarrow> 'k \<Rightarrow> bool" where
  "quiet S k k' \<longleftrightarrow> f_ok S k' \<and> e_taken S k' = e_taken S k \<and> e_sent S k' = e_sent S k"

lemma same_files_quiet: "same_files S k k' \<Longrightarrow> quiet S k k'"
  by (simp add: same_files_def quiet_def)

definition stream_kernel :: "'k kernel \<Rightarrow> ('k, 'a) setting \<Rightarrow> bool" where
  "stream_kernel K S \<longleftrightarrow> stream_files K S \<and> f_stream S (e_thread S) \<and> (\<forall>k. f_ok S k \<longrightarrow> length (e_taken S k) \<le> max_stream)"

definition adapter_ok :: "getnameinfo_fn \<Rightarrow> ('k, 'a) sponge_adapter \<Rightarrow> ('k, 'a) setting \<Rightarrow> bool" where
  "adapter_ok gni A S \<longleftrightarrow> (\<forall>a w. e_adapter S a \<longrightarrow> f_ok S (w_kernel w) \<longrightarrow> fd_num w (ad_fd A a) = e_device S \<longrightarrow>
     within (e_errors S) (addr_to_string gni (ac_destination (ad_config A a))) (\<lambda>_. True) \<and>
     within (e_errors S) (ad_read A a w) (\<lambda>(w', a', seg). e_adapter S a' \<and> quiet S (w_kernel w) (w_kernel w') \<and>
       (\<forall>x. seg = Some x \<longrightarrow> th_rst (seg_header x) \<or> peer_seg (e_peer S) (e_isn S) x)) \<and>
     (\<forall>x. within (e_errors S) (ad_write A a x w) (\<lambda>(w', a'). e_adapter S a' \<and> quiet S (w_kernel w) (w_kernel w'))) \<and>
     (\<forall>ms. within (e_errors S) (ad_tick A a ms w) (\<lambda>(w', a'). e_adapter S a' \<and> quiet S (w_kernel w) (w_kernel w'))))"

text \<open>The exceptions that may leave the loop: a failing system call or adapter, or an error that \<open>poll\<close> reports.\<close>

definition sponge_error :: "('k, 'a) setting \<Rightarrow> cxx_error \<Rightarrow> bool" where
  "sponge_error S e \<longleftrightarrow> e_errors S e \<or> system_error e \<or> e = RuntimeError ''EventLoop: error on polled file descriptor''"

definition sponge_place :: "('k, 'a) sponge_adapter \<Rightarrow> ('k, 'a) setting \<Rightarrow> fd \<Rightarrow> fd \<Rightarrow> ('k, 'a) sponge_socket \<Rightarrow> bool" where
  "sponge_place A S ha h w \<longleftrightarrow> sp_thread_data w = h \<and> ad_fd A (sp_adapter w) = ha \<and> ha \<noteq> h \<and>
     h < length (w_fds w) \<and> ha < length (w_fds w) \<and> fd_num w h = e_thread S \<and> fd_num w ha = e_device S \<and>
     f_ok S (w_kernel w) \<and> e_adapter S (sp_adapter w)"

text \<open>\<open>conn_at S c k\<close>: the connection carries what the application has written until now, and has handed over what it has
  read.\<close>

definition conn_at :: "('k, 'a) setting \<Rightarrow> tcp_connection \<Rightarrow> 'k \<Rightarrow> bool" where
  "conn_at S c k \<longleftrightarrow> (\<exists>cap. conn_inv (e_isn S) cap (e_taken S k) (e_peer S) (e_sent S k) c)"

text \<open>The application has been given the whole stream, or the connection was reset.\<close>

definition complete :: "('k, 'a) setting \<Rightarrow> tcp_connection \<Rightarrow> 'k \<Rightarrow> bool" where
  "complete S c k \<longleftrightarrow> bs_error (inbound_stream c) \<or> e_sent S k = e_peer S"

definition setting_ok :: "'k kernel \<Rightarrow> getnameinfo_fn \<Rightarrow> ('k, 'a) sponge_adapter \<Rightarrow> ('k, 'a) setting \<Rightarrow> bool" where
  "setting_ok K gni A S \<longleftrightarrow> stream_kernel K S \<and> adapter_ok gni A S \<and> datagram_adapter A \<and> length (e_peer S) \<le> max_transfer"

definition sponge_inv :: "'k kernel \<Rightarrow> getnameinfo_fn \<Rightarrow> ('k, 'a) sponge_adapter \<Rightarrow> ('k, 'a) setting \<Rightarrow> fd \<Rightarrow> fd \<Rightarrow> ('k, 'a) sponge_socket \<Rightarrow> bool" where
  "sponge_inv K gni A S ha h w \<longleftrightarrow> setting_ok K gni A S \<and> sponge_place A S ha h w \<and>
     (\<exists>c. sp_tcp w = Some c \<and> conn_at S c (w_kernel w) \<and> (input_ended (stream_in c) \<longleftrightarrow> sp_outbound_shutdown w) \<and>
        (sp_inbound_shutdown w \<longrightarrow> complete S c (w_kernel w))) \<and>
     (fd_eof (wrapper w h) \<longrightarrow> sp_outbound_shutdown w)"

definition sponge_armed :: "fd \<Rightarrow> ('k, 'a) sponge_rule \<Rightarrow> ('k, 'a) sponge_socket \<Rightarrow> bool" where
  "sponge_armed h r w \<longleftrightarrow> (ru_fd r = h \<and> ru_direction r = In \<longrightarrow> \<not> sp_outbound_shutdown w)"

section \<open>Steps that keep the invariant\<close>

lemma sponge_fields [simp]:
  "wrapper (w\<lparr>sp_adapter := a\<rparr>) x = wrapper w x" "wrapper (w\<lparr>sp_tcp := t\<rparr>) x = wrapper w x"
  "wrapper (w\<lparr>sp_fully_acked := b\<rparr>) x = wrapper w x" "wrapper (w\<lparr>sp_outbound_shutdown := b\<rparr>) x = wrapper w x"
  "wrapper (w\<lparr>sp_inbound_shutdown := b\<rparr>) x = wrapper w x"
  "fd_num (w\<lparr>sp_adapter := a\<rparr>) x = fd_num w x" "fd_num (w\<lparr>sp_tcp := t\<rparr>) x = fd_num w x"
  "fd_num (w\<lparr>sp_fully_acked := b\<rparr>) x = fd_num w x" "fd_num (w\<lparr>sp_outbound_shutdown := b\<rparr>) x = fd_num w x"
  "fd_num (w\<lparr>sp_inbound_shutdown := b\<rparr>) x = fd_num w x"
  by (simp_all add: wrapper_def fd_num_def)

lemma only_fd_sponge:
  assumes "only_fd x (w :: ('k, 'a) sponge_socket) w'"
  shows "sp_socket w' = sp_socket w" "sp_thread_data w' = sp_thread_data w" "sp_adapter w' = sp_adapter w" "sp_tcp w' = sp_tcp w"
    "sp_abort w' = sp_abort w" "sp_inbound_shutdown w' = sp_inbound_shutdown w" "sp_outbound_shutdown w' = sp_outbound_shutdown w"
    "sp_fully_acked w' = sp_fully_acked w" "length (w_fds w') = length (w_fds w)" "fd_num w' y = fd_num w y" "y \<noteq> x \<Longrightarrow> wrapper w' y = wrapper w y"
  using assms by (cases w; cases w'; simp add: only_fd_def)+

lemma sponge_inv_dest:
  assumes "sponge_inv K gni A S ha h w"
  obtains c cap where "setting_ok K gni A S" "sponge_place A S ha h w" "sp_tcp w = Some c" "the_tcp w = Inr c"
    "conn_inv (e_isn S) cap (e_taken S (w_kernel w)) (e_peer S) (e_sent S (w_kernel w)) c"
    "input_ended (stream_in c) = sp_outbound_shutdown w" "fd_eof (wrapper w h) \<longrightarrow> sp_outbound_shutdown w"
    "sp_inbound_shutdown w \<longrightarrow> complete S c (w_kernel w)"
  using assms that by (auto simp: sponge_inv_def conn_at_def the_tcp_def)

lemma sponge_inv_acked [simp]: "sponge_inv K gni A S ha h (w\<lparr>sp_fully_acked := b\<rparr>) = sponge_inv K gni A S ha h w"
  by (simp add: sponge_inv_def sponge_place_def)

lemma sponge_adapter_step:
  assumes inv: "sponge_inv K gni A S ha h w" and w': "only_fd ha w w'" "ad_fd A a = ha" "e_adapter S a" "quiet S (w_kernel w) (w_kernel w')"
  shows "sponge_inv K gni A S ha h (w'\<lparr>sp_adapter := a\<rparr>)"
  using inv w' only_fd_sponge [OF w'(1)] by (auto simp: sponge_inv_def sponge_place_def quiet_def conn_at_def complete_def)

lemma sponge_conn_step:
  assumes "sponge_inv K gni A S ha h w" "conn_at S c (w_kernel w)" "input_ended (stream_in c) = sp_outbound_shutdown w"
    and "sp_tcp w = Some c0" "bs_error (inbound_stream c0) \<Longrightarrow> bs_error (inbound_stream c)"
  shows "sponge_inv K gni A S ha h (w\<lparr>sp_tcp := Some c\<rparr>)"
  using assms by (auto simp: sponge_inv_def sponge_place_def complete_def)

section \<open>The end of the outbound stream\<close>

lemma fill_window_ended: "snd_inv w s \<Longrightarrow> fill_window s = Inr s' \<Longrightarrow> input_ended (snd_stream s') = input_ended (snd_stream s)"
  using fill_window_returns [of w s] by simp

lemma ack_received_stream: "snd_inv w s \<Longrightarrow> snd_stream (ack_received s a win) = snd_stream s"
  using ack_received_eq [of w s] by (simp add: snd_inv_def Let_def acked_to_def)

lemma send_ended [simp]:
  "snd_stream (send_empty_segment s) = snd_stream s" "snd_stream (conn_sender (send_rst c)) = snd_stream (conn_sender c)"
  "input_ended (stream_in (dirty_abort c)) = input_ended (stream_in c)" "conn_sender (conn_abort c) = conn_sender c"
  by (simp_all add: send_empty_segment_def send_rst_def dirty_abort_def conn_abort_def Let_def)

lemma stream_in_if:
  "stream_in (if p then c\<lparr>conn_linger := b\<rparr> else c) = stream_in c"
  "stream_in (if p then c\<lparr>conn_sender := send_empty_segment (conn_sender c)\<rparr> else c) = stream_in c"
  by simp_all

lemma conn_segment_ended:
  assumes inv: "conn_inv isn k w s del c" and c': "TCPConnection_segment_received c seg = Inr c'"
  shows "input_ended (stream_in c') = input_ended (stream_in c)"
proof -
  have sinv: "snd_inv w (conn_sender c)" using inv by (simp add: conn_inv_def)
  show ?thesis
  proof (cases "th_rst (seg_header seg)")
    case True
    then show ?thesis using c' by (auto simp: TCPConnection_segment_received_def)
  next
    case False
    then obtain r where r: "TCPReceiver_segment_received (conn_receiver c) seg = Inr r"
      using c' by (cases "TCPReceiver_segment_received (conn_receiver c) seg") (simp_all add: TCPConnection_segment_received_def)
    show ?thesis
    proof (cases "TCPReceiver_ackno r")
      case None
      then show ?thesis using c' False r by (auto simp: TCPConnection_segment_received_def)
    next
      case (Some a)
      let ?f = "if th_ack (seg_header seg) then fill_window (ack_received (conn_sender c) (th_ackno (seg_header seg)) (th_win (seg_header seg)))
        else if th_syn (seg_header seg) then fill_window (conn_sender c) else Inr (conn_sender c)"
      obtain sd where sd: "?f = Inr sd"
        using c' False r Some by (cases ?f) (simp_all add: TCPConnection_segment_received_def Let_def del: if_split cong: if_cong)
      have "input_ended (snd_stream sd) = input_ended (stream_in c)"
        using sd fill_window_ended [OF sinv] fill_window_ended [OF ack_received_inv [OF sinv]] ack_received_stream [OF sinv]
        by (auto split: if_splits)
      moreover have "stream_in c' = snd_stream sd"
        using c' False r Some sd by (auto simp add: TCPConnection_segment_received_def Let_def stream_in_if simp del: if_split cong: if_cong)
      ultimately show ?thesis by simp
    qed
  qed
qed

lemma conn_tick_ended:
  assumes inv: "conn_inv isn k w s del c" and c': "TCPConnection_tick c ms = Inr c'"
  shows "input_ended (stream_in c') = input_ended (stream_in c)"
proof -
  have "snd_inv w (conn_sender c)" using inv by (simp add: conn_inv_def)
  then have "snd_stream sd = stream_in c" if "TCPSender_tick (conn_sender c) ms = Inr sd" for sd
    using TCPSender_tick_returns [of w "conn_sender c" ms] that by (auto split: if_splits)
  then show ?thesis using c' by (auto simp: TCPConnection_tick_def rbind_Inr_iff Let_def split: if_splits)
qed

lemma conn_write_ended:
  assumes inv: "conn_inv isn k w s del c" and len: "length w + length d \<le> max_stream" and c': "TCPConnection_write c d = Inr (c', n)"
  shows "input_ended (stream_in c') = input_ended (stream_in c)"
proof (cases "input_ended (stream_in c)")
  case False
  have sinv: "snd_inv w (conn_sender c)" using inv by (simp add: conn_inv_def)
  from c' False obtain st m sd where w: "ByteStream_write (stream_in c) d = Inr (st, m)"
    "fill_window ((conn_sender c)\<lparr>snd_stream := st\<rparr>) = Inr sd" "c' = send_segment_with_info (c\<lparr>conn_sender := sd\<rparr>)"
    by (auto simp: TCPConnection_write_def rbind_Inr_iff Let_def)
  with snd_write_returns [OF sinv False len] fill_window_ended show ?thesis using False by fastforce
qed (use c' in \<open>simp add: TCPConnection_write_def\<close>)

text \<open>A reset is never forgotten.\<close>

lemma write_error: "ByteStream_write bs d = Inr (bs', n) \<Longrightarrow> bs_error bs' = bs_error bs"
  by (auto simp: ByteStream_write_def rbind_Inr_iff Let_def split: if_splits)

lemma assemble_output: "assemble r d i = Inr r' \<Longrightarrow> sr_output r' = sr_output r"
  by (auto simp: assemble_def rbind_Inr_iff Let_def case_prod_unfold split: if_splits)

lemma push_error: "push_substring r d i e = Inr r' \<Longrightarrow> bs_error (sr_output r') = bs_error (sr_output r)"
  by (auto simp: push_substring_def sr_flush_def check_end_input_def rbind_Inr_iff Let_def
      dest!: assemble_output write_error split: if_splits list.splits)

lemma receiver_error: "TCPReceiver_segment_received r seg = Inr r' \<Longrightarrow> bs_error (stream_out r') = bs_error (stream_out r)"
  by (auto simp: TCPReceiver_segment_received_def rbind_Inr_iff Let_def dest!: push_error split: if_splits)

lemma receiver_kept [simp]:
  "conn_receiver (send_segment_with_info c) = conn_receiver c" "conn_receiver (send_rst c) = conn_receiver c"
  "conn_receiver (conn_abort c) = conn_receiver c" "bs_error (inbound_stream (dirty_abort c))"
  by (simp_all add: send_segment_with_info_def send_rst_def conn_abort_def dirty_abort_def receiver_set_error_def Let_def)

lemma receiver_if:
  "conn_receiver (if p then c\<lparr>conn_linger := b\<rparr> else c) = conn_receiver c"
  "conn_receiver (if p then c\<lparr>conn_sender := send_empty_segment (conn_sender c)\<rparr> else c) = conn_receiver c"
  by simp_all

lemma conn_segment_error:
  assumes c': "TCPConnection_segment_received c seg = Inr c'" and err: "bs_error (inbound_stream c)"
  shows "bs_error (inbound_stream c')"
proof (cases "th_rst (seg_header seg)")
  case True
  then show ?thesis using c' by (auto simp: TCPConnection_segment_received_def)
next
  case False
  then obtain r where r: "TCPReceiver_segment_received (conn_receiver c) seg = Inr r"
    using c' by (cases "TCPReceiver_segment_received (conn_receiver c) seg") (simp_all add: TCPConnection_segment_received_def)
  have "conn_receiver c' = r"
  proof (cases "TCPReceiver_ackno r")
    case None
    then show ?thesis using c' False r by (auto simp: TCPConnection_segment_received_def)
  next
    case (Some a)
    let ?f = "if th_ack (seg_header seg) then fill_window (ack_received (conn_sender c) (th_ackno (seg_header seg)) (th_win (seg_header seg)))
      else if th_syn (seg_header seg) then fill_window (conn_sender c) else Inr (conn_sender c)"
    obtain sd where sd: "?f = Inr sd"
      using c' False r Some by (cases ?f) (simp_all add: TCPConnection_segment_received_def Let_def del: if_split cong: if_cong)
    then show ?thesis
      using c' False r Some by (auto simp add: TCPConnection_segment_received_def Let_def receiver_if simp del: if_split cong: if_cong)
  qed
  then show ?thesis using receiver_error [OF r] err by simp
qed

lemma conn_tick_error: "TCPConnection_tick c ms = Inr c' \<Longrightarrow> bs_error (inbound_stream c) \<Longrightarrow> bs_error (inbound_stream c')"
  by (auto simp: TCPConnection_tick_def rbind_Inr_iff Let_def split: if_splits)

lemma conn_write_receiver:
  "TCPConnection_write c d = Inr (c', n) \<Longrightarrow> conn_receiver c' = conn_receiver c"
  "end_input_stream c = Inr c' \<Longrightarrow> conn_receiver c' = conn_receiver c"
  by (auto simp: TCPConnection_write_def end_input_stream_def rbind_Inr_iff Let_def split: if_splits)

text \<open>What has been handed over is a part of the peer's stream; at the end of the stream it is all of it.\<close>

lemma conn_prefix:
  assumes "conn_inv isn k w s del c"
  shows "prefix del s" and "ByteStream_eof (inbound_stream c) \<Longrightarrow> del = s"
proof -
  obtain hi where "rcv_inv s isn k hi del (conn_receiver c)" using assms by (auto simp: conn_inv_def)
  then have hist: "sr_hist s k hi (rcv_reassembler (conn_receiver c), del)" by (simp add: rcv_inv_def)
  note str = sr_hist_stream [OF hist]
  show "prefix del s" using str by (metis append.assoc append_take_drop_id prefixI)
  assume eof: "ByteStream_eof (inbound_stream c)"
  have "bs_inv (inbound_stream c)" using sr_hist_bounds(5) [OF hist] by (simp add: sr_inv_def)
  with eof have "bs_contents (inbound_stream c) = []" "input_ended (inbound_stream c)" by (simp_all add: ByteStream_eof_iff)
  then show "del = s" using str sr_hist_ended [OF hist] by simp
qed

text \<open>Handing bytes to the application: the callback takes the bytes it has written from the stream.\<close>

lemma conn_pop:
  assumes inv: "conn_inv isn k w s del c" and n: "n \<le> buffer_size (inbound_stream c)" and m: "m \<le> buffer_size (inbound_stream c)"
  shows "\<exists>out. peek_output (inbound_stream c) m = Inr (take m (bs_contents (inbound_stream c))) \<and> pop_output (inbound_stream c) n = Inr out \<and>
    conn_inv isn k w s (del @ take n (bs_contents (inbound_stream c))) (set_inbound out c)"
proof -
  have "bs_inv (inbound_stream c)" using inv sr_hist_bounds(5) by (fastforce simp: conn_inv_def rcv_inv_def sr_inv_def)
  then have "peek_output (inbound_stream c) m = Inr (take m (bs_contents (inbound_stream c)))"
    using ByteStream_read_returns [of "inbound_stream c" m] m by (auto simp: ByteStream_read_def returns_iff rbind_Inr_iff)
  moreover from conn_read_returns [OF inv, of n] n obtain out where "pop_output (inbound_stream c) n = Inr out"
    "conn_inv isn k w s (del @ take n (bs_contents (inbound_stream c))) (set_inbound out c)"
    by (auto simp: conn_read_def ByteStream_read_def returns_iff rbind_Inr_iff set_inbound_def min_def split: if_splits)
  ultimately show ?thesis by blast
qed

section \<open>The application's end\<close>

lemma sponge_errorI [simp, intro]:
  "sponge_error S (TaggedError t n)" "e_errors S e \<Longrightarrow> sponge_error S e"
  "sponge_error S (RuntimeError ''EventLoop: error on polled file descriptor'')"
  by (auto simp: sponge_error_def)

lemma within_system: "within system_error m P \<Longrightarrow> (\<And>x. P x \<Longrightarrow> Q x) \<Longrightarrow> within (sponge_error S) m Q"
  by (erule within_mono) (auto simp: sponge_error_def)

lemma fd_read_stream:
  assumes K: "stream_kernel K S" and w: "f_ok S (w_kernel w)" "fd_num w h = e_thread S" and h: "h < length (w_fds w)"
  shows "within (sponge_error S) (fd_read K h limit w) (\<lambda>(w', data). f_ok S (w_kernel w') \<and> e_sent S (w_kernel w') = e_sent S (w_kernel w) \<and>
    e_taken S (w_kernel w') = e_taken S (w_kernel w) @ data)"
  using K w by (intro within_system [OF fd_read_files [OF _ w(1) _ h]]) (auto simp: stream_kernel_def)

lemma fd_write_stream:
  assumes K: "stream_kernel K S" and w: "f_ok S (w_kernel w)" "fd_num w h = e_thread S" and len: "length (concat buffer) < U64"
    and h: "h < length (w_fds w)"
  shows "within (sponge_error S) (fd_write K h buffer False w) (\<lambda>(w', n). n \<le> length (concat buffer) \<and> f_ok S (w_kernel w') \<and>
    e_taken S (w_kernel w') = e_taken S (w_kernel w) \<and> e_sent S (w_kernel w') = e_sent S (w_kernel w) @ take n (concat buffer) \<and>
    only_fd h w w' \<and> wrapper w' h = (wrapper w h)\<lparr>fd_write_count := fd_write_count (wrapper w h) + 1\<rparr>)"
  using K w by (intro within_system [OF fd_write_files [OF _ w(1) _ len h]]) (auto simp: stream_kernel_def)

lemma shutdown_stream:
  assumes K: "stream_kernel K S" and w: "f_ok S (w_kernel w)" and how: "how = SHUT_WR \<or> how = SHUT_RDWR"
  shows "within (sponge_error S) (socket_shutdown K h how w) (\<lambda>w'. quiet S (w_kernel w) (w_kernel w') \<and> only_fd h w w' \<and>
    (h < length (w_fds w) \<longrightarrow> fd_eof (wrapper w' h) = fd_eof (wrapper w h) \<and>
       fd_write_count (wrapper w' h) = fd_write_count (wrapper w h) + 1))"
  using K by (intro within_system [OF shutdown_files [OF _ w how]]) (auto simp: stream_kernel_def same_files_quiet)

section \<open>The rules\<close>

lemma within_errors: "within (e_errors S) m P \<Longrightarrow> within (sponge_error S) m P"
  by (erule within_mono) auto

lemma sponge_adapter_ok:
  assumes "sponge_inv K gni A S ha h w"
  shows "within (sponge_error S) (peer_text gni A w) (\<lambda>_. True)"
    and "within (sponge_error S) (ad_read A (sp_adapter w) w) (\<lambda>(w', a', seg). e_adapter S a' \<and> quiet S (w_kernel w) (w_kernel w') \<and>
       (\<forall>x. seg = Some x \<longrightarrow> th_rst (seg_header x) \<or> peer_seg (e_peer S) (e_isn S) x))"
    and "within (sponge_error S) (ad_write A (sp_adapter w) x w) (\<lambda>(w', a'). e_adapter S a' \<and> quiet S (w_kernel w) (w_kernel w'))"
    and "within (sponge_error S) (ad_tick A (sp_adapter w) ms w) (\<lambda>(w', a'). e_adapter S a' \<and> quiet S (w_kernel w) (w_kernel w'))"
proof -
  have "adapter_ok gni A S" "e_adapter S (sp_adapter w)" "f_ok S (w_kernel w)" "fd_num w (ad_fd A (sp_adapter w)) = e_device S"
    using assms by (auto simp: sponge_inv_def setting_ok_def sponge_place_def)
  note law = this(1) [unfolded adapter_ok_def, rule_format, OF this(2-4)]
  show "within (sponge_error S) (peer_text gni A w) (\<lambda>_. True)" using law by (simp add: peer_text_def within_errors)
  show "within (sponge_error S) (ad_read A (sp_adapter w) w) (\<lambda>(w', a', seg). e_adapter S a' \<and> quiet S (w_kernel w) (w_kernel w') \<and>
       (\<forall>x. seg = Some x \<longrightarrow> th_rst (seg_header x) \<or> peer_seg (e_peer S) (e_isn S) x))"
    "within (sponge_error S) (ad_write A (sp_adapter w) x w) (\<lambda>(w', a'). e_adapter S a' \<and> quiet S (w_kernel w) (w_kernel w'))"
    "within (sponge_error S) (ad_tick A (sp_adapter w) ms w) (\<lambda>(w', a'). e_adapter S a' \<and> quiet S (w_kernel w) (w_kernel w'))"
    using law by (simp_all add: within_errors)
qed

lemma sponge_segment_ok:
  assumes inv: "sponge_inv K gni A S ha h w" and seg: "th_rst (seg_header x) \<or> peer_seg (e_peer S) (e_isn S) x"
  shows "within (sponge_error S) (rbind (the_tcp w) (\<lambda>c. rbind (TCPConnection_segment_received c x) (\<lambda>c. Inr (w\<lparr>sp_tcp := Some c\<rparr>))))
    (\<lambda>w'. sponge_inv K gni A S ha h w' \<and> (\<exists>c. w' = w\<lparr>sp_tcp := Some c\<rparr>))"
proof -
  obtain c cap where c: "setting_ok K gni A S" "the_tcp w = Inr c" "conn_inv (e_isn S) cap (e_taken S (w_kernel w)) (e_peer S) (e_sent S (w_kernel w)) c"
    "input_ended (stream_in c) = sp_outbound_shutdown w" "sp_tcp w = Some c" using inv by (rule sponge_inv_dest)
  from conn_segment_returns [OF c(3) seg] c(1) obtain c' where
    c': "TCPConnection_segment_received c x = Inr c'" "conn_keeps (e_isn S) cap (e_taken S (w_kernel w)) (e_peer S) (e_sent S (w_kernel w)) c c'"
    by (auto simp: returns_iff setting_ok_def)
  have "conn_at S c' (w_kernel w)" using c'(2) by (auto simp: conn_at_def conn_keeps_def)
  then have "sponge_inv K gni A S ha h (w\<lparr>sp_tcp := Some c'\<rparr>)"
    using conn_segment_ended [OF c(3) c'(1)] c(4) conn_segment_error [OF c'(1)] by (intro sponge_conn_step [OF inv _ _ c(5)]) simp_all
  then show ?thesis using c(2) c'(1) by auto
qed

lemma rule1_ok:
  assumes inv: "sponge_inv K gni A S ha h w"
  shows "within (sponge_error S) (rule1_callback gni A w) (\<lambda>w'. sponge_inv K gni A S ha h w' \<and>
    sp_outbound_shutdown w' = sp_outbound_shutdown w \<and> fd_read_count (wrapper w' ha) = fd_read_count (wrapper w ha) + 1)"
    (is "within _ _ ?Q")
  unfolding rule1_callback_def
proof (rule within_bind [OF sponge_adapter_ok(2) [OF inv]], clarify, unfold Let_def, rule within_bind [where P = ?Q], goal_cases)
  case (1 w1 a seg)
  have "datagram_adapter A" "ad_fd A (sp_adapter w) = ha" "ha < length (w_fds w)"
    using inv by (simp_all add: sponge_inv_def setting_ok_def sponge_place_def)
  with datagram_adapter.read_law [OF this(1) 1(1)] have w1: "ad_fd A a = ha" "only_fd ha w w1"
    "fd_read_count (wrapper w1 ha) = fd_read_count (wrapper w ha) + 1" by simp_all
  note inv1 = sponge_adapter_step [OF inv w1(2,1) 1(2,3)]
  have q: "?Q (w1\<lparr>sp_adapter := a, sp_tcp := t\<rparr>)" if "sponge_inv K gni A S ha h (w1\<lparr>sp_adapter := a, sp_tcp := t\<rparr>)" for t
    using that w1(3) only_fd_sponge(7) [OF w1(2)] by simp
  show ?case
  proof (cases seg)
    case None
    then show ?thesis using inv1 w1(3) only_fd_sponge(7) [OF w1(2)] by simp
  next
    case (Some x)
    then have "th_rst (seg_header x) \<or> peer_seg (e_peer S) (e_isn S) x" using 1(4) by simp
    from sponge_segment_ok [OF inv1 this] show ?thesis
      unfolding Some option.case by (rule within_mono) (auto dest: q)
  qed
next
  case (2 w1 a seg w2)
  then obtain c where "the_tcp w2 = Inr c" by (auto simp: sponge_inv_def the_tcp_def)
  then show ?case using 2 by (auto intro!: within_bind [OF sponge_adapter_ok(1)])
qed

lemma sponge_shutdown_step:
  assumes inv: "sponge_inv K gni A S ha h w" and c: "sp_tcp w = Some c"
  obtains c' where "end_input_stream c = Inr c'" "sponge_inv K gni A S ha h (w\<lparr>sp_tcp := Some c', sp_outbound_shutdown := True\<rparr>)"
proof -
  obtain cap where cap: "conn_inv (e_isn S) cap (e_taken S (w_kernel w)) (e_peer S) (e_sent S (w_kernel w)) c"
    by (rule sponge_inv_dest [OF inv]) (use c in auto)
  from conn_end_returns [OF this] obtain c' where "end_input_stream c = Inr c'" "input_ended (stream_in c')" "conn_at S c' (w_kernel w)"
    by (auto simp: returns_iff conn_at_def conn_keeps_def)
  note c' = this
  have "sponge_inv K gni A S ha h (w\<lparr>sp_tcp := Some c', sp_outbound_shutdown := True\<rparr>)"
    using c c' inv conn_write_receiver(2) [OF c'(1)] by (simp add: sponge_inv_def sponge_place_def complete_def)
  with c'(1) show ?thesis by (rule that)
qed

lemma rule2_cancel_ok:
  assumes inv: "sponge_inv K gni A S ha h w"
  shows "within (sponge_error S) (rule2_cancel w) (sponge_inv K gni A S ha h)"
proof -
  obtain c where "sp_tcp w = Some c" "the_tcp w = Inr c" using inv by (rule sponge_inv_dest)
  moreover obtain c' where "end_input_stream c = Inr c'" "sponge_inv K gni A S ha h (w\<lparr>sp_tcp := Some c', sp_outbound_shutdown := True\<rparr>)"
    using inv calculation(1) by (rule sponge_shutdown_step)
  ultimately show ?thesis by (simp add: rule2_cancel_def)
qed

lemma rule2_read:
  assumes inv: "sponge_inv K gni A S ha h w" and out: "\<not> sp_outbound_shutdown w" and c: "the_tcp w = Inr c"
    and w1: "fd_read K h (remaining_outbound_capacity c) w = Inr (w1, data)" and k: "f_ok S (w_kernel w1)"
      "e_sent S (w_kernel w1) = e_sent S (w_kernel w)" "e_taken S (w_kernel w1) = e_taken S (w_kernel w) @ data"
  obtains c' where "TCPConnection_write c data = Inr (c', length data)" "conn_at S c' (w_kernel w1)" "\<not> input_ended (stream_in c')"
proof -
  obtain cap where set: "setting_ok K gni A S" "conn_inv (e_isn S) cap (e_taken S (w_kernel w)) (e_peer S) (e_sent S (w_kernel w)) c"
    and ended: "\<not> input_ended (stream_in c)"
    by (rule sponge_inv_dest [OF inv]) (use c out in auto)
  have len: "length (e_taken S (w_kernel w)) + length data \<le> max_stream"
    using set(1) k by (auto simp: setting_ok_def stream_kernel_def dest!: spec [of _ "w_kernel w1"])
  from conn_write_returns [OF set(2) len] obtain c' n where c': "TCPConnection_write c data = Inr (c', n)"
    "n = min (remaining_outbound_capacity c) (length data)"
    "conn_inv (e_isn S) cap (e_taken S (w_kernel w) @ take n data) (e_peer S) (e_sent S (w_kernel w)) c'"
    using ended by (auto simp: returns_iff)
  then have "n = length data" using fd_read_Inr(1) [OF w1] by simp
  then have "TCPConnection_write c data = Inr (c', length data)" "conn_at S c' (w_kernel w1)" using c' k by (auto simp: conn_at_def)
  then show ?thesis by (rule that) (use conn_write_ended [OF set(2) len c'(1)] ended in simp)
qed

lemma rule2_ok:
  assumes inv: "sponge_inv K gni A S ha h w" and out: "\<not> sp_outbound_shutdown w"
  shows "within (sponge_error S) (rule2_callback K gni A w) (\<lambda>w'. sponge_inv K gni A S ha h w' \<and>
    fd_read_count (wrapper w' h) = fd_read_count (wrapper w h) + 1)"
proof -
  obtain c where c: "the_tcp w = Inr c" "setting_ok K gni A S" "sponge_place A S ha h w" "sp_inbound_shutdown w \<longrightarrow> complete S c (w_kernel w)"
    using inv by (rule sponge_inv_dest)
  have h: "sp_thread_data w = h" "h < length (w_fds w)" and K: "stream_kernel K S" "f_ok S (w_kernel w)" "fd_num w h = e_thread S"
    using c by (simp_all add: sponge_place_def setting_ok_def)
  show ?thesis
    unfolding rule2_callback_def c(1) rbind.simps h(1)
  proof (rule within_bind [OF fd_read_stream [OF K h(2)]], clarify, goal_cases)
    case (1 w1 data)
    obtain c' where c': "TCPConnection_write c data = Inr (c', length data)" "conn_at S c' (w_kernel w1)" "\<not> input_ended (stream_in c')"
      using inv out c(1) 1 by (rule rule2_read)
    note frame = only_fd_sponge [OF fd_read_Inr(3) [OF 1(1)]]
    have count: "fd_read_count (wrapper w1 h) = fd_read_count (wrapper w h) + 1" using fd_read_Inr(4) [OF 1(1) h(2)] by simp
    let ?w = "w1\<lparr>sp_tcp := Some c'\<rparr>"
    have place: "sponge_place A S ha h ?w" using c(3) 1(2) by (simp add: sponge_place_def frame)
    have whole: "sp_inbound_shutdown w \<longrightarrow> complete S c' (w_kernel w1)"
      using c(4) conn_write_receiver(1) [OF c'(1)] 1(3) by (simp add: complete_def)
    show ?case
    proof (cases "fd_eof (wrapper w1 h)")
      case False
      then have "sponge_inv K gni A S ha h ?w" using c(2) place c' out whole by (simp add: sponge_inv_def frame)
      then show ?thesis using False count by (simp add: frame c'(1) h(1) Let_def)
    next
      case True
      obtain cap where "conn_inv (e_isn S) cap (e_taken S (w_kernel w1)) (e_peer S) (e_sent S (w_kernel w1)) c'"
        using c'(2) by (auto simp: conn_at_def)
      from conn_end_returns [OF this] obtain c2 where c2: "end_input_stream c' = Inr c2" "input_ended (stream_in c2)" "conn_at S c2 (w_kernel w1)"
        by (auto simp: returns_iff conn_at_def conn_keeps_def)
      then have inv2: "sponge_inv K gni A S ha h (w1\<lparr>sp_tcp := Some c2, sp_outbound_shutdown := True\<rparr>)"
        using c(2) place whole conn_write_receiver(2) [OF c2(1)] by (simp add: sponge_inv_def sponge_place_def frame complete_def)
      have "within (sponge_error S) (rbind (peer_text gni A (w1\<lparr>sp_tcp := Some c2, sp_outbound_shutdown := True\<rparr>))
          (\<lambda>_. Inr (w1\<lparr>sp_tcp := Some c2, sp_outbound_shutdown := True\<rparr>)))
          (\<lambda>w'. sponge_inv K gni A S ha h w' \<and> fd_read_count (wrapper w' h) = fd_read_count (wrapper w h) + 1)"
        by (rule within_bind [OF sponge_adapter_ok(1) [OF inv2]]) (simp add: inv2 count)
      then show ?thesis using True by (simp add: frame c'(1) c2(1) h(1) Let_def)
    qed
  qed
qed

lemma rule3_ok:
  assumes inv: "sponge_inv K gni A S ha h w"
  shows "within (sponge_error S) (rule3_callback K gni A w) (\<lambda>w'. sponge_inv K gni A S ha h w' \<and>
    sp_outbound_shutdown w' = sp_outbound_shutdown w \<and> fd_write_count (wrapper w' h) \<noteq> fd_write_count (wrapper w h))"
    (is "within _ _ ?Q")
proof -
  obtain c cap where c: "the_tcp w = Inr c" "setting_ok K gni A S" "sponge_place A S ha h w" "fd_eof (wrapper w h) \<longrightarrow> sp_outbound_shutdown w"
    "conn_inv (e_isn S) cap (e_taken S (w_kernel w)) (e_peer S) (e_sent S (w_kernel w)) c"
    "input_ended (stream_in c) = sp_outbound_shutdown w" "sp_inbound_shutdown w \<longrightarrow> complete S c (w_kernel w)"
    using inv by (rule sponge_inv_dest)
  have h: "sp_thread_data w = h" "h < length (w_fds w)" and K: "stream_kernel K S" "f_ok S (w_kernel w)" "fd_num w h = e_thread S"
    using c by (simp_all add: sponge_place_def setting_ok_def)
  let ?in = "inbound_stream c"
  let ?m = "min 65536 (buffer_size ?in)" and ?b = "BufferViewList_of_view (take (min 65536 (buffer_size ?in)) (bs_contents ?in))"
  have peek: "peek_output ?in ?m = Inr (take ?m (bs_contents ?in))" using conn_pop [OF c(5), of 0 ?m] by auto
  have len: "length (concat ?b) \<le> ?m" "length (concat ?b) < U64" "concat ?b = take ?m (bs_contents ?in)" by (simp_all add: BufferViewList_of_view_def)
  show ?thesis
    unfolding rule3_callback_def c(1) rbind.simps Let_def peek h(1)
  proof (rule within_bind [OF fd_write_stream [OF K len(2) h(2)]], clarify, goal_cases)
    case (1 w1 n)
    have "n \<le> ?m" using 1(2) len(1) by linarith
    then have n: "n \<le> buffer_size ?in" "take n (concat ?b) = take n (bs_contents ?in)" unfolding len(3) by simp_all
    obtain out where out: "pop_output ?in n = Inr out"
      "conn_inv (e_isn S) cap (e_taken S (w_kernel w1)) (e_peer S) (e_sent S (w_kernel w1)) (set_inbound out c)"
      using conn_pop [OF c(5) n(1), of 0] 1(4,5) n(2) by auto
    note frame = only_fd_sponge [OF 1(6)]
    let ?w = "w1\<lparr>sp_tcp := Some (set_inbound out c)\<rparr>"
    have new: "inbound_stream (set_inbound out c) = out" "bs_error out = bs_error ?in" "stream_in (set_inbound out c) = stream_in c"
      using out(1) by (auto simp: set_inbound_def pop_output_def rbind_Inr_iff)
    have "prefix (e_sent S (w_kernel w1)) (e_peer S)" using conn_prefix(1) [OF out(2)] .
    then have whole: "sp_inbound_shutdown w \<longrightarrow> complete S (set_inbound out c) (w_kernel w1)"
      using c(7) 1(5) new by (auto simp: complete_def)
    have inv1: "sponge_inv K gni A S ha h ?w"
      using c(2,3,4,6) 1(3,7) out(2) whole new(3) by (auto simp: sponge_inv_def sponge_place_def frame conn_at_def)
    have finished: "complete S (set_inbound out c) (w_kernel w1)" if "ByteStream_eof out \<or> bs_error out"
      using that conn_prefix(2) [OF out(2)] new by (auto simp: complete_def)
    show ?case
    proof (cases "ByteStream_eof out \<or> bs_error out")
      case False
      then show ?thesis using inv1 1(7) by (simp add: out(1) frame)
    next
      case True
      have ok: "f_ok S (w_kernel ?w)" "h < length (w_fds ?w)" using 1(3) h(2) by (simp_all add: frame)
      have "within (sponge_error S) (rbind (socket_shutdown K h SHUT_WR ?w) (\<lambda>s.
          rbind (peer_text gni A (s\<lparr>sp_inbound_shutdown := True\<rparr>)) (\<lambda>_. Inr (s\<lparr>sp_inbound_shutdown := True\<rparr>)))) ?Q"
      proof (rule within_bind [OF shutdown_stream [OF K(1) ok(1)]], goal_cases)
        case (2 w2)
        then have fr: "only_fd h ?w w2" and q: "quiet S (w_kernel ?w) (w_kernel w2)" and e: "fd_eof (wrapper w2 h) = fd_eof (wrapper w1 h)"
          and n2: "fd_write_count (wrapper w2 h) = fd_write_count (wrapper w1 h) + 1" using ok(2) by simp_all
        have inv2: "sponge_inv K gni A S ha h (w2\<lparr>sp_inbound_shutdown := True\<rparr>)"
          using inv1 q e finished [OF True] by (auto simp: sponge_inv_def sponge_place_def only_fd_sponge [OF fr] quiet_def conn_at_def complete_def)
        have "?Q (w2\<lparr>sp_inbound_shutdown := True\<rparr>)"
          using inv2 n2 1(7) by (simp add: only_fd_sponge(7) [OF fr] frame(7))
        then show ?case by (intro within_bind [OF sponge_adapter_ok(1) [OF inv2]]) simp
      qed simp
      then show ?thesis using True by (simp add: out(1) frame h(1) Let_def)
    qed
  qed
qed

lemma write_segments_ok:
  assumes "sponge_inv K gni A S ha h w"
  shows "within (sponge_error S) (write_segments A segs w) (\<lambda>w'. sponge_inv K gni A S ha h w' \<and> sp_tcp w' = sp_tcp w \<and>
    sp_outbound_shutdown w' = sp_outbound_shutdown w)"
  using assms
proof (induction segs arbitrary: w)
  case (Cons seg segs)
  show ?case
    unfolding write_segments.simps
  proof (rule within_bind [OF sponge_adapter_ok(3) [OF Cons.prems]], clarify, goal_cases)
    case (1 w1 a)
    have "datagram_adapter A" "ad_fd A (sp_adapter w) = ha"
      using Cons.prems by (simp_all add: sponge_inv_def setting_ok_def sponge_place_def)
    with datagram_adapter.write_law [OF this(1) 1(1)] have w1: "ad_fd A a = ha" "only_fd ha w w1" by simp_all
    show ?case
      using within_mono [OF Cons.IH [OF sponge_adapter_step [OF Cons.prems w1(2,1) 1(2,3)]]] only_fd_sponge [OF w1(2)] by simp
  qed
qed simp

lemma rule4_ok:
  assumes inv: "sponge_inv K gni A S ha h w"
  shows "within (sponge_error S) (rule4_callback A w) (\<lambda>w'. sponge_inv K gni A S ha h w' \<and>
    sp_outbound_shutdown w' = sp_outbound_shutdown w \<and> rule4_interest w' = Inr False)"
proof -
  obtain c where c: "sp_tcp w = Some c" "the_tcp w = Inr c" using inv by (rule sponge_inv_dest)
  show ?thesis
    unfolding rule4_callback_def c(2) rbind.simps
  proof (rule within_bind [OF write_segments_ok [OF inv]], goal_cases)
    case (1 w1)
    then have w1: "sp_tcp w1 = Some c" using c(1) by simp
    with 1(2) have "conn_at S (c\<lparr>conn_segments_out := []\<rparr>) (w_kernel w1)" "input_ended (stream_in c) = sp_outbound_shutdown w1"
      by (auto simp: sponge_inv_def conn_at_def conn_inv_def)
    then have "sponge_inv K gni A S ha h (w1\<lparr>sp_tcp := Some (c\<lparr>conn_segments_out := []\<rparr>)\<rparr>)"
      using 1(2) by (intro sponge_conn_step [OF _ _ _ w1]) simp_all
    then show ?case using 1(2) by (simp add: rule4_interest_def the_tcp_def)
  qed
qed

lemma sponge_interests:
  assumes "sponge_inv K gni A S ha h w"
  shows "within E (rule1_interest w) (\<lambda>_. True)" "within E (rule2_interest w) (\<lambda>b. b \<longrightarrow> \<not> sp_outbound_shutdown w)"
    "within E (rule3_interest w) (\<lambda>_. True)" "within E (rule4_interest w) (\<lambda>_. True)"
proof -
  obtain c where "the_tcp w = Inr c" using assms by (rule sponge_inv_dest)
  then show "within E (rule1_interest w) (\<lambda>_. True)" "within E (rule2_interest w) (\<lambda>b. b \<longrightarrow> \<not> sp_outbound_shutdown w)"
    "within E (rule3_interest w) (\<lambda>_. True)" "within E (rule4_interest w) (\<lambda>_. True)"
    by (simp_all add: rule1_interest_def rule2_interest_def rule3_interest_def rule4_interest_def)
qed

lemma sponge_apart: "sponge_inv K gni A S ha h w \<Longrightarrow> ha \<noteq> h"
  by (simp add: sponge_inv_def sponge_place_def)

text \<open>The laws of the contract.\<close>

lemma sponge_rules_eq:
  "sponge_rules K gni A ha h =
    [\<lparr>ru_fd = ha, ru_direction = In, ru_callback = rule1_callback gni A, ru_interest = rule1_interest, ru_cancel = Inr\<rparr>,
     \<lparr>ru_fd = h, ru_direction = In, ru_callback = rule2_callback K gni A, ru_interest = rule2_interest, ru_cancel = rule2_cancel\<rparr>,
     \<lparr>ru_fd = h, ru_direction = Out, ru_callback = rule3_callback K gni A, ru_interest = rule3_interest, ru_cancel = Inr\<rparr>,
     \<lparr>ru_fd = ha, ru_direction = Out, ru_callback = rule4_callback A, ru_interest = rule4_interest, ru_cancel = Inr\<rparr>]"
  by (simp add: sponge_rules_def add_rule_def)

lemma sponge_callbacks:
  assumes r: "r \<in> set (sponge_rules K gni A ha h)" and inv: "sponge_inv K gni A S ha h w" and armed: "sponge_armed h r w"
  shows "within (sponge_error S) (ru_callback r w) (\<lambda>w'. sponge_inv K gni A S ha h w' \<and>
    (service_count r w' = service_count r w \<longrightarrow> within (sponge_error S) (ru_interest r w') Not))"
  using r unfolding sponge_rules_eq list.set
proof (elim insertE, goal_cases)
  case 1
  then show ?case by (simp add: within_mono [OF rule1_ok [OF inv]] service_count_def)
next
  case 2
  then have "\<not> sp_outbound_shutdown w" using armed by (simp add: sponge_armed_def)
  with 2 show ?case by (simp add: within_mono [OF rule2_ok [OF inv]] service_count_def)
next
  case 3
  then show ?case by (simp add: within_mono [OF rule3_ok [OF inv]] service_count_def)
next
  case 4
  then show ?case by (simp add: within_mono [OF rule4_ok [OF inv]])
qed simp

lemma sponge_undisturbed:
  fixes A :: "('k, 'a) sponge_adapter"
  shows "sorted_wrt (\<lambda>a b. (\<forall>rs :: ('k, 'a) sponge_rule list. \<forall>w w'. sponge_inv K gni A S ha h w \<longrightarrow> sponge_armed h b w \<longrightarrow> ru_cancel a w = Inr w' \<longrightarrow> sponge_armed h b w') \<and>
      (\<forall>rs :: ('k, 'a) sponge_rule list. \<forall>w w'. sponge_inv K gni A S ha h w \<longrightarrow> sponge_armed h a w \<longrightarrow> ru_cancel b w = Inr w' \<longrightarrow> sponge_armed h a w') \<and>
      (\<forall>rs :: ('k, 'a) sponge_rule list. \<forall>w w'. sponge_inv K gni A S ha h w \<longrightarrow> sponge_armed h a w \<longrightarrow> sponge_armed h b w \<longrightarrow>
         ru_callback a w = Inr w' \<longrightarrow> sponge_armed h b w'))
    (sponge_rules K gni A ha h)"
proof (cases "ha = h")
  case True
  then have "\<not> sponge_inv K gni A S ha h w" for w using sponge_apart by blast
  then show ?thesis by (simp add: sponge_rules_eq)
next
  case False
  have "sp_outbound_shutdown w' = sp_outbound_shutdown w" if "sponge_inv K gni A S ha h w" "rule1_callback gni A w = Inr w'" for w w'
    using rule1_ok [OF that(1)] that(2) by simp
  then show ?thesis using False by (simp add: sponge_rules_eq sponge_armed_def)
qed

interpretation sponge: event_client K "sponge_rules K gni A ha h" "\<lambda>_. sponge_inv K gni A S ha h" "sponge_armed h" "sponge_error S"
  for K gni A S ha h
proof (unfold_locales, goal_cases)
  case (1 rs r w)
  then have "r \<in> set (sponge_rules K gni A ha h)" by (blast intro: subseq_member)
  then show ?case
    using sponge_interests [OF 1(3), of "sponge_error S"] sponge_apart [OF 1(3)]
    unfolding sponge_rules_eq list.set by (elim insertE) (simp_all add: sponge_armed_def)
next
  case (2 pre r post w)
  then have "r \<in> set (sponge_rules K gni A ha h)" using subseq_member [OF 2(1), of r] by simp
  then show ?case using rule2_cancel_ok [OF 2(2)] 2(2) by (auto simp: sponge_rules_eq)
next
  case (3 rs r w)
  then have "r \<in> set (sponge_rules K gni A ha h)" by (blast intro: subseq_member)
  then show ?case using 3(3,4) by (rule sponge_callbacks)
next
  case 4
  show ?case by (rule sponge_undisturbed)
next
  case (5 rs w fds t k x)
  from 5(1) have "quiet S (w_kernel w) (fst (sys_poll K fds t (w_kernel w)))"
    by (intro same_files_quiet) (simp add: sponge_inv_def setting_ok_def stream_kernel_def stream_files_def sponge_place_def)
  then show ?case using 5 by (auto simp: sponge_inv_def sponge_place_def quiet_def conn_at_def complete_def fd_simps)
qed (simp_all add: sponge_armed_def)

section \<open>The loop\<close>

lemma tick_both_ok:
  assumes inv: "sponge_inv K gni A S ha h w"
  shows "within (sponge_error S) (tick_both K A base_time w) (\<lambda>(w', _). sponge_inv K gni A S ha h w')"
proof -
  obtain c cap where c: "the_tcp w = Inr c" "sp_tcp w = Some c" "setting_ok K gni A S" "sponge_place A S ha h w"
    "conn_inv (e_isn S) cap (e_taken S (w_kernel w)) (e_peer S) (e_sent S (w_kernel w)) c"
    "input_ended (stream_in c) = sp_outbound_shutdown w" using inv by (rule sponge_inv_dest)
  obtain k t where k: "sys_clock K (w_kernel w) = (k, t)" by (cases "sys_clock K (w_kernel w)")
  have "quiet S (w_kernel w) (fst (sys_clock K (w_kernel w)))"
    using c(3,4) by (intro same_files_quiet) (simp add: setting_ok_def stream_kernel_def stream_files_def sponge_place_def)
  then have q: "quiet S (w_kernel w) k" by (simp add: k)
  from conn_tick_returns [OF c(5), of "u64_sub t base_time"] obtain c' where c': "TCPConnection_tick c (u64_sub t base_time) = Inr c'"
    "conn_at S c' (w_kernel w)" by (auto simp: returns_iff conn_keeps_def conn_at_def)
  have "sponge_inv K gni A S ha h (w\<lparr>sp_tcp := Some c'\<rparr>)"
    using conn_tick_ended [OF c(5) c'(1)] conn_tick_error [OF c'(1)] c(6) c'(2) by (intro sponge_conn_step [OF inv _ _ c(2)]) simp_all
  then have inv1: "sponge_inv K gni A S ha h (w\<lparr>w_kernel := k, sp_tcp := Some c'\<rparr>)"
    using q by (auto simp: sponge_inv_def sponge_place_def quiet_def conn_at_def complete_def fd_simps)
  have "within (sponge_error S) (rbind (ad_tick A (sp_adapter w) ms (w\<lparr>w_kernel := k, sp_tcp := Some c'\<rparr>)) (\<lambda>(s, a). Inr (s\<lparr>sp_adapter := a\<rparr>, t)))
      (\<lambda>(w', _). sponge_inv K gni A S ha h w')" for ms
  proof (rule within_bind [OF sponge_adapter_ok(4) [OF inv1, simplified]], clarify, goal_cases)
    case (1 w1 a)
    have "datagram_adapter A" "ad_fd A (sp_adapter w) = ha" using c(3,4) by (simp_all add: setting_ok_def sponge_place_def)
    with datagram_adapter.tick_law [OF this(1) 1(1)] sponge_adapter_step [OF inv1, of w1 a] 1(2,3) show ?case by simp
  qed
  then show ?thesis using inv by (simp add: tick_both_def c(1) timestamp_ms_def k c'(1) Let_def)
qed

lemma tcp_turns_ok:
  assumes inv: "sponge_inv K gni A S ha h w" and rs: "subseq rs (sponge_rules K gni A ha h)"
    and cond: "\<And>w. sponge_inv K gni A S ha h w \<Longrightarrow> within (sponge_error S) (condition w) (\<lambda>_. True)"
  shows "within (sponge_error S) (tcp_turns n K A condition rs base_time w) (\<lambda>(w', rs', _). sponge_inv K gni A S ha h w' \<and>
    subseq rs' (sponge_rules K gni A ha h))"
  using inv rs
proof (induction n arbitrary: w rs base_time)
  case (Suc n)
  have wait: "within (sponge_error S) (wait_next_event K rs TCP_TICK_MS w) (\<lambda>(_, w', rs'). sponge_inv K gni A S ha h w' \<and>
      subseq rs' (sponge_rules K gni A ha h))"
    by (rule within_mono [OF sponge.wait_ok [OF Suc.prems]]) (use Suc.prems(2) subseq_order.order_trans in blast)+
  have rest: "within (sponge_error S) (rbind (tick_both K A base_time w1) (\<lambda>(s, base_time). tcp_turns n K A condition rs1 base_time s))
      (\<lambda>(w', rs', _). sponge_inv K gni A S ha h w' \<and> subseq rs' (sponge_rules K gni A ha h))"
    if "sponge_inv K gni A S ha h w1" "subseq rs1 (sponge_rules K gni A ha h)" for w1 rs1
    by (rule within_bind [OF tick_both_ok [OF that(1)]]) (use Suc.IH that(2) in auto)
  show ?case
    unfolding tcp_turns.simps
  proof (rule within_bind [OF cond [OF Suc.prems(1)]], goal_cases)
    case (1 continue)
    then show ?case
      using Suc.prems rest by (cases continue) (auto intro!: within_bind [OF wait])
  qed
qed simp

lemma tcp_loop_ok:
  assumes inv: "sponge_inv K gni A S ha h w" and rs: "subseq rs (sponge_rules K gni A ha h)"
    and cond: "\<And>w. sponge_inv K gni A S ha h w \<Longrightarrow> within (sponge_error S) (condition w) (\<lambda>_. True)"
  shows "within (sponge_error S) (tcp_loop n K A condition rs w) (\<lambda>(w', rs', _). sponge_inv K gni A S ha h w' \<and>
    subseq rs' (sponge_rules K gni A ha h))"
proof -
  obtain k t where k: "sys_clock K (w_kernel w) = (k, t)" by (cases "sys_clock K (w_kernel w)")
  have "quiet S (w_kernel w) (fst (sys_clock K (w_kernel w)))"
    using inv by (intro same_files_quiet) (simp add: sponge_inv_def setting_ok_def stream_kernel_def stream_files_def sponge_place_def)
  then have "sponge_inv K gni A S ha h (w\<lparr>w_kernel := k\<rparr>)"
    using inv by (auto simp: k sponge_inv_def sponge_place_def quiet_def conn_at_def complete_def fd_simps)
  from tcp_turns_ok [OF this rs cond] show ?thesis by (simp add: tcp_loop_def timestamp_ms_def k)
qed

section \<open>Connecting, listening, and the thread\<close>

text \<open>A socket on which nothing has happened yet, and the configurations it is given.\<close>

definition sponge_fresh :: "'k kernel \<Rightarrow> getnameinfo_fn \<Rightarrow> ('k, 'a) sponge_adapter \<Rightarrow> ('k, 'a) setting \<Rightarrow> fd \<Rightarrow> fd \<Rightarrow> TCPConfig \<Rightarrow> FdAdapterConfig \<Rightarrow>
    ('k, 'a) sponge_socket \<Rightarrow> bool" where
  "sponge_fresh K gni A S ha h cfg c_ad w \<longleftrightarrow> setting_ok K gni A S \<and> sponge_place A S ha h w \<and> sp_tcp w = None \<and>
     \<not> sp_inbound_shutdown w \<and> \<not> sp_outbound_shutdown w \<and> \<not> fd_eof (wrapper w h) \<and>
     e_taken S (w_kernel w) = [] \<and> e_sent S (w_kernel w) = [] \<and>
     cfg_ok cfg \<and> length (e_peer S) + cfg_recv_capacity cfg \<le> max_string \<and>
     e_adapter S (ad_set_config A c_ad (sp_adapter w)) \<and> e_adapter S (ad_set_listening A True (ad_set_config A c_ad (sp_adapter w)))"

lemma sponge_fresh_inv:
  assumes fresh: "sponge_fresh K gni A S ha h cfg c_ad w" and c: "conn_inv (e_isn S) (cfg_recv_capacity cfg) [] (e_peer S) [] c"
    and ended: "\<not> input_ended (stream_in c)" and a: "a = ad_set_config A c_ad (sp_adapter w) \<or> a = ad_set_listening A True (ad_set_config A c_ad (sp_adapter w))"
  shows "sponge_inv K gni A S ha h (w\<lparr>sp_tcp := Some c, sp_adapter := a\<rparr>)"
proof -
  have "datagram_adapter A" using fresh by (simp add: sponge_fresh_def setting_ok_def)
  then have "ad_fd A a = ad_fd A (sp_adapter w)" "e_adapter S a" using a fresh by (auto simp: datagram_adapter.config_law sponge_fresh_def)
  then show ?thesis using fresh c ended by (auto simp: sponge_fresh_def sponge_inv_def sponge_place_def conn_at_def)
qed

lemma in_state_ok: "sponge_inv K gni A S ha h w \<Longrightarrow> within E (in_state st w) (\<lambda>_. True)"
  by (auto simp: in_state_def sponge_inv_def the_tcp_def)

lemma sponge_main_ok:
  assumes inv: "sponge_inv K gni A S ha h w" and rs: "subseq rs (sponge_rules K gni A ha h)"
  shows "within (sponge_error S) (tcp_main n K A rs w) (\<lambda>(w', rs', ended). \<exists>w1. sponge_inv K gni A S ha h w1 \<and>
    quiet S (w_kernel w1) (w_kernel w') \<and> (if ended then sp_tcp w' = None else w' = w1))" (is "within _ _ ?Q")
proof -
  obtain c where c: "sp_tcp w = Some c" using inv by (rule sponge_inv_dest)
  have "within (sponge_error S) (rbind (tcp_loop n K A (\<lambda>_. Inr True) rs w) (\<lambda>(s, rules, ended).
           if \<not> ended then Inr (s, rules, False)
           else rbind (socket_shutdown K (sp_socket s) SHUT_RDWR s) (\<lambda>s.
                rbind (the_tcp s) (\<lambda>_. Inr (s\<lparr>sp_tcp := None\<rparr>, rules, True))))) ?Q"
  proof (rule within_bind [OF tcp_loop_ok [OF inv rs]], simp, clarify, goal_cases)
    case (1 w1 rs1 ended)
    obtain c1 where c1: "sp_tcp w1 = Some c1" using 1(2) by (rule sponge_inv_dest)
    have K: "stream_kernel K S" "f_ok S (w_kernel w1)" using 1(2) by (simp_all add: sponge_inv_def setting_ok_def sponge_place_def)
    have "within (sponge_error S) (rbind (socket_shutdown K (sp_socket w1) SHUT_RDWR w1) (\<lambda>s.
          rbind (the_tcp s) (\<lambda>_. Inr (s\<lparr>sp_tcp := None\<rparr>, rs1, True)))) ?Q"
    proof (rule within_bind [OF shutdown_stream [OF K]], simp, goal_cases)
      case (1 w2)
      then have "sp_tcp w2 = Some c1" using only_fd_sponge(4) [of "sp_socket w1" w1 w2] c1 by simp
      then show ?case using 1 \<open>sponge_inv K gni A S ha h w1\<close> by (auto simp: the_tcp_def)
    qed
    then show ?case using 1(2) K(2) by (auto simp: quiet_def)
  qed
  then show ?thesis by (simp add: tcp_main_def c)
qed

lemma sponge_connect_ok:
  assumes fresh: "sponge_fresh K gni A S ha h cfg c_ad w"
  shows "within (sponge_error S) (sponge_connect n K gni A rnd cfg c_ad w) (\<lambda>(w', rs', _). sponge_inv K gni A S ha h w' \<and>
    subseq rs' (sponge_rules K gni A ha h))" (is "within _ _ ?Q")
proof -
  let ?c = "TCPConnection rnd cfg" and ?a = "ad_set_config A c_ad (sp_adapter w)"
  have cfg: "cfg_ok cfg" "length (e_peer S) + cfg_recv_capacity cfg \<le> max_string" and A: "datagram_adapter A"
    and w: "sp_tcp w = None" "ad_fd A (sp_adapter w) = ha" "sp_thread_data w = h"
    using fresh by (simp_all add: sponge_fresh_def setting_ok_def sponge_place_def)
  have c: "conn_inv (e_isn S) (cfg_recv_capacity cfg) [] (e_peer S) [] ?c"
    using cfg by (intro TCPConnection_inv) (simp_all add: cfg_ok_def)
  obtain c' sd where c': "conn_connect ?c = Inr c'" "conn_receiver c' = TCPReceiver (cfg_recv_capacity cfg)" "conn_linger c'"
    "syn_sent (snd_isn (conn_sender ?c)) (conn_sender c')" using conn_connect_fresh [OF cfg(1) refl, of rnd] by auto
  have "TCPState_eq (conn_state c') (TCPState_of SYN_SENT)" using conn_states(1) [OF c'(4,3,2)] by (simp add: TCPState_eq_def)
  have "conn_inv (e_isn S) (cfg_recv_capacity cfg) [] (e_peer S) [] c'"
    using conn_connect_returns [OF c] c'(1) by (simp add: conn_keeps_def)
  then have "sponge_inv K gni A S ha h (w\<lparr>sp_tcp := Some c', sp_adapter := ?a\<rparr>)"
    using c'(4) by (intro sponge_fresh_inv [OF fresh]) (simp_all add: syn_sent_def)
  moreover have order: "w\<lparr>sp_adapter := ?a, sp_tcp := Some c'\<rparr> = w\<lparr>sp_tcp := Some c', sp_adapter := ?a\<rparr>" by (cases w) simp
  ultimately have inv: "sponge_inv K gni A S ha h (w\<lparr>sp_adapter := ?a, sp_tcp := Some c'\<rparr>)" by (simp only: order)
  have dest: "within (sponge_error S) (addr_to_string gni (ac_destination c_ad)) (\<lambda>_. True)"
    using sponge_adapter_ok(1) [OF inv] by (simp add: peer_text_def datagram_adapter.config_law [OF A])
  have "within (sponge_error S) (rbind (addr_to_string gni (ac_destination c_ad)) (\<lambda>_.
      rbind (tcp_loop n K A (in_state SYN_SENT) (sponge_rules K gni A ha h) (w\<lparr>sp_adapter := ?a, sp_tcp := Some c'\<rparr>)) (\<lambda>(s, rules, ended).
        if \<not> ended then Inr (s, rules, False) else rbind (addr_to_string gni (ac_destination c_ad)) (\<lambda>_. Inr (s, rules, True))))) ?Q"
    by (intro within_bind [OF dest] within_bind [OF tcp_loop_ok [OF inv subseq_order.order_refl in_state_ok]])
      (auto intro!: within_bind [OF dest])
  then show ?thesis
    using \<open>TCPState_eq (conn_state c') (TCPState_of SYN_SENT)\<close>
    by (simp add: sponge_connect_def initialize_TCP_def Let_def w c'(1) the_tcp_def)
qed

lemma listen_and_accept_ok:
  assumes fresh: "sponge_fresh K gni A S ha h cfg c_ad w"
  shows "within (sponge_error S) (listen_and_accept n K gni A rnd cfg c_ad w) (\<lambda>(w', rs', _). sponge_inv K gni A S ha h w' \<and>
    subseq rs' (sponge_rules K gni A ha h))" (is "within _ _ ?Q")
proof -
  let ?a = "ad_set_listening A True (ad_set_config A c_ad (sp_adapter w))"
  have cfg: "cfg_ok cfg" "length (e_peer S) + cfg_recv_capacity cfg \<le> max_string"
    and w: "sp_tcp w = None" "ad_fd A (sp_adapter w) = ha" "sp_thread_data w = h"
    using fresh by (simp_all add: sponge_fresh_def setting_ok_def sponge_place_def)
  have "conn_inv (e_isn S) (cfg_recv_capacity cfg) [] (e_peer S) [] (TCPConnection rnd cfg)"
    using cfg by (intro TCPConnection_inv) (simp_all add: cfg_ok_def)
  then have inv: "sponge_inv K gni A S ha h (w\<lparr>sp_tcp := Some (TCPConnection rnd cfg), sp_adapter := ?a\<rparr>)"
    by (rule sponge_fresh_inv [OF fresh]) (simp_all add: TCPConnection_def TCPSender_def ByteStream_def input_ended_def)
  have "within (sponge_error S) (accepting w') (\<lambda>_. True)" if "sponge_inv K gni A S ha h w'" for w'
    unfolding accepting_def by (rule within_bind [OF in_state_ok [OF that]])+ simp
  note loop = tcp_loop_ok [OF inv subseq_order.order_refl this]
  have "within (sponge_error S) (rbind (tcp_loop n K A accepting (sponge_rules K gni A ha h) (w\<lparr>sp_tcp := Some (TCPConnection rnd cfg), sp_adapter := ?a\<rparr>))
      (\<lambda>(s, rules, ended). if \<not> ended then Inr (s, rules, False) else rbind (peer_text gni A s) (\<lambda>_. Inr (s, rules, True)))) ?Q"
    by (intro within_bind [OF loop]) (auto intro!: within_bind [OF sponge_adapter_ok(1)])
  then show ?thesis by (simp add: listen_and_accept_def initialize_TCP_def Let_def w)
qed

section \<open>Properties\<close>

text \<open>The life of a socket: it connects or accepts a connection, and then the thread runs the loop.\<close>

definition sponge_life :: "bool \<Rightarrow> nat \<Rightarrow> nat \<Rightarrow> 'k kernel \<Rightarrow> getnameinfo_fn \<Rightarrow> ('k, 'a) sponge_adapter \<Rightarrow> u32 \<Rightarrow> TCPConfig \<Rightarrow> FdAdapterConfig \<Rightarrow>
    ('k, 'a) sponge_socket \<Rightarrow> (('k, 'a) sponge_socket \<times> ('k, 'a) sponge_rule list \<times> bool) res" where
  "sponge_life active_open turns1 turns2 K gni A random_value c_tcp c_ad s =
     rbind (if active_open then sponge_connect turns1 K gni A random_value c_tcp c_ad s
            else listen_and_accept turns1 K gni A random_value c_tcp c_ad s) (\<lambda>(s, rules, ended).
       if \<not> ended then Inr (s, rules, False) else tcp_main turns2 K A rules s)"

lemma sponge_inv_delivers:
  assumes "sponge_inv K gni A S ha h w" and "quiet S (w_kernel w) k"
  shows "prefix (e_sent S k) (e_peer S)" and "sp_tcp w = Some c \<Longrightarrow> (\<forall>seg \<in> set (conn_segments_out c). peer_seg (e_taken S k) (snd_isn (conn_sender c)) seg) \<and>
    (sp_inbound_shutdown w \<longrightarrow> bs_error (inbound_stream c) \<or> e_sent S k = e_peer S)"
proof -
  obtain c0 cap where c: "sp_tcp w = Some c0" "conn_inv (e_isn S) cap (e_taken S (w_kernel w)) (e_peer S) (e_sent S (w_kernel w)) c0"
    "sp_inbound_shutdown w \<longrightarrow> complete S c0 (w_kernel w)" using assms(1) by (rule sponge_inv_dest)
  have k: "e_taken S k = e_taken S (w_kernel w)" "e_sent S k = e_sent S (w_kernel w)" using assms(2) by (simp_all add: quiet_def)
  show "prefix (e_sent S k) (e_peer S)" unfolding k by (rule conn_prefix(1) [OF c(2)])
  assume "sp_tcp w = Some c"
  with c show "(\<forall>seg \<in> set (conn_segments_out c). peer_seg (e_taken S k) (snd_isn (conn_sender c)) seg) \<and>
      (sp_inbound_shutdown w \<longrightarrow> bs_error (inbound_stream c) \<or> e_sent S k = e_peer S)"
    unfolding k using sent_ok_peer [of "e_taken S (w_kernel w)" _ _ _ "[]"] by (auto simp: conn_inv_def complete_def)
qed

text \<open>C3: A \<open>TCPSpongeSocket\<close> over any adapter. However long it runs, and whatever part of the bytes each system call reads or
  writes, the event loop never busy-waits and the connection never refuses a byte it has read:
  an exception that leaves the loop comes from a system call, from the adapter or from an error that
  \<open>poll\<close> reports. The application is given the peer's stream in order, without a gap, and when its end is shut
  down and there was no reset, all of it. The segments that wait to be sent carry the bytes the
  application has written.\<close>

theorem sponge_socket_delivers:
  assumes "sponge_fresh K gni A S ha h cfg c_ad w"
  shows "within (sponge_error S) (sponge_life active_open turns1 turns2 K gni A rnd cfg c_ad w) (\<lambda>(w', rules', ended).
    prefix (e_sent S (w_kernel w')) (e_peer S) \<and>
    (\<forall>c. sp_tcp w' = Some c \<longrightarrow>
       (\<forall>seg \<in> set (conn_segments_out c). peer_seg (e_taken S (w_kernel w')) (snd_isn (conn_sender c)) seg) \<and>
       (sp_inbound_shutdown w' \<longrightarrow> bs_error (inbound_stream c) \<or> e_sent S (w_kernel w') = e_peer S)))" (is "within _ _ ?Q")
proof -
  have result: "?Q (w', rs', ended)" if "sponge_inv K gni A S ha h w1" "quiet S (w_kernel w1) (w_kernel w')" "if ended then sp_tcp w' = None else w' = w1"
    for w1 w' rs' ended
    using sponge_inv_delivers [OF that(1,2)] that(3) by (auto split: if_splits)
  have opened: "within (sponge_error S) (if active_open then sponge_connect turns1 K gni A rnd cfg c_ad w else listen_and_accept turns1 K gni A rnd cfg c_ad w)
      (\<lambda>(w', rs', _). sponge_inv K gni A S ha h w' \<and> subseq rs' (sponge_rules K gni A ha h))"
    using sponge_connect_ok [OF assms] listen_and_accept_ok [OF assms] by simp
  show ?thesis
    unfolding sponge_life_def
  proof (rule within_bind [OF opened], clarify, goal_cases)
    case (1 w1 rs1 ended)
    show ?case
    proof (cases ended)
      case False
      moreover have "quiet S (w_kernel w1) (w_kernel w1)" using 1(2) by (simp add: sponge_inv_def sponge_place_def quiet_def)
      ultimately show ?thesis using result [OF 1(2), of w1 False] by simp
    next
      case True
      have "within (sponge_error S) (tcp_main turns2 K A rs1 w1) ?Q"
        by (rule within_mono [OF sponge_main_ok [OF 1(2,3)]]) (use result in \<open>force simp: case_prod_beta\<close>)+
      then show ?thesis using True by simp
    qed
  qed
qed

text \<open>A witness. The application writes three bytes, and the network loses every segment.\<close>

definition lossy_tun :: "(memory, tun_adapter lossy_adapter) sponge_adapter" where
  "lossy_tun = lossy_class (\<lambda>_. 0) (tun_class memory_kernel quad_gai quad_gni)"

definition lossy_config :: FdAdapterConfig where
  "lossy_config = \<lparr>ac_source = ipv4_address 0x0a000001 1000, ac_destination = ipv4_address 0x0a000002 80, ac_loss_rate_dn = 0, ac_loss_rate_up = 65535\<rparr>"

text \<open>The device with the number 7 has nothing to give.\<close>

definition lossy_setting :: "(memory, tun_adapter lossy_adapter) setting" where
  "lossy_setting = \<lparr>f_stream = \<lambda>n. n = 6, f_ok = \<lambda>k. f_ok memory_files k \<and> m_pending k 7 = [], f_read = m_given, f_written = m_taken,
     e_thread = 6, e_device = 7, e_adapter = \<lambda>l. fa_cfg (lo_adapter l) = lossy_config, e_peer = [1, 2], e_isn = WrappingInt32 7, e_errors = \<lambda>_. False\<rparr>"

definition lossy_socket :: "(memory, tun_adapter lossy_adapter) sponge_socket" where
  "lossy_socket = \<lparr>w_kernel = \<lparr>m_pending = (\<lambda>_. [])(6 := [1, 2, 3]), m_given = \<lambda>_. [], m_taken = \<lambda>_. []\<rparr>,
     w_fds = map (\<lambda>n. \<lparr>fd_fd = n, fd_eof = False, fd_closed = False, fd_read_count = 0, fd_write_count = 0\<rparr>) [5, 6, 7],
     sp_socket = 0, sp_thread_data = 1, sp_adapter = \<lparr>lo_rand = 0, lo_adapter = \<lparr>fa_cfg = lossy_config, fa_listen = False, ta_tun = 2\<rparr>\<rparr>,
     sp_tcp = None, sp_abort = False, sp_inbound_shutdown = False, sp_outbound_shutdown = False, sp_fully_acked = False\<rparr>"

lemma lossy_stream: "stream_kernel memory_kernel lossy_setting"
proof -
  have ok: "f_ok memory_files k \<longleftrightarrow> (\<forall>n. length (m_given k n) + length (m_pending k n) \<le> 3)" for k by (simp add: memory_files_def)
  have "stream_files memory_kernel lossy_setting"
    by (auto simp: stream_files_def reads_files_def writes_files_def keeps_files_def same_files_def memory_kernel_def lossy_setting_def ok min_def take_all)
  moreover have "length (m_given k 6) \<le> max_stream" if "f_ok lossy_setting k" for k
    using that by (auto simp: lossy_setting_def ok dest!: spec [of _ 6])
  ultimately show ?thesis by (simp add: stream_kernel_def) (simp add: lossy_setting_def)
qed

lemma parse_nothing: "case IPv4Datagram_parse IPv4Datagram_default (Buffer []) of Inl _ \<Rightarrow> False | Inr (_, r) \<Rightarrow> r \<noteq> NoError"
  by (simp add: IPv4Datagram_parse_def IPv4Header_parse_def NetParser_def IPv4Header_LENGTH_def IPv4Datagram_default_def IPv4Header_default_def
      BufferList_of_Buffer_def BufferList_size_def payload_length_def)

lemma lossy_read_nothing:
  assumes "fd_num w (ta_tun (lo_adapter l)) = 7" and "fa_cfg (lo_adapter l) = lossy_config" and "m_pending (w_kernel w) 7 = []"
  obtains w' where "ad_read lossy_tun l w = Inr (w', l, None)" "w_kernel w' = w_kernel w"
proof -
  obtain d r where "IPv4Datagram_parse IPv4Datagram_default (Buffer []) = Inr (d, r)" "r \<noteq> NoError"
    using parse_nothing by (auto split: sum.splits)
  moreover have "(m_pending (w_kernel w))(7 := []) = m_pending (w_kernel w)" "(m_given (w_kernel w))(7 := m_given (w_kernel w) 7) = m_given (w_kernel w)"
    using assms(3) by auto
  ultimately have "\<exists>w'. ad_read lossy_tun l w = Inr (w', l, None) \<and> w_kernel w' = w_kernel w"
    using assms
    by (simp add: lossy_tun_def lossy_class_def lossy_read_def tun_class_def tun_adapter_read_def fd_read_def memory_kernel_def size_max_def
        BUFFER_SIZE_def SystemCall_def string_resize_def should_drop_def lossy_config_def fd_simps)
  then show ?thesis using that by blast
qed

lemma lossy_write_nothing:
  assumes "fa_cfg (lo_adapter l) = lossy_config"
  shows "ad_write lossy_tun l x w = Inr (w, l\<lparr>lo_rand := lo_rand l + 1\<rparr>)"
  using assms by (simp add: lossy_tun_def lossy_class_def lossy_write_def tun_class_def should_drop_def lossy_config_def)

lemma lossy_tun_ok: "adapter_ok quad_gni lossy_tun lossy_setting"
  unfolding adapter_ok_def
proof (intro allI impI, goal_cases)
  case (1 l w)
  then have l: "fa_cfg (lo_adapter l) = lossy_config" and w: "f_ok lossy_setting (w_kernel w)" "m_pending (w_kernel w) 7 = []"
    and num: "fd_num w (ta_tun (lo_adapter l)) = 7"
    by (simp_all add: lossy_setting_def lossy_tun_def lossy_class_def tun_class_def)
  obtain w' where r: "ad_read lossy_tun l w = Inr (w', l, None)" "w_kernel w' = w_kernel w" using num l w(2) by (rule lossy_read_nothing)
  have "quiet lossy_setting (w_kernel w) (w_kernel w)" using w(1) by (simp add: quiet_def)
  moreover have "e_adapter lossy_setting l" "e_adapter lossy_setting (l\<lparr>lo_rand := n\<rparr>)" for n using l by (simp_all add: lossy_setting_def)
  moreover have "ad_config lossy_tun l = lossy_config" "ad_tick lossy_tun l ms w = Inr (w, l)" for ms
    using l by (simp_all add: lossy_tun_def lossy_class_def tun_class_def)
  moreover have "\<exists>str. addr_to_string quad_gni (ac_destination lossy_config) = Inr str"
    by (simp add: lossy_config_def addr_to_string_def ip_port_ipv4 [OF quad_resolver])
  ultimately show ?case using r lossy_write_nothing [OF l] by auto
qed

theorem sponge_socket_delivers_witness:
  "within (sponge_error lossy_setting) (sponge_life True 100 1000 memory_kernel quad_gni lossy_tun 7 TCPConfig_default lossy_config lossy_socket)
     (\<lambda>(w', rules', ended). prefix (m_taken (w_kernel w') 6) [1, 2])"
proof -
  have "datagram_adapter lossy_tun" unfolding lossy_tun_def by (rule tun.lossy_adapter)
  then have "sponge_fresh memory_kernel quad_gni lossy_tun lossy_setting 2 1 TCPConfig_default lossy_config lossy_socket"
    using lossy_stream lossy_tun_ok
    by (auto simp: sponge_fresh_def setting_ok_def sponge_place_def cfg_ok_def TCPConfig_default_def DEFAULT_CAPACITY_def)
      (simp_all add: lossy_socket_def lossy_setting_def lossy_tun_def lossy_class_def tun_class_def fd_num_def wrapper_def set_config_def set_listening_def
        memory_files_def)
  note delivers = sponge_socket_delivers [OF this, of True 100 1000 7]
  have "f_written lossy_setting = m_taken" "e_thread lossy_setting = 6" "e_peer lossy_setting = [1, 2]" by (simp_all add: lossy_setting_def)
  with delivers show ?thesis by (elim within_mono) auto
qed

end
