(* ===== verification/Stream_Copy.thy ===== *)
theory Stream_Copy
  imports Stream_Files Byte_Stream
begin

text \<open>
  \<^verbatim>\<open>apps/bidirectional_stream_copy.cc\<close>: copies the standard input to a socket and the socket to the standard
  output, through two byte streams and an event loop with four rules. \<^verbatim>\<open>apps/tcp_native.cc\<close> uses it on a socket of
  the system.

  The rules meet the contract \<open>steady_client\<close> of the loop. The invariant says for each direction that the bytes read so
  far are those written, followed by those in the stream.
\<close>

section \<open>bidirectional\_stream\_copy\<close>

record 'k copier = "'k world" +
  cp_socket :: fd
  cp_input :: fd
  cp_output :: fd
  cp_outbound :: byte_stream
  cp_inbound :: byte_stream
  cp_outbound_shutdown :: bool
  cp_inbound_shutdown :: bool

type_synonym 'k copy_rule = "('k, unit copier_ext) rule"

definition max_copy_length :: nat where
  "max_copy_length = 65536"

definition copy_buffer_size :: nat where
  "copy_buffer_size = 1048576"

definition STDIN_FILENO :: int where "STDIN_FILENO = 0"
definition STDOUT_FILENO :: int where "STDOUT_FILENO = 1"

text \<open>The rules: from the input to the outbound stream, from there to the socket, from the socket to the inbound stream, and
  from there to the output.\<close>

definition copy1_callback :: "'k kernel \<Rightarrow> 'k copier \<Rightarrow> 'k copier res" where
  "copy1_callback K s =
     rbind (fd_read K (cp_input s) (remaining_capacity (cp_outbound s)) s) (\<lambda>(s, data).
     rbind (ByteStream_write (cp_outbound s) data) (\<lambda>(stream, _).
       Inr (s\<lparr>cp_outbound := (if fd_eof (wrapper s (cp_input s)) then end_input stream else stream)\<rparr>)))"

definition copy1_interest :: "'k copier \<Rightarrow> bool res" where
  "copy1_interest s = Inr (\<not> bs_error (cp_outbound s) \<and> remaining_capacity (cp_outbound s) > 0 \<and> \<not> bs_error (cp_inbound s))"

definition end_outbound :: "'k copier \<Rightarrow> 'k copier res" where
  "end_outbound s = Inr (s\<lparr>cp_outbound := end_input (cp_outbound s)\<rparr>)"

definition copy2_callback :: "'k kernel \<Rightarrow> 'k copier \<Rightarrow> 'k copier res" where
  "copy2_callback K s =
     (let bytes_to_write = min max_copy_length (buffer_size (cp_outbound s))
      in rbind (peek_output (cp_outbound s) bytes_to_write) (\<lambda>buffer.
         rbind (fd_write K (cp_socket s) (BufferViewList_of_view buffer) False s) (\<lambda>(s, bytes_written).
         rbind (pop_output (cp_outbound s) bytes_written) (\<lambda>stream.
           let s = s\<lparr>cp_outbound := stream\<rparr>
           in if ByteStream_eof stream
              then rbind (socket_shutdown K (cp_socket s) SHUT_WR s) (\<lambda>s. Inr (s\<lparr>cp_outbound_shutdown := True\<rparr>))
              else Inr s))))"

definition copy2_interest :: "'k copier \<Rightarrow> bool res" where
  "copy2_interest s = Inr (\<not> buffer_empty (cp_outbound s) \<or> (ByteStream_eof (cp_outbound s) \<and> \<not> cp_outbound_shutdown s))"

definition copy3_callback :: "'k kernel \<Rightarrow> 'k copier \<Rightarrow> 'k copier res" where
  "copy3_callback K s =
     rbind (fd_read K (cp_socket s) (remaining_capacity (cp_inbound s)) s) (\<lambda>(s, data).
     rbind (ByteStream_write (cp_inbound s) data) (\<lambda>(stream, _).
       Inr (s\<lparr>cp_inbound := (if fd_eof (wrapper s (cp_socket s)) then end_input stream else stream)\<rparr>)))"

definition copy3_interest :: "'k copier \<Rightarrow> bool res" where
  "copy3_interest s = Inr (\<not> bs_error (cp_inbound s) \<and> remaining_capacity (cp_inbound s) > 0 \<and> \<not> bs_error (cp_outbound s))"

definition end_inbound :: "'k copier \<Rightarrow> 'k copier res" where
  "end_inbound s = Inr (s\<lparr>cp_inbound := end_input (cp_inbound s)\<rparr>)"

definition copy4_callback :: "'k kernel \<Rightarrow> 'k copier \<Rightarrow> 'k copier res" where
  "copy4_callback K s =
     (let bytes_to_write = min max_copy_length (buffer_size (cp_inbound s))
      in rbind (peek_output (cp_inbound s) bytes_to_write) (\<lambda>buffer.
         rbind (fd_write K (cp_output s) (BufferViewList_of_view buffer) False s) (\<lambda>(s, bytes_written).
         rbind (pop_output (cp_inbound s) bytes_written) (\<lambda>stream.
           let s = s\<lparr>cp_inbound := stream\<rparr>
           in if ByteStream_eof stream
              then rbind (fd_close K (cp_output s) s) (\<lambda>s. Inr (s\<lparr>cp_inbound_shutdown := True\<rparr>))
              else Inr s))))"

definition copy4_interest :: "'k copier \<Rightarrow> bool res" where
  "copy4_interest s = Inr (\<not> buffer_empty (cp_inbound s) \<or> (ByteStream_eof (cp_inbound s) \<and> \<not> cp_inbound_shutdown s))"

definition copy_rules :: "'k kernel \<Rightarrow> fd \<Rightarrow> fd \<Rightarrow> fd \<Rightarrow> 'k copy_rule list" where
  "copy_rules K socket_fd input output =
     (let rules = add_rule [] input In (copy1_callback K) copy1_interest end_outbound;
          rules = add_rule rules socket_fd Out (copy2_callback K) copy2_interest end_outbound;
          rules = add_rule rules socket_fd In (copy3_callback K) copy3_interest end_inbound
      in add_rule rules output Out (copy4_callback K) copy4_interest end_inbound)"

text \<open>At most \<open>n\<close> turns of the loop; the last component says whether it has ended.\<close>

fun copy_turns :: "nat \<Rightarrow> 'k kernel \<Rightarrow> 'k copy_rule list \<Rightarrow> 'k copier \<Rightarrow> ('k copier \<times> 'k copy_rule list \<times> bool) res" where
  "copy_turns 0 K rules s = Inr (s, rules, False)"
| "copy_turns (Suc n) K rules s =
     rbind (wait_next_event K rules (- 1) s) (\<lambda>(ret, s, rules).
       if ret = Exit then Inr (s, rules, True) else copy_turns n K rules s)"

definition bidirectional_stream_copy :: "nat \<Rightarrow> 'k kernel \<Rightarrow> fd \<Rightarrow> 'k world \<Rightarrow> ('k copier \<times> 'k copy_rule list \<times> bool) res" where
  "bidirectional_stream_copy turns K socket_fd w =
     rbind (FileDescriptor STDIN_FILENO w) (\<lambda>(w, input).
     rbind (FileDescriptor STDOUT_FILENO w) (\<lambda>(w, output).
     rbind (set_blocking K socket_fd False w) (\<lambda>w.
     rbind (set_blocking K input False w) (\<lambda>w.
     rbind (set_blocking K output False w) (\<lambda>w.
       copy_turns turns K (copy_rules K socket_fd input output)
         \<lparr>w_kernel = w_kernel w, w_fds = w_fds w, cp_socket = socket_fd, cp_input = input, cp_output = output,
          cp_outbound = ByteStream copy_buffer_size, cp_inbound = ByteStream copy_buffer_size,
          cp_outbound_shutdown = False, cp_inbound_shutdown = False\<rparr>)))))"

section \<open>tcp\_native\<close>

text \<open>The program: in client mode it connects, in server mode it accepts exactly one connection. The arguments are a
  mode, a host and a service.\<close>

definition native_arguments :: "string list \<Rightarrow> (bool \<times> string \<times> string) option" where
  "native_arguments argv =
     (if length argv < 3 then None
      else let server_mode = (argv ! 1 = ''-l'')
           in if server_mode \<and> length argv < 4 then None
              else if server_mode then Some (True, argv ! 2, argv ! 3) else Some (False, argv ! 1, argv ! 2))"

definition native_socket :: "'k kernel \<Rightarrow> getaddrinfo_fn \<Rightarrow> bool \<Rightarrow> string \<Rightarrow> string \<Rightarrow> 'k world \<Rightarrow> ('k world \<times> fd) res" where
  "native_socket K gai server_mode host service w =
     rbind (TCPSocket K w) (\<lambda>(w, h).
       if server_mode
       then rbind (set_reuseaddr K h w) (\<lambda>w.
            rbind (Address_hostname gai host service) (\<lambda>address.
            rbind (socket_bind K h address w) (\<lambda>w.
            rbind (tcp_listen K h 16 w) (\<lambda>w.
            rbind (tcp_accept K h w) (\<lambda>(w, h'). Inr (fd_destroy K h w, h'))))))
       else rbind (Address_hostname gai host service) (\<lambda>address.
            rbind (socket_connect K h address w) (\<lambda>w. Inr (w, h))))"

text \<open>\<open>None\<close>: the usage was shown.\<close>

definition tcp_native :: "nat \<Rightarrow> 'k kernel \<Rightarrow> getaddrinfo_fn \<Rightarrow> string list \<Rightarrow> 'k world \<Rightarrow> ('k copier \<times> 'k copy_rule list \<times> bool) option res" where
  "tcp_native turns K gai argv w =
     (case native_arguments argv of
        None \<Rightarrow> Inr None
      | Some (server_mode, host, service) \<Rightarrow>
          rbind (native_socket K gai server_mode host service w) (\<lambda>(w, h).
          rbind (bidirectional_stream_copy turns K h w) (\<lambda>x. Inr (Some x))))"

section \<open>One direction\<close>

text \<open>\<open>flow\<close> describes a direction that reads the descriptor \<open>hs\<close> and writes \<open>ht\<close>: the bytes read are those written and those in the
  stream. \<open>reading\<close> and \<open>writing\<close> say whether the two rules are still installed, and \<open>finished\<close> that the end has been passed on.\<close>

definition flow :: "'k files \<Rightarrow> fd \<Rightarrow> fd \<Rightarrow> byte_stream \<Rightarrow> bool \<Rightarrow> bool \<Rightarrow> bool \<Rightarrow> ('k, 'n) world_scheme \<Rightarrow> bool" where
  "flow F hs ht bs finished reading writing w \<longleftrightarrow> bs_inv bs \<and> bs_capacity bs = copy_buffer_size \<and> \<not> bs_error bs \<and>
     f_read F (w_kernel w) (fd_num w hs) = f_written F (w_kernel w) (fd_num w ht) @ bs_contents bs \<and>
     (\<not> reading \<longrightarrow> input_ended bs) \<and> (input_ended bs \<longrightarrow> fd_eof (wrapper w hs) \<or> \<not> reading \<or> \<not> writing) \<and>
     (finished \<longrightarrow> bs_contents bs = [] \<and> input_ended bs \<and> (fd_eof (wrapper w hs) \<or> \<not> reading))"

lemma flow_frame:
  assumes "flow F hs ht bs finished reading writing w" and "fd_num w' hs = fd_num w hs" "fd_num w' ht = fd_num w ht"
    and "f_read F (w_kernel w') (fd_num w hs) = f_read F (w_kernel w) (fd_num w hs)"
    and "f_written F (w_kernel w') (fd_num w ht) = f_written F (w_kernel w) (fd_num w ht)"
    and "fd_eof (wrapper w hs) \<longrightarrow> fd_eof (wrapper w' hs)"
  shows "flow F hs ht bs finished reading writing w'"
  using assms by (auto simp: flow_def)

text \<open>Reading: everything that was read fits into the stream.\<close>

lemma flow_read:
  assumes flow: "flow F hs ht bs finished True writing w" and armed: "\<not> fd_eof (wrapper w hs)" and len: "length data \<le> remaining_capacity bs"
    and w': "fd_num w' hs = fd_num w hs" "fd_num w' ht = fd_num w ht"
      "f_read F (w_kernel w') (fd_num w hs) = f_read F (w_kernel w) (fd_num w hs) @ data"
      "f_written F (w_kernel w') (fd_num w ht) = f_written F (w_kernel w) (fd_num w ht)"
  obtains bs' where "ByteStream_write bs data = Inr (bs', length data)"
    "flow F hs ht (if fd_eof (wrapper w' hs) then end_input bs' else bs') finished True writing w'"
proof -
  have "bs_inv bs" using flow by (simp add: flow_def)
  from ByteStream_write_returns [OF this, of data] len obtain bs' where bs': "ByteStream_write bs data = Inr (bs', length data)" "bs_inv bs'"
    "bs_contents bs' = bs_contents bs @ data" "bs_capacity bs' = bs_capacity bs" "input_ended bs' = input_ended bs" "bs_error bs' = bs_error bs"
    by (auto simp: returns_iff input_ended_def)
  have "\<not> finished" "input_ended bs \<longrightarrow> \<not> writing" using flow armed by (auto simp: flow_def)
  with flow bs' w' have "flow F hs ht (if fd_eof (wrapper w' hs) then end_input bs' else bs') finished True writing w'"
    by (auto simp: flow_def)
  with bs'(1) show ?thesis by (rule that)
qed

text \<open>Writing: what was written is taken from the stream. When the stream is at its end, everything has been
  written.\<close>

lemma flow_write:
  assumes flow: "flow F hs ht bs finished reading True w" and n: "n \<le> buffer_size bs"
    and w': "fd_num w' hs = fd_num w hs" "fd_num w' ht = fd_num w ht" "fd_eof (wrapper w' hs) = fd_eof (wrapper w hs)"
      "f_read F (w_kernel w') (fd_num w hs) = f_read F (w_kernel w) (fd_num w hs)"
      "f_written F (w_kernel w') (fd_num w ht) = f_written F (w_kernel w) (fd_num w ht) @ take n (bs_contents bs)"
  obtains bs' where "pop_output bs n = Inr bs'" "flow F hs ht bs' finished reading True w'"
    "ByteStream_eof bs' \<Longrightarrow> flow F hs ht bs' True reading True w'"
proof -
  have "bs_inv bs" using flow by (simp add: flow_def)
  from ByteStream_read_returns [OF this n] obtain bs' where bs': "pop_output bs n = Inr bs'" "bs_inv bs'"
    "bs_contents bs' = drop n (bs_contents bs)" "bs_capacity bs' = bs_capacity bs" "input_ended bs' = input_ended bs" "bs_error bs' = bs_error bs"
    by (auto simp: returns_iff input_ended_def ByteStream_read_def rbind_Inr_iff)
  have now: "flow F hs ht bs' finished reading True w'" using flow bs' w' by (auto simp: flow_def)
  moreover have "flow F hs ht bs' True reading True w'" if "ByteStream_eof bs'"
    using now that ByteStream_eof_iff [OF bs'(2)] by (auto simp: flow_def)
  ultimately show ?thesis using bs'(1) that by blast
qed

lemma flow_peek: "flow F hs ht bs finished reading writing w \<Longrightarrow> n \<le> buffer_size bs \<Longrightarrow> peek_output bs n = Inr (take n (bs_contents bs))"
  using ByteStream_read_returns [of bs n] by (auto simp: flow_def returns_iff ByteStream_read_def rbind_Inr_iff)

lemma flow_end:
  assumes "flow F hs ht bs finished reading writing w"
  shows "flow F hs ht (end_input bs) finished False writing w" "flow F hs ht (end_input bs) finished reading False w"
  using assms by (auto simp: flow_def)

text \<open>When neither rule wants anything, everything has been written and the end has been passed on, unless
  the writing rule is gone.\<close>

lemma flow_idle:
  assumes flow: "flow F hs ht bs finished reading True w" and w: "buffer_empty bs" "ByteStream_eof bs \<longrightarrow> finished"
    and r: "reading \<longrightarrow> remaining_capacity bs = 0"
  shows "finished"
proof -
  have inv: "bs_inv bs" "bs_capacity bs = copy_buffer_size" using flow by (simp_all add: flow_def)
  have empty: "buffer_size bs = 0" using w(1) by (simp add: buffer_empty_iff)
  then have "remaining_capacity bs = copy_buffer_size" using inv(2) by (simp add: stream_defs rb_remaining_capacity_def copy_buffer_size_def)
  then have "\<not> reading" using r by (auto simp: copy_buffer_size_def)
  then have "input_ended bs" using flow by (simp add: flow_def)
  moreover have "bs_contents bs = []" using empty by (metis length_0_conv length_bs_contents)
  ultimately show ?thesis using w(2) ByteStream_eof_iff [OF inv(1)] by simp
qed

section \<open>The rules\<close>

definition has_rule :: "('k, 'm) rule list \<Rightarrow> fd \<Rightarrow> Direction \<Rightarrow> bool" where
  "has_rule rs h d \<longleftrightarrow> (\<exists>r \<in> set rs. ru_fd r = h \<and> ru_direction r = d)"

definition copy_place :: "'k files \<Rightarrow> int \<Rightarrow> fd \<Rightarrow> fd \<Rightarrow> fd \<Rightarrow> 'k copier \<Rightarrow> bool" where
  "copy_place F nk hk hi ho w \<longleftrightarrow> cp_socket w = hk \<and> cp_input w = hi \<and> cp_output w = ho \<and> distinct [hk, hi, ho] \<and>
     (\<forall>h \<in> {hk, hi, ho}. h < length (w_fds w) \<and> f_stream F (fd_num w h)) \<and>
     fd_num w hk = nk \<and> fd_num w hi = STDIN_FILENO \<and> fd_num w ho = STDOUT_FILENO \<and> nk \<notin> {STDIN_FILENO, STDOUT_FILENO} \<and> f_ok F (w_kernel w)"

definition copy_inv :: "'k kernel \<Rightarrow> 'k files \<Rightarrow> int \<Rightarrow> fd \<Rightarrow> fd \<Rightarrow> fd \<Rightarrow> 'k copy_rule list \<Rightarrow> 'k copier \<Rightarrow> bool" where
  "copy_inv K F nk hk hi ho rs w \<longleftrightarrow> stream_files K F \<and> copy_place F nk hk hi ho w \<and>
     flow F hi hk (cp_outbound w) (cp_outbound_shutdown w) (has_rule rs hi In) (has_rule rs hk Out) w \<and>
     flow F hk ho (cp_inbound w) (cp_inbound_shutdown w) (has_rule rs hk In) (has_rule rs ho Out) w"

text \<open>A rule that reads is ready until its file has ended.\<close>

definition copy_armed :: "'k copy_rule \<Rightarrow> 'k copier \<Rightarrow> bool" where
  "copy_armed r w \<longleftrightarrow> (ru_direction r = In \<longrightarrow> \<not> fd_eof (wrapper w (ru_fd r)))"

definition copy_error :: "cxx_error \<Rightarrow> bool" where
  "copy_error e \<longleftrightarrow> system_error e \<or> e = RuntimeError ''EventLoop: error on polled file descriptor''"

lemma within_copy: "within system_error m P \<Longrightarrow> within copy_error m P"
  by (erule within_mono) (simp_all add: copy_error_def)

lemma copy_fields [simp]:
  "wrapper (w\<lparr>cp_outbound := b\<rparr>) x = wrapper w x" "wrapper (w\<lparr>cp_inbound := b\<rparr>) x = wrapper w x"
  "wrapper (w\<lparr>cp_outbound_shutdown := c\<rparr>) x = wrapper w x" "wrapper (w\<lparr>cp_inbound_shutdown := c\<rparr>) x = wrapper w x"
  "fd_num (w\<lparr>cp_outbound := b\<rparr>) x = fd_num w x" "fd_num (w\<lparr>cp_inbound := b\<rparr>) x = fd_num w x"
  "fd_num (w\<lparr>cp_outbound_shutdown := c\<rparr>) x = fd_num w x" "fd_num (w\<lparr>cp_inbound_shutdown := c\<rparr>) x = fd_num w x"
  by (simp_all add: wrapper_def fd_num_def)

lemma flow_fields [simp]:
  "flow F hs ht bs fin r wr (w\<lparr>cp_outbound := b\<rparr>) = flow F hs ht bs fin r wr w" "flow F hs ht bs fin r wr (w\<lparr>cp_inbound := b\<rparr>) = flow F hs ht bs fin r wr w"
  "flow F hs ht bs fin r wr (w\<lparr>cp_outbound_shutdown := c\<rparr>) = flow F hs ht bs fin r wr w"
  "flow F hs ht bs fin r wr (w\<lparr>cp_inbound_shutdown := c\<rparr>) = flow F hs ht bs fin r wr w"
  by (simp_all add: flow_def)

lemma only_fd_copier:
  assumes "only_fd x (w :: 'k copier) w'"
  shows "cp_socket w' = cp_socket w" "cp_input w' = cp_input w" "cp_output w' = cp_output w" "cp_outbound w' = cp_outbound w" "cp_inbound w' = cp_inbound w"
    "cp_outbound_shutdown w' = cp_outbound_shutdown w" "cp_inbound_shutdown w' = cp_inbound_shutdown w"
    "length (w_fds w') = length (w_fds w)" "fd_num w' y = fd_num w y" "y \<noteq> x \<Longrightarrow> wrapper w' y = wrapper w y"
  using assms by (cases w; cases w'; simp add: only_fd_def)+

lemma copy_place_frame:
  "copy_place F nk hk hi ho w \<Longrightarrow> only_fd x w w' \<Longrightarrow> f_ok F (w_kernel w') \<Longrightarrow> copy_place F nk hk hi ho w'"
  using only_fd_copier [of x w w'] by (auto simp: copy_place_def)

lemma copy_place_fields [simp]:
  "copy_place F nk hk hi ho (w\<lparr>cp_outbound := b\<rparr>) = copy_place F nk hk hi ho w" "copy_place F nk hk hi ho (w\<lparr>cp_inbound := b\<rparr>) = copy_place F nk hk hi ho w"
  "copy_place F nk hk hi ho (w\<lparr>cp_outbound_shutdown := c\<rparr>) = copy_place F nk hk hi ho w" "copy_place F nk hk hi ho (w\<lparr>cp_inbound_shutdown := c\<rparr>) = copy_place F nk hk hi ho w"
  by (simp_all add: copy_place_def)

lemma copy1_ok:
  assumes inv: "copy_inv K F nk hk hi ho rs w" and rule: "has_rule rs hi In" and armed: "\<not> fd_eof (wrapper w hi)"
  shows "within copy_error (copy1_callback K w) (\<lambda>w'. copy_inv K F nk hk hi ho rs w' \<and>
    fd_read_count (wrapper w' hi) = fd_read_count (wrapper w hi) + 1 \<and> fd_eof (wrapper w' hk) = fd_eof (wrapper w hk))"
proof -
  have K: "stream_files K F" and place: "copy_place F nk hk hi ho w"
    and out: "flow F hi hk (cp_outbound w) (cp_outbound_shutdown w) True (has_rule rs hk Out) w"
    and inb: "flow F hk ho (cp_inbound w) (cp_inbound_shutdown w) (has_rule rs hk In) (has_rule rs ho Out) w"
    using inv rule by (simp_all add: copy_inv_def)
  have h: "cp_input w = hi" "hi < length (w_fds w)" "f_ok F (w_kernel w)" "f_stream F (fd_num w hi)" "hi \<noteq> hk" "hi \<noteq> ho"
    "fd_num w hi \<noteq> fd_num w hk" "fd_num w hi \<noteq> fd_num w ho" using place by (auto simp: copy_place_def STDIN_FILENO_def STDOUT_FILENO_def)
  show ?thesis
    unfolding copy1_callback_def h(1)
  proof (rule within_bind [OF within_copy [OF fd_read_files [OF K h(3,4,2)]]], clarify, goal_cases)
    case (1 w1 data)
    note frame = only_fd_copier [OF 1(6)]
    obtain bs where bs: "ByteStream_write (cp_outbound w) data = Inr (bs, length data)"
      "flow F hi hk (if fd_eof (wrapper w1 hi) then end_input bs else bs) (cp_outbound_shutdown w) True (has_rule rs hk Out) w1"
      by (rule flow_read [OF out armed 1(2), of w1]) (use 1 h in \<open>simp_all add: frame\<close>)
    have "flow F hk ho (cp_inbound w) (cp_inbound_shutdown w) (has_rule rs hk In) (has_rule rs ho Out) w1"
      by (rule flow_frame [OF inb]) (use 1 h in \<open>simp_all add: frame\<close>)
    with bs copy_place_frame [OF place 1(6,3)] K rule show ?case
      using 1(7) h by (simp add: frame copy_inv_def)
  qed
qed

lemma take_chunk: "n \<le> length (take m xs) \<Longrightarrow> n \<le> m \<and> take n (take m xs) = take n xs"
  by simp

lemma copy3_ok:
  assumes inv: "copy_inv K F nk hk hi ho rs w" and rule: "has_rule rs hk In" and armed: "\<not> fd_eof (wrapper w hk)"
  shows "within copy_error (copy3_callback K w) (\<lambda>w'. copy_inv K F nk hk hi ho rs w' \<and>
    fd_read_count (wrapper w' hk) = fd_read_count (wrapper w hk) + 1)"
proof -
  have K: "stream_files K F" and place: "copy_place F nk hk hi ho w"
    and out: "flow F hi hk (cp_outbound w) (cp_outbound_shutdown w) (has_rule rs hi In) (has_rule rs hk Out) w"
    and inb: "flow F hk ho (cp_inbound w) (cp_inbound_shutdown w) True (has_rule rs ho Out) w"
    using inv rule by (simp_all add: copy_inv_def)
  have h: "cp_socket w = hk" "hk < length (w_fds w)" "f_ok F (w_kernel w)" "f_stream F (fd_num w hk)" "hi \<noteq> hk" "hk \<noteq> ho"
    "fd_num w hi \<noteq> fd_num w hk" "fd_num w hk \<noteq> fd_num w ho" using place by (auto simp: copy_place_def STDIN_FILENO_def STDOUT_FILENO_def)
  show ?thesis
    unfolding copy3_callback_def h(1)
  proof (rule within_bind [OF within_copy [OF fd_read_files [OF K h(3,4,2)]]], clarify, goal_cases)
    case (1 w1 data)
    note frame = only_fd_copier [OF 1(6)]
    obtain bs where bs: "ByteStream_write (cp_inbound w) data = Inr (bs, length data)"
      "flow F hk ho (if fd_eof (wrapper w1 hk) then end_input bs else bs) (cp_inbound_shutdown w) True (has_rule rs ho Out) w1"
      by (rule flow_read [OF inb armed 1(2), of w1]) (use 1 h in \<open>simp_all add: frame\<close>)
    have "flow F hi hk (cp_outbound w) (cp_outbound_shutdown w) (has_rule rs hi In) (has_rule rs hk Out) w1"
      by (rule flow_frame [OF out]) (use 1 h in \<open>simp_all add: frame\<close>)
    with bs copy_place_frame [OF place 1(6,3)] K rule show ?case
      using 1(7) h by (simp add: frame copy_inv_def)
  qed
qed

lemma copy2_ok:
  assumes inv: "copy_inv K F nk hk hi ho rs w" and rule: "has_rule rs hk Out"
  shows "within copy_error (copy2_callback K w) (\<lambda>w'. copy_inv K F nk hk hi ho rs w' \<and>
    fd_write_count (wrapper w' hk) \<noteq> fd_write_count (wrapper w hk) \<and> fd_eof (wrapper w' hk) = fd_eof (wrapper w hk))" (is "within _ _ ?Q")
proof -
  have K: "stream_files K F" and place: "copy_place F nk hk hi ho w"
    and out: "flow F hi hk (cp_outbound w) (cp_outbound_shutdown w) (has_rule rs hi In) True w"
    and inb: "flow F hk ho (cp_inbound w) (cp_inbound_shutdown w) (has_rule rs hk In) (has_rule rs ho Out) w"
    using inv rule by (simp_all add: copy_inv_def)
  have h: "cp_socket w = hk" "hk < length (w_fds w)" "f_ok F (w_kernel w)" "f_stream F (fd_num w hk)" "hi \<noteq> hk" "hk \<noteq> ho"
    "fd_num w hi \<noteq> fd_num w hk" "fd_num w hk \<noteq> fd_num w ho" using place by (auto simp: copy_place_def STDIN_FILENO_def STDOUT_FILENO_def)
  let ?m = "min max_copy_length (buffer_size (cp_outbound w))"
  let ?b = "BufferViewList_of_view (take ?m (bs_contents (cp_outbound w)))"
  have peek: "peek_output (cp_outbound w) ?m = Inr (take ?m (bs_contents (cp_outbound w)))" by (rule flow_peek [OF out]) simp
  have len: "concat ?b = take ?m (bs_contents (cp_outbound w))" "length (concat ?b) < U64"
    by (simp_all add: BufferViewList_of_view_def max_copy_length_def)
  show ?thesis
    unfolding copy2_callback_def Let_def peek rbind.simps h(1)
  proof (rule within_bind [OF within_copy [OF fd_write_files [OF K h(3,4) len(2) h(2)]]], clarify, goal_cases)
    case (1 w1 n)
    note frame = only_fd_copier [OF 1(6)]
    have n: "n \<le> ?m" "take n (concat ?b) = take n (bs_contents (cp_outbound w))" using take_chunk [OF 1(2) [unfolded len(1)]] unfolding len(1) by simp_all
    obtain bs where bs: "pop_output (cp_outbound w) n = Inr bs"
      "flow F hi hk bs (cp_outbound_shutdown w) (has_rule rs hi In) True w1"
      "ByteStream_eof bs \<Longrightarrow> flow F hi hk bs True (has_rule rs hi In) True w1"
      by (rule flow_write [OF out, of n w1]) (use 1 h n in \<open>simp_all add: frame\<close>)
    have inb1: "flow F hk ho (cp_inbound w) (cp_inbound_shutdown w) (has_rule rs hk In) (has_rule rs ho Out) w1"
      by (rule flow_frame [OF inb]) (use 1 h in \<open>simp_all add: frame\<close>)
    let ?w = "w1\<lparr>cp_outbound := bs\<rparr>"
    have place1: "copy_place F nk hk hi ho ?w" using copy_place_frame [OF place 1(6,3)] by simp
    show ?case
    proof (cases "ByteStream_eof bs")
      case False
      then show ?thesis using bs(1,2) inb1 place1 K rule 1(7) by (simp add: frame copy_inv_def)
    next
      case True
      have ok: "f_ok F (w_kernel ?w)" "hk < length (w_fds ?w)" using 1(3) h(2) by (simp_all add: frame)
      have "within copy_error (rbind (socket_shutdown K hk SHUT_WR ?w) (\<lambda>s. Inr (s\<lparr>cp_outbound_shutdown := True\<rparr>))) ?Q"
      proof (rule within_bind [OF within_copy [OF shutdown_files [OF K ok(1)]]], simp, goal_cases)
        case (1 w2)
        then have fr: "only_fd hk ?w w2" and same: "same_files F (w_kernel w1) (w_kernel w2)" and e: "fd_eof (wrapper w2 hk) = fd_eof (wrapper w1 hk)"
          and n2: "fd_write_count (wrapper w2 hk) = fd_write_count (wrapper w1 hk) + 1" using ok(2) by simp_all
        have "flow F hi hk bs True (has_rule rs hi In) True w2"
          by (rule flow_frame [OF bs(3) [OF True]]) (use same h in \<open>simp_all add: only_fd_copier [OF fr] same_files_def\<close>)
        moreover have "flow F hk ho (cp_inbound w) (cp_inbound_shutdown w) (has_rule rs hk In) (has_rule rs ho Out) w2"
          by (rule flow_frame [OF inb1]) (use same h e in \<open>simp_all add: only_fd_copier [OF fr] same_files_def\<close>)
        moreover have "copy_place F nk hk hi ho w2" using copy_place_frame [OF place1 fr] same by (simp add: same_files_def)
        ultimately show ?case
          using K rule e n2 \<open>wrapper w1 hk = _\<close> by (simp add: copy_inv_def only_fd_copier [OF fr] frame)
      qed
      then show ?thesis using True by (simp add: bs(1) frame h(1))
    qed
  qed
qed

lemma copy4_ok:
  assumes inv: "copy_inv K F nk hk hi ho rs w" and rule: "has_rule rs ho Out"
  shows "within copy_error (copy4_callback K w) (\<lambda>w'. copy_inv K F nk hk hi ho rs w' \<and>
    fd_write_count (wrapper w' ho) = fd_write_count (wrapper w ho) + 1)" (is "within _ _ ?Q")
proof -
  have K: "stream_files K F" and place: "copy_place F nk hk hi ho w"
    and out: "flow F hi hk (cp_outbound w) (cp_outbound_shutdown w) (has_rule rs hi In) (has_rule rs hk Out) w"
    and inb: "flow F hk ho (cp_inbound w) (cp_inbound_shutdown w) (has_rule rs hk In) True w"
    using inv rule by (simp_all add: copy_inv_def)
  have h: "cp_output w = ho" "ho < length (w_fds w)" "f_ok F (w_kernel w)" "f_stream F (fd_num w ho)" "hi \<noteq> ho" "hk \<noteq> ho"
    "fd_num w hk \<noteq> fd_num w ho" using place by (auto simp: copy_place_def STDIN_FILENO_def STDOUT_FILENO_def)
  let ?m = "min max_copy_length (buffer_size (cp_inbound w))"
  let ?b = "BufferViewList_of_view (take ?m (bs_contents (cp_inbound w)))"
  have peek: "peek_output (cp_inbound w) ?m = Inr (take ?m (bs_contents (cp_inbound w)))" by (rule flow_peek [OF inb]) simp
  have len: "concat ?b = take ?m (bs_contents (cp_inbound w))" "length (concat ?b) < U64"
    by (simp_all add: BufferViewList_of_view_def max_copy_length_def)
  show ?thesis
    unfolding copy4_callback_def Let_def peek rbind.simps h(1)
  proof (rule within_bind [OF within_copy [OF fd_write_files [OF K h(3,4) len(2) h(2)]]], clarify, goal_cases)
    case (1 w1 n)
    note frame = only_fd_copier [OF 1(6)]
    have n: "n \<le> ?m" "take n (concat ?b) = take n (bs_contents (cp_inbound w))" using take_chunk [OF 1(2) [unfolded len(1)]] unfolding len(1) by simp_all
    obtain bs where bs: "pop_output (cp_inbound w) n = Inr bs"
      "flow F hk ho bs (cp_inbound_shutdown w) (has_rule rs hk In) True w1"
      "ByteStream_eof bs \<Longrightarrow> flow F hk ho bs True (has_rule rs hk In) True w1"
      by (rule flow_write [OF inb, of n w1]) (use 1 h n in \<open>simp_all add: frame\<close>)
    have out1: "flow F hi hk (cp_outbound w) (cp_outbound_shutdown w) (has_rule rs hi In) (has_rule rs hk Out) w1"
      by (rule flow_frame [OF out]) (use 1 h in \<open>simp_all add: frame\<close>)
    let ?w = "w1\<lparr>cp_inbound := bs\<rparr>"
    have place1: "copy_place F nk hk hi ho ?w" using copy_place_frame [OF place 1(6,3)] by simp
    show ?case
    proof (cases "ByteStream_eof bs")
      case False
      then show ?thesis using bs(1,2) out1 place1 K rule 1(7) by (simp add: frame copy_inv_def)
    next
      case True
      have ok: "f_ok F (w_kernel ?w)" "ho < length (w_fds ?w)" using 1(3) h(2) by (simp_all add: frame)
      have "within copy_error (rbind (fd_close K ho ?w) (\<lambda>s. Inr (s\<lparr>cp_inbound_shutdown := True\<rparr>))) ?Q"
      proof (rule within_bind [OF within_copy [OF close_files [OF K ok(1)]]], goal_cases)
        case (1 w2)
        then have fr: "only_fd ho ?w w2" and same: "same_files F (w_kernel w1) (w_kernel w2)"
          and n2: "fd_write_count (wrapper w2 ho) = fd_write_count (wrapper w1 ho)" using ok(2) by simp_all
        have "flow F hk ho bs True (has_rule rs hk In) True w2"
          by (rule flow_frame [OF bs(3) [OF True]]) (use same h in \<open>simp_all add: only_fd_copier [OF fr] same_files_def\<close>)
        moreover have "flow F hi hk (cp_outbound w) (cp_outbound_shutdown w) (has_rule rs hi In) (has_rule rs hk Out) w2"
          by (rule flow_frame [OF out1]) (use same h in \<open>simp_all add: only_fd_copier [OF fr] same_files_def\<close>)
        moreover have "copy_place F nk hk hi ho w2" using copy_place_frame [OF place1 fr] same by (simp add: same_files_def)
        ultimately show ?case
          using K rule n2 \<open>wrapper w1 ho = _\<close> by (simp add: copy_inv_def only_fd_copier [OF fr] frame)
      qed
      then show ?thesis using True by (simp add: bs(1) frame h(1))
    qed
  qed
qed

section \<open>The contract with the loop\<close>

lemma copy_rules_eq:
  "copy_rules K hk hi ho =
    [\<lparr>ru_fd = hi, ru_direction = In, ru_callback = copy1_callback K, ru_interest = copy1_interest, ru_cancel = end_outbound\<rparr>,
     \<lparr>ru_fd = hk, ru_direction = Out, ru_callback = copy2_callback K, ru_interest = copy2_interest, ru_cancel = end_outbound\<rparr>,
     \<lparr>ru_fd = hk, ru_direction = In, ru_callback = copy3_callback K, ru_interest = copy3_interest, ru_cancel = end_inbound\<rparr>,
     \<lparr>ru_fd = ho, ru_direction = Out, ru_callback = copy4_callback K, ru_interest = copy4_interest, ru_cancel = end_inbound\<rparr>]"
  by (simp add: copy_rules_def add_rule_def)

lemma subseq_distinct: "subseq xs ys \<Longrightarrow> distinct (map f ys) \<Longrightarrow> distinct (map f xs)"
  by (induction rule: list_emb.induct) (auto dest: subseq_member)

lemma copy_apart: "copy_inv K F nk hk hi ho rs w \<Longrightarrow> hk \<noteq> hi \<and> hi \<noteq> ho \<and> hk \<noteq> ho"
  by (auto simp: copy_inv_def copy_place_def)

lemma has_rule_cancelled:
  assumes "subseq (pre @ r # post) (copy_rules K hk hi ho)" and "hk \<noteq> hi \<and> hi \<noteq> ho \<and> hk \<noteq> ho"
  shows "has_rule (pre @ post) h d \<longleftrightarrow> has_rule (pre @ r # post) h d \<and> \<not> (ru_fd r = h \<and> ru_direction r = d)"
proof -
  have "distinct (map (\<lambda>r. (ru_fd r, ru_direction r)) (copy_rules K hk hi ho))" using assms(2) by (simp add: copy_rules_eq)
  then have "distinct (map (\<lambda>r. (ru_fd r, ru_direction r)) (pre @ r # post))" by (rule subseq_distinct [OF assms(1)])
  then show ?thesis by (force simp: has_rule_def)
qed

lemma copy_cancel:
  assumes sub: "subseq (pre @ r # post) (copy_rules K hk hi ho)" and inv: "copy_inv K F nk hk hi ho (pre @ r # post) w"
  shows "within copy_error (ru_cancel r w) (copy_inv K F nk hk hi ho (pre @ post))"
proof -
  note apart = copy_apart [OF inv] and keys = has_rule_cancelled [OF sub copy_apart [OF inv]]
  note flows = inv [unfolded copy_inv_def]
  have "r \<in> set (copy_rules K hk hi ho)" by (rule subseq_member [OF sub]) simp
  moreover have "has_rule (pre @ r # post) (ru_fd r) (ru_direction r)" by (auto simp: has_rule_def)
  ultimately show ?thesis
    using flows apart unfolding copy_rules_eq list.set copy_inv_def keys
    by (elim insertE) (auto simp: end_outbound_def end_inbound_def dest: flow_end)
qed

lemma copy_callbacks:
  assumes sub: "subseq rs (copy_rules K hk hi ho)" and r: "r \<in> set rs" and inv: "copy_inv K F nk hk hi ho rs w" and armed: "copy_armed r w"
  shows "within copy_error (ru_callback r w) (\<lambda>w'. copy_inv K F nk hk hi ho rs w' \<and>
    (service_count r w' = service_count r w \<longrightarrow> within copy_error (ru_interest r w') Not))"
proof -
  have mem: "r \<in> set (copy_rules K hk hi ho)" by (rule subseq_member [OF sub r])
  have key: "has_rule rs (ru_fd r) (ru_direction r)" using r by (auto simp: has_rule_def)
  show ?thesis
    using mem unfolding copy_rules_eq list.set
  proof (elim insertE, goal_cases)
    case 1
    then show ?case using key armed by (simp add: copy_armed_def service_count_def within_mono [OF copy1_ok [OF inv]])
  next
    case 2
    then show ?case using key by (simp add: service_count_def within_mono [OF copy2_ok [OF inv]])
  next
    case 3
    then show ?case using key armed by (simp add: copy_armed_def service_count_def within_mono [OF copy3_ok [OF inv]])
  next
    case 4
    then show ?case using key by (simp add: service_count_def within_mono [OF copy4_ok [OF inv]])
  qed simp
qed

text \<open>No rule but the one that reads it changes whether a file has ended.\<close>

lemma update_nth: "xs[i := v] ! j = (if i = j \<and> i < length xs then v else xs ! j)"
  by (cases "i < length xs") (auto simp: nth_list_update list_update_beyond)

lemma eof_register: "fd_eof (wrapper (register_read h w) x) = fd_eof (wrapper w x)" "fd_eof (wrapper (register_write h w) x) = fd_eof (wrapper w x)"
  by (simp_all add: register_read_def register_write_def on_wrapper_def wrapper_def update_nth)

lemma eof_kernel: "wrapper (w\<lparr>w_kernel := k\<rparr>) x = wrapper w x"
  by (simp add: wrapper_def)

lemma eof_kept:
  "fd_write K h buffer False w = Inr (w', n) \<Longrightarrow> fd_eof (wrapper w' x) = fd_eof (wrapper w x)"
  "socket_shutdown K h how w = Inr w' \<Longrightarrow> fd_eof (wrapper w' x) = fd_eof (wrapper w x)"
  by (auto simp: fd_write_once write_once_def SystemCall_def rbind_Inr_iff Let_def eof_register eof_kernel socket_shutdown_def socket_call_def
      split: prod.splits if_splits)

lemma copy1_eof: "copy1_callback K w = Inr w' \<Longrightarrow> x \<noteq> cp_input w \<Longrightarrow> fd_eof (wrapper w' x) = fd_eof (wrapper w x)"
  by (auto simp: copy1_callback_def rbind_Inr_iff dest!: fd_read_Inr(3) simp: only_fd_def)

lemma copy2_eof: "copy2_callback K w = Inr w' \<Longrightarrow> fd_eof (wrapper w' x) = fd_eof (wrapper w x)"
  by (auto simp: copy2_callback_def rbind_Inr_iff Let_def dest!: eof_kept split: if_splits)

lemma copy_undisturbed:
  "sorted_wrt (\<lambda>a b. (\<forall>rs w w'. copy_inv K F nk hk hi ho rs w \<longrightarrow> copy_armed b w \<longrightarrow> ru_cancel a w = Inr w' \<longrightarrow> copy_armed b w') \<and>
      (\<forall>rs w w'. copy_inv K F nk hk hi ho rs w \<longrightarrow> copy_armed a w \<longrightarrow> ru_cancel b w = Inr w' \<longrightarrow> copy_armed a w') \<and>
      (\<forall>rs w w'. copy_inv K F nk hk hi ho rs w \<longrightarrow> copy_armed a w \<longrightarrow> copy_armed b w \<longrightarrow> ru_callback a w = Inr w' \<longrightarrow> copy_armed b w'))
    (copy_rules K hk hi ho)"
proof -
  have "fd_eof (wrapper w' hk) = fd_eof (wrapper w hk)" if "copy_inv K F nk hk hi ho rs w" "copy1_callback K w = Inr w'" for rs w w'
    using copy1_eof [OF that(2), of hk] that(1) by (auto simp: copy_inv_def copy_place_def)
  then show ?thesis
    by (auto simp: copy_rules_eq copy_armed_def end_outbound_def end_inbound_def copy2_eof)
qed

interpretation copy: steady_client K "copy_rules K hk hi ho" "copy_inv K F nk hk hi ho" copy_armed copy_error for K F nk hk hi ho
proof (unfold_locales, goal_cases)
  case (1 rs r w)
  then have "r \<in> set (copy_rules K hk hi ho)" by (blast intro: subseq_member)
  then show ?case using 1(4) by (auto simp: copy_rules_eq copy_armed_def copy1_interest_def copy2_interest_def copy3_interest_def copy4_interest_def)
next
  case (2 pre r post w)
  then show ?case by (rule copy_cancel)
next
  case (3 rs r w)
  then show ?case by (rule copy_callbacks)
next
  case 4
  show ?case by (rule copy_undisturbed)
next
  case (5 rs w fds t k x)
  have "same_files F (w_kernel w) (fst (sys_poll K fds t (w_kernel w)))"
    using 5(1) by (simp add: copy_inv_def stream_files_def copy_place_def)
  then have "same_files F (w_kernel w) k" by (simp add: 5(2))
  then have "flow F a b bs f g i (w\<lparr>w_kernel := k\<rparr>) = flow F a b bs f g i w" for a b bs f g i
    by (simp add: flow_def same_files_def fd_simps)
  with 5(1) \<open>same_files F (w_kernel w) k\<close> show ?case
    by (auto simp: copy_inv_def copy_place_def same_files_def fd_simps)
next
  case 8
  show ?case
    by (simp add: copy_rules_eq end_outbound_def end_inbound_def copy1_interest_def copy2_interest_def copy3_interest_def)
qed (simp_all add: copy_armed_def eof_kernel copy_error_def)

section \<open>The loop\<close>

lemma copy_turns_ok:
  assumes "copy_inv K F nk hk hi ho rs w" "subseq rs (copy_rules K hk hi ho)"
  shows "within copy_error (copy_turns n K rs w) (\<lambda>(w', rs', ended). copy_inv K F nk hk hi ho rs' w' \<and> subseq rs' (copy_rules K hk hi ho) \<and>
    (ended \<and> never_interrupted K \<longrightarrow> (\<forall>r \<in> set rs'. ru_interest r w' = Inr False)))"
  using assms
proof (induction n arbitrary: w rs)
  case (Suc n)
  show ?case
    unfolding copy_turns.simps
  proof (rule within_bind [OF copy.wait_ok [OF Suc.prems]], clarify, goal_cases)
    case (1 ret w1 rs1)
    have sub: "subseq rs1 (copy_rules K hk hi ho)" using 1(3) Suc.prems(2) subseq_order.order_trans by blast
    show ?case
    proof (cases "ret = Exit")
      case True
      then have "never_interrupted K \<longrightarrow> (\<forall>r \<in> set rs1. ru_interest r w1 = Inr False)" using copy.wait_idle [OF _ Suc.prems] 1(1) by blast
      then show ?thesis using True 1(2) sub by simp
    next
      case False
      then show ?thesis using Suc.IH [OF 1(2) sub] by simp
    qed
  qed
qed simp

lemma copy_rule_at:
  assumes "subseq rs (copy_rules K hk hi ho)" and "hk \<noteq> hi \<and> hi \<noteq> ho \<and> hk \<noteq> ho" and "\<forall>r \<in> set rs. ru_interest r w = Inr False"
  shows "has_rule rs hi In \<Longrightarrow> copy1_interest w = Inr False" "has_rule rs hk Out \<Longrightarrow> copy2_interest w = Inr False"
    "has_rule rs hk In \<Longrightarrow> copy3_interest w = Inr False" "has_rule rs ho Out \<Longrightarrow> copy4_interest w = Inr False"
proof -
  have "\<exists>r \<in> set (copy_rules K hk hi ho). ru_fd r = h \<and> ru_direction r = d \<and> ru_interest r w = Inr False" if "has_rule rs h d" for h d
    using that assms(3) subseq_member [OF assms(1)] unfolding has_rule_def by blast
  from this [of hi In] this [of hk Out] this [of hk In] this [of ho Out]
  show "has_rule rs hi In \<Longrightarrow> copy1_interest w = Inr False" "has_rule rs hk Out \<Longrightarrow> copy2_interest w = Inr False"
    "has_rule rs hk In \<Longrightarrow> copy3_interest w = Inr False" "has_rule rs ho Out \<Longrightarrow> copy4_interest w = Inr False"
    using assms(2) by (simp_all add: copy_rules_eq)
qed

lemma copy_idle:
  assumes inv: "copy_inv K F nk hk hi ho rs w" and sub: "subseq rs (copy_rules K hk hi ho)" and idle: "\<forall>r \<in> set rs. ru_interest r w = Inr False"
  shows "has_rule rs hk Out \<Longrightarrow> cp_outbound_shutdown w" "has_rule rs ho Out \<Longrightarrow> cp_inbound_shutdown w"
proof -
  note at = copy_rule_at [OF sub copy_apart [OF inv] idle]
  have ok: "\<not> bs_error (cp_outbound w)" "\<not> bs_error (cp_inbound w)" using inv by (simp_all add: copy_inv_def flow_def)
  have flows: "flow F hi hk (cp_outbound w) (cp_outbound_shutdown w) (has_rule rs hi In) (has_rule rs hk Out) w"
    "flow F hk ho (cp_inbound w) (cp_inbound_shutdown w) (has_rule rs hk In) (has_rule rs ho Out) w"
    using inv by (simp_all add: copy_inv_def)
  show "cp_outbound_shutdown w" if "has_rule rs hk Out"
    by (rule flow_idle [of F hi hk "cp_outbound w" _ "has_rule rs hi In" w])
      (use flows(1) that at(1,2) ok in \<open>auto simp: copy1_interest_def copy2_interest_def\<close>)
  show "cp_inbound_shutdown w" if "has_rule rs ho Out"
    by (rule flow_idle [of F hk ho "cp_inbound w" _ "has_rule rs hk In" w])
      (use flows(2) that at(3,4) ok in \<open>auto simp: copy3_interest_def copy4_interest_def\<close>)
qed

section \<open>Properties\<close>

text \<open>Nothing has been read from or written to the three files yet, and their numbers are different.\<close>

definition copy_start :: "'k kernel \<Rightarrow> 'k files \<Rightarrow> fd \<Rightarrow> 'k world \<Rightarrow> bool" where
  "copy_start K F hk w \<longleftrightarrow> stream_files K F \<and> f_ok F (w_kernel w) \<and> hk < length (w_fds w) \<and>
     fd_num w hk \<notin> {STDIN_FILENO, STDOUT_FILENO} \<and>
     (\<forall>n \<in> {STDIN_FILENO, STDOUT_FILENO, fd_num w hk}. f_stream F n \<and> f_read F (w_kernel w) n = [] \<and> f_written F (w_kernel w) n = [])"

lemma copy_inv_start:
  assumes start: "copy_start K F hk w" and k: "same_files F (w_kernel w) k"
  shows "copy_inv K F (fd_num w hk) hk (length (w_fds w)) (Suc (length (w_fds w))) (copy_rules K hk (length (w_fds w)) (Suc (length (w_fds w))))
    \<lparr>w_kernel = k, w_fds = w_fds w @ [\<lparr>fd_fd = STDIN_FILENO, fd_eof = False, fd_closed = False, fd_read_count = 0, fd_write_count = 0\<rparr>,
         \<lparr>fd_fd = STDOUT_FILENO, fd_eof = False, fd_closed = False, fd_read_count = 0, fd_write_count = 0\<rparr>],
      cp_socket = hk, cp_input = length (w_fds w), cp_output = Suc (length (w_fds w)),
      cp_outbound = ByteStream copy_buffer_size, cp_inbound = ByteStream copy_buffer_size, cp_outbound_shutdown = False, cp_inbound_shutdown = False\<rparr>"
proof -
  have "bs_inv (ByteStream copy_buffer_size)" by (rule ByteStream_inv) (simp_all add: copy_buffer_size_def)
  moreover have "\<not> bs_error (ByteStream copy_buffer_size)" "\<not> input_ended (ByteStream copy_buffer_size)" by (simp_all add: ByteStream_def input_ended_def)
  ultimately show ?thesis
    using start k
    by (auto simp: copy_inv_def copy_place_def flow_def has_rule_def copy_rules_eq copy_start_def same_files_def fd_num_def wrapper_def nth_append
        STDIN_FILENO_def STDOUT_FILENO_def)
qed

text \<open>C4: Copying between the terminal and a socket. However long the program runs, and whatever part of the bytes each system
  call reads or writes, it never busy-waits, and in each direction the bytes read are exactly those
  written, in order, followed by those still buffered. When it returns, and \<open>poll\<close> is never interrupted by a signal, each
  direction has passed on the end of its stream, after everything that was read, unless its
  receiving end has hung up.\<close>

theorem stream_copy_correct:
  fixes w :: "'a world"
  assumes "copy_start K F hk w"
  shows "within copy_error (bidirectional_stream_copy turns K hk w) (\<lambda>(w', rules', ended).
    f_read F (w_kernel w') STDIN_FILENO = f_written F (w_kernel w') (fd_num w hk) @ bs_contents (cp_outbound w') \<and>
    f_read F (w_kernel w') (fd_num w hk) = f_written F (w_kernel w') STDOUT_FILENO @ bs_contents (cp_inbound w') \<and>
    (cp_outbound_shutdown w' \<longrightarrow> bs_contents (cp_outbound w') = []) \<and> (cp_inbound_shutdown w' \<longrightarrow> bs_contents (cp_inbound w') = []) \<and>
    (ended \<and> never_interrupted K \<longrightarrow> (cp_outbound_shutdown w' \<or> \<not> has_rule rules' hk Out) \<and> (cp_inbound_shutdown w' \<or> \<not> has_rule rules' (cp_output w') Out)))"
    (is "within _ _ ?Q")
proof -
  let ?hi = "length (w_fds w)" and ?ho = "Suc (length (w_fds w))"
  let ?fds = "w_fds w @ [\<lparr>fd_fd = STDIN_FILENO, fd_eof = False, fd_closed = False, fd_read_count = 0, fd_write_count = 0\<rparr>,
    \<lparr>fd_fd = STDOUT_FILENO, fd_eof = False, fd_closed = False, fd_read_count = 0, fd_write_count = 0\<rparr>]"
  have K: "stream_files K F" "f_ok F (w_kernel w)" using assms by (simp_all add: copy_start_def)
  have result: "?Q (w', rs', ended)" if inv: "copy_inv K F (fd_num w hk) hk ?hi ?ho rs' w'" and sub: "subseq rs' (copy_rules K hk ?hi ?ho)"
    and idle: "ended \<and> never_interrupted K \<longrightarrow> (\<forall>r \<in> set rs'. ru_interest r w' = Inr False)" for w' rs' ended
  proof -
    have num: "fd_num w' hk = fd_num w hk" "fd_num w' ?hi = STDIN_FILENO" "fd_num w' ?ho = STDOUT_FILENO" "cp_output w' = ?ho"
      using inv by (simp_all add: copy_inv_def copy_place_def)
    have flows: "flow F ?hi hk (cp_outbound w') (cp_outbound_shutdown w') (has_rule rs' ?hi In) (has_rule rs' hk Out) w'"
      "flow F hk ?ho (cp_inbound w') (cp_inbound_shutdown w') (has_rule rs' hk In) (has_rule rs' ?ho Out) w'"
      using inv by (simp_all add: copy_inv_def)
    show ?thesis using flows copy_idle [OF inv sub] idle by (auto simp: flow_def num)
  qed
  have loop: "within copy_error (copy_turns turns K (copy_rules K hk ?hi ?ho)
      \<lparr>w_kernel = k, w_fds = ?fds, cp_socket = hk, cp_input = ?hi, cp_output = ?ho, cp_outbound = ByteStream copy_buffer_size,
       cp_inbound = ByteStream copy_buffer_size, cp_outbound_shutdown = False, cp_inbound_shutdown = False\<rparr>) ?Q" if "same_files F (w_kernel w) k" for k
    by (rule within_mono [OF copy_turns_ok [OF copy_inv_start [OF assms that] subseq_order.order_refl]]) (use result in auto)
  let ?w = "w\<lparr>w_fds := ?fds\<rparr>"
  have opened: "FileDescriptor STDIN_FILENO w = Inr (w\<lparr>w_fds := w_fds w @ [\<lparr>fd_fd = STDIN_FILENO, fd_eof = False, fd_closed = False, fd_read_count = 0, fd_write_count = 0\<rparr>]\<rparr>, ?hi)"
    "FileDescriptor STDOUT_FILENO (w\<lparr>w_fds := w_fds w @ [\<lparr>fd_fd = STDIN_FILENO, fd_eof = False, fd_closed = False, fd_read_count = 0, fd_write_count = 0\<rparr>]\<rparr>) =
      Inr (?w, ?ho)"
    by (simp_all add: FileDescriptor_def FDWrapper_def STDIN_FILENO_def STDOUT_FILENO_def)
  have block: "within copy_error (set_blocking K h False u) (\<lambda>u'. same_files F (w_kernel w) (w_kernel u') \<and> w_fds u' = ?fds)"
    if "same_files F (w_kernel w) (w_kernel u)" "w_fds u = ?fds" for h and u :: "'a world"
    by (rule within_mono [OF within_copy [OF set_blocking_files [OF K(1)]]]) (use that in \<open>auto simp: same_files_def\<close>)
  have start: "same_files F (w_kernel w) (w_kernel ?w)" "w_fds ?w = ?fds" using K(2) by (simp_all add: same_files_def)
  show ?thesis
    unfolding bidirectional_stream_copy_def opened rbind.simps prod.case
    by (rule within_bind [OF block [OF start]], elim conjE, rule within_bind [OF block], assumption, assumption, elim conjE,
        rule within_bind [OF block], assumption, assumption, elim conjE, simp only:, rule loop)
qed

theorem stream_copy_correct_witness:
  "within copy_error (bidirectional_stream_copy 50 memory_kernel 0
       \<lparr>w_kernel = \<lparr>m_pending = (\<lambda>_. [])(0 := [1, 2, 3], 9 := [7, 8]), m_given = \<lambda>_. [], m_taken = \<lambda>_. []\<rparr>,
        w_fds = [\<lparr>fd_fd = 9, fd_eof = False, fd_closed = False, fd_read_count = 0, fd_write_count = 0\<rparr>]\<rparr>)
     (\<lambda>(w', rules', ended). m_given (w_kernel w') 0 = m_taken (w_kernel w') 9 @ bs_contents (cp_outbound w') \<and>
        m_given (w_kernel w') 9 = m_taken (w_kernel w') 1 @ bs_contents (cp_inbound w') \<and>
        (ended \<longrightarrow> cp_outbound_shutdown w' \<or> \<not> has_rule rules' 0 Out))"
proof -
  let ?w = "\<lparr>w_kernel = \<lparr>m_pending = (\<lambda>_. [])(0 := [1, 2, 3], 9 := [7, 8]), m_given = \<lambda>_. [], m_taken = \<lambda>_. []\<rparr>,
        w_fds = [\<lparr>fd_fd = 9, fd_eof = False, fd_closed = False, fd_read_count = 0, fd_write_count = 0\<rparr>]\<rparr> :: memory world"
  have fields: "f_read memory_files = m_given" "f_written memory_files = m_taken" "f_stream memory_files n" for n by (simp_all add: memory_files_def)
  have num: "fd_num ?w 0 = 9" by (simp add: fd_num_def wrapper_def)
  have "f_ok memory_files (w_kernel ?w)" by (simp add: memory_files_def)
  then have "copy_start memory_kernel memory_files 0 ?w"
    using memory_kernel_files [OF refl fields(1,2)] fields num
    by (simp add: copy_start_def STDIN_FILENO_def STDOUT_FILENO_def)
  from stream_copy_correct [OF this, of 50] show ?thesis
    unfolding num fields STDIN_FILENO_def STDOUT_FILENO_def using memory_kernel_calm by (elim within_mono) auto
qed

end
