(* ===== verification/Spec2Isabelle.thy ===== *)
theory Spec2Isabelle
  imports TCP_Transfer Simulated_Network Sponge_Loop Stream_Copy
begin

text \<open>
  A verification of sponge, a TCP/IP stack in C++: the library \<^verbatim>\<open>libsponge/\<close>, the network simulator
  \<^verbatim>\<open>apps/network_simulator.cc\<close> and the copying program \<^verbatim>\<open>apps/bidirectional_stream_copy.cc\<close> with \<^verbatim>\<open>apps/tcp_native.cc\<close>.

  \<^bold>\<open>The program.\<close> Bytes that an application writes go through a \<open>ByteStream\<close> to the \<open>TCPSender\<close>, which cuts them
  into segments, keeps those that are not acknowledged and sends the oldest again when its timer
  expires. The \<open>TCPReceiver\<close> of the peer gives their payload to its \<open>StreamReassembler\<close>, which puts the
  excerpts in order and writes them to a \<open>ByteStream\<close> for the application there. A \<open>TCPConnection\<close> joins a
  sender and a receiver. Segments are serialised into IPv4 datagrams, these into Ethernet frames. A
  \<open>NetworkInterface\<close> finds the Ethernet address of the next hop with ARP, and a \<open>Router\<close> forwards
  datagrams between interfaces by the longest matching prefix. A \<open>TCPSpongeSocket\<close> runs a connection in an
  \<open>EventLoop\<close>: four rules carry bytes between the application's socket pair and the connection, and segments
  between the connection and an adapter, which puts them into UDP or IP datagrams or Ethernet frames.

  \<^bold>\<open>The theories\<close>, in the order of their dependencies; definitions keep the names of the source, with the
  class in front where it is needed.
  \<^item> \<open>Sponge_Prelude\<close>: the C++ types and exceptions, total correctness (\<open>returns\<close>), runs of a component
    (\<open>history_invariant\<close>), and the facts on lists and words that the components share.
  \<^item> \<open>Byte_Stream\<close> (\<^verbatim>\<open>byte_stream.{hh,cc}\<close>): the ring buffer and the stream. It refines a bounded FIFO
    queue of bytes, answer by answer.
  \<^item> \<open>Stream_Reassembler\<close> (\<^verbatim>\<open>stream_reassembler.{hh,cc}\<close>): excerpts in any order, with overlaps. What it
    delivers is a prefix of the stream, and all of it once the excerpts cover it.
  \<^item> \<open>Wrapping_Integers\<close> (\<^verbatim>\<open>wrapping_integers.{hh,cc}\<close>): \<open>unwrap\<close> finds the number closest to the checkpoint.
  \<^item> \<open>Net_Buffer\<close> (\<^verbatim>\<open>util/buffer.{hh,cc}\<close>), \<open>Net_Parser\<close> (\<^verbatim>\<open>util/parser.{hh,cc}\<close> and the checksum of
    \<^verbatim>\<open>util/util.cc\<close>): strings that are consumed from the front, integers in network byte order, and the
    ones complement sum.
  \<^item> \<open>TCP_Segment\<close>, \<open>IPv4_Datagram\<close>, \<open>Ethernet_ARP\<close> (\<^verbatim>\<open>tcp_helpers/\<close>): the wire formats. Parsing gives back what
    was serialised, and exactly the accepted inputs are described.
  \<^item> \<open>Header_Printers\<close>: \<open>to_string\<close>, \<open>summary\<close> and \<open>hexdump\<close>.
  \<^item> \<open>TCP_Receiver\<close>, \<open>TCP_Sender\<close>, \<open>TCP_Connection\<close> (\<^verbatim>\<open>tcp_receiver\<close>, \<^verbatim>\<open>tcp_sender\<close>, \<^verbatim>\<open>tcp_connection\<close>, with
    \<^verbatim>\<open>tcp_helpers/tcp_state\<close>): the invariants of all runs, the exact effect of the operations, the
    states and their names.
  \<^item> \<open>TCP_Transfer\<close>: two connections over a network that loses, duplicates and reorders, and a sender
    with a receiver that gets everything.
  \<^item> \<open>Net_Address\<close> (\<^verbatim>\<open>util/address.{hh,cc}\<close>), \<open>Network_Interface\<close> (\<^verbatim>\<open>network_interface.{hh,cc}\<close>), \<open>Router\<close>
    (\<^verbatim>\<open>router.{hh,cc}\<close>): addresses, ARP, and forwarding.
  \<^item> \<open>Network_Simulator\<close> (\<^verbatim>\<open>apps/network_simulator.cc\<close>), \<open>Simulated_Links\<close>, \<open>Simulated_Network\<close>: the simulated
    hosts and wires, the resolution of an address on a wire, unknown or out of date, and the test program, which
    succeeds.
  \<^item> \<open>File_Descriptor\<close> (\<^verbatim>\<open>util/file_descriptor.{hh,cc}\<close>), \<open>Net_Socket\<close> (\<^verbatim>\<open>util/socket.{hh,cc}\<close>), \<open>Event_Loop\<close>
    (\<^verbatim>\<open>util/eventloop.{hh,cc}\<close>): descriptors and sockets over a record of system calls, and the loop. The locales
    \<open>event_client\<close> and \<open>steady_client\<close> state what the rules of a client have to keep; from that the loop never
    busy-waits and keeps the client's invariant; for a \<open>steady_client\<close> that no signal interrupts it ends only
    when no remaining rule is interested.
  \<^item> \<open>FD_Adapters\<close> (\<^verbatim>\<open>tcp_helpers/fd_adapter\<close>, \<^verbatim>\<open>lossy_fd_adapter\<close>, \<^verbatim>\<open>tcp_over_ip\<close>, \<^verbatim>\<open>tuntap_adapter\<close>, \<^verbatim>\<open>util/tun\<close>): the
    adapters meet the locale \<open>datagram_adapter\<close>, and what one end writes to a TUN device the other reads, if it
    accepts the addresses and ports.
  \<^item> \<open>Sponge_Socket\<close> (\<^verbatim>\<open>tcp_helpers/tcp_sponge_socket.{hh,cc}\<close>), \<open>Sponge_Loop\<close>: the socket, and the proof that its
    rules are an \<open>event_client\<close>: the application gets a prefix of the peer's stream, however long the loop runs.
  \<^item> \<open>Stream_Files\<close>: what the system calls do to files that are streams of bytes, and a kernel in memory of which
    this holds. \<open>Stream_Copy\<close> (\<^verbatim>\<open>apps/bidirectional_stream_copy.cc\<close>, \<^verbatim>\<open>apps/tcp_native.cc\<close>): copying in both directions
    loses and reorders nothing; when it returns and no signal interrupts \<open>poll\<close>, the end of each stream has been passed
    on, unless its receiving end has hung up.

  \<^bold>\<open>State and effects.\<close> An object is a record with the members of its class; an operation takes the object
  and returns it updated. An operation that can throw returns a value of the sum type \<open>res\<close>; undefined
  behaviour (an access out of bounds, a bad shift, an overflow of a signed integer) is an error of its own, so that a proof
  that an operation returns excludes it. \<open>size_t\<close> and \<open>uint64_t\<close> are natural numbers with the operations
  modulo 2^64 written out; narrower integers are words. \<open>std::map\<close> and \<open>std::unordered_map\<close> are
  association lists. The operating system is a record \<open>kernel\<close> of system calls over a state of its own; an object
  that holds descriptors extends the record \<open>world\<close>, where a descriptor is a position in the list of their shared
  states. \<open>within\<close> says that an operation returns a good value or throws one of the named exceptions, which are those
  that a failing system call makes the source throw.

  \<^bold>\<open>Bounds.\<close> Streams have at most \<open>max_stream\<close> = 2^62 bytes, so that absolute sequence numbers do not wrap in
  64 bits; statements that involve both ends have at most \<open>max_transfer\<close>, just below 2^31, because a receiver that
  unwraps a sequence number cannot tell numbers further apart than 2^31. The loops of the source
  are structural recursions, or, where they might not end, values of an option type that is shown to be
  defined. The simulator runs 256 rounds; the proofs need six. Event loops that may run forever take a number of
  turns; what is shown of them holds for every number.

  \<^bold>\<open>Parameters.\<close> \<open>getaddrinfo\<close> and \<open>getnameinfo\<close> are arguments of what calls them; \<open>numeric_resolver\<close> states what
  POSIX says of them for numeric hosts, and holds of \<open>quad_gai\<close> and \<open>quad_gni\<close>. Random numbers are arguments.
  The laws of the system calls are the hypotheses \<open>stream_files\<close> and \<open>stream_kernel\<close>, which hold of \<open>memory_kernel\<close>.

  \<^bold>\<open>Not modelled.\<close> The other programs of \<^verbatim>\<open>apps/\<close>, which read command lines (with loss rates in floating point),
  measure time or print packets, around components that are modelled; messages on the standard streams, except
  for the exceptions that making them may raise; the scheduling of the threads of a socket, each of which is
  the sequence of its own steps; reference counts of descriptors, and closing them when the last copy goes.
\<close>

end
